(* ===== verification/Prelude.thy ===== *)
theory Prelude
  imports Main "HOL-Library.Word" "HOL-Library.Signed_Division" "HOL-Library.List_Lexorder"
begin

text \<open>
  Vocabulary shared by every component of the development.

  \<^item> Go results: a call returns a value (\<open>Ok\<close>), an \<open>error\<close> value (\<open>Err\<close>) or panics
    (\<open>Panic\<close>); \<open>res_bind\<close> is the sequencing of calls whose errors are returned at once.
  \<^item> Go integers: an \<open>int64\<close>, \<open>int32\<close> or \<open>int8\<close> is an \<open>int\<close> with its range as a
    predicate and its wrap-around written out (\<open>wrap64\<close>, \<open>wrap32\<close>); Go's \<open>/\<close> and
    \<open>%\<close> truncate towards zero and are \<open>sdiv\<close> and \<open>smod\<close> of the library.
  \<^item> Byte slices: \<open>bytes.Equal\<close> is equality and \<open>bytes.Compare\<close> the sign of the
    lexicographic order of the library on lists of bytes.
  \<^item> A pointer that the code tests against \<open>nil\<close> is an \<open>option\<close>.
  \<^item> The locale \<open>machine\<close>: invariants of a component with state, proved once for every
    sequence of operations.
\<close>

named_theorems go_int \<open>ranges and wrap-around of the machine integers\<close>
named_theorems res_simps \<open>evaluation of results\<close>

section \<open>Results\<close>

datatype ('e, 'a) res = Ok 'a | Err 'e | Panic string

fun res_bind :: "('e, 'a) res \<Rightarrow> ('a \<Rightarrow> ('e, 'b) res) \<Rightarrow> ('e, 'b) res" where
  "res_bind (Ok a) f = f a"
| "res_bind (Err e) f = Err e"
| "res_bind (Panic p) f = Panic p"

fun is_panic :: "('e, 'a) res \<Rightarrow> bool" where
  "is_panic (Panic p) = True"
| "is_panic r = False"

lemma res_bind_Ok_iff [res_simps]:
  "res_bind m f = Ok b \<longleftrightarrow> (\<exists>a. m = Ok a \<and> f a = Ok b)"
  by (cases m) auto

lemma res_bind_Err_iff [res_simps]:
  "res_bind m f = Err e \<longleftrightarrow> m = Err e \<or> (\<exists>a. m = Ok a \<and> f a = Err e)"
  by (cases m) auto

lemma is_panic_bind [res_simps]:
  "is_panic (res_bind m f) \<longleftrightarrow> is_panic m \<or> (\<exists>a. m = Ok a \<and> is_panic (f a))"
  by (cases m) auto

text \<open>A loop over a slice that threads a state and stops at the first error or panic.\<close>

fun res_fold :: "('s \<Rightarrow> 'x \<Rightarrow> ('e, 's) res) \<Rightarrow> 's \<Rightarrow> 'x list \<Rightarrow> ('e, 's) res" where
  "res_fold f s [] = Ok s"
| "res_fold f s (x # xs) = res_bind (f s x) (\<lambda>s'. res_fold f s' xs)"

lemma res_fold_append:
  "res_fold f s (xs @ ys) = res_bind (res_fold f s xs) (\<lambda>s'. res_fold f s' ys)"
proof (induction xs arbitrary: s)
  case (Cons x xs)
  then show ?case by (cases "f s x") auto
qed simp

lemma res_fold_invariant:
  assumes "res_fold f s xs = Ok s'" and "I s"
    and "\<And>s x s'. x \<in> set xs \<Longrightarrow> I s \<Longrightarrow> f s x = Ok s' \<Longrightarrow> I s'"
  shows "I s'"
  using assms
proof (induction xs arbitrary: s)
  case (Cons x xs)
  from Cons.prems(1) obtain t where t: "f s x = Ok t" "res_fold f t xs = Ok s'"
    by (auto simp: res_simps)
  with Cons.prems have "I t" by auto
  with t(2) Cons.IH Cons.prems(3) show ?case by auto
qed simp

section \<open>Machine integers\<close>

type_synonym int64 = int
type_synonym int32 = int
type_synonym int8 = int
type_synonym uint64 = int
type_synonym uint32 = int

definition MaxInt64 :: int where "MaxInt64 = 9223372036854775807"
definition MinInt64 :: int where "MinInt64 = -9223372036854775808"
definition MaxInt32 :: int where "MaxInt32 = 2147483647"
definition MinInt32 :: int where "MinInt32 = -2147483648"

lemmas int_limits [go_int] = MaxInt64_def MinInt64_def MaxInt32_def MinInt32_def

definition is_int64 :: "int \<Rightarrow> bool" where
  "is_int64 a \<longleftrightarrow> MinInt64 \<le> a \<and> a \<le> MaxInt64"

definition is_int32 :: "int \<Rightarrow> bool" where
  "is_int32 a \<longleftrightarrow> MinInt32 \<le> a \<and> a \<le> MaxInt32"

definition wrap64 :: "int \<Rightarrow> int" where
  "wrap64 a = signed_take_bit 63 a"

definition wrap32 :: "int \<Rightarrow> int" where
  "wrap32 a = signed_take_bit 31 a"

lemma wrap64_id: "is_int64 a \<Longrightarrow> wrap64 a = a"
  by (simp add: wrap64_def signed_take_bit_int_eq_self_iff is_int64_def int_limits)

lemma wrap32_id: "is_int32 a \<Longrightarrow> wrap32 a = a"
  by (simp add: wrap32_def signed_take_bit_int_eq_self_iff is_int32_def int_limits)

lemma is_int64_wrap64 [simp]: "is_int64 (wrap64 a)"
  using signed_take_bit_int_greater_eq_minus_exp [of 63 a] signed_take_bit_int_less_exp [of 63 a]
  by (simp add: wrap64_def is_int64_def int_limits del: signed_take_bit_int_less_exp
      signed_take_bit_int_greater_eq_minus_exp)

lemma is_int32_wrap32 [simp]: "is_int32 (wrap32 a)"
  using signed_take_bit_int_greater_eq_minus_exp [of 31 a] signed_take_bit_int_less_exp [of 31 a]
  by (simp add: wrap32_def is_int32_def int_limits del: signed_take_bit_int_less_exp
      signed_take_bit_int_greater_eq_minus_exp)

text \<open>Truncated division against the library's flooring division.\<close>

lemma sdiv_nonneg: "0 \<le> (a::int) \<Longrightarrow> 0 < b \<Longrightarrow> a sdiv b = a div b"
  by (cases "a = 0") (auto simp: signed_divide_int_def)

lemma smod_nonneg: "0 \<le> (a::int) \<Longrightarrow> 0 < b \<Longrightarrow> a smod b = a mod b"
  by (cases "a = 0") (auto simp: signed_modulo_int_def)

lemma sdiv_neg: "(a::int) < 0 \<Longrightarrow> 0 < b \<Longrightarrow> a sdiv b = - ((- a) div b)"
  by (simp add: signed_divide_int_def)

lemma sdiv_cases: "0 < (b::int) \<Longrightarrow> a sdiv b = (if 0 \<le> a then a div b else - ((- a) div b))"
  by (simp add: sdiv_nonneg sdiv_neg)

lemma sdiv_mono: "(a::int) \<le> a' \<Longrightarrow> 0 < b \<Longrightarrow> a sdiv b \<le> a' sdiv b"
proof -
  assume le: "a \<le> a'" and b: "0 < b"
  have "0 \<le> (- a) div b" if "a < 0" using that b by (simp add: pos_imp_zdiv_nonneg_iff)
  moreover have "0 \<le> a' div b" if "0 \<le> a'" using that b by (simp add: pos_imp_zdiv_nonneg_iff)
  ultimately show ?thesis using le b
    by (fastforce simp: sdiv_cases intro: zdiv_mono1)
qed

lemma int_div_less_iff: "0 < (c::int) \<Longrightarrow> x div c < y \<longleftrightarrow> x < y * c"
proof -
  assume c: "0 < c"
  have x: "x = (x div c) * c + x mod c" "0 \<le> x mod c" "x mod c < c"
    using c by (simp_all add: pos_mod_bound)
  show ?thesis
  proof
    assume "x div c < y"
    then have "(x div c + 1) * c \<le> y * c" using c by (intro mult_right_mono) auto
    then have "(x div c) * c + c \<le> y * c" by (simp add: distrib_right)
    with x show "x < y * c" by linarith
  next
    assume "x < y * c"
    with x have "(x div c) * c < y * c" by linarith
    with c show "x div c < y" by simp
  qed
qed

section \<open>Byte slices\<close>

type_synonym byte = "8 word"
type_synonym bytes = "byte list"

definition bytes_Compare :: "bytes \<Rightarrow> bytes \<Rightarrow> int" where
  "bytes_Compare a b = (if a < b then -1 else if a = b then 0 else 1)"

lemma bytes_Compare_less [simp]: "bytes_Compare a b < 0 \<longleftrightarrow> a < b"
  and bytes_Compare_greater [simp]: "0 < bytes_Compare a b \<longleftrightarrow> b < a"
  and bytes_Compare_zero [simp]: "bytes_Compare a b = 0 \<longleftrightarrow> a = b"
  and bytes_Compare_minus_one [simp]: "bytes_Compare a b = -1 \<longleftrightarrow> a < b"
  by (auto simp: bytes_Compare_def)

section \<open>Lists\<close>

lemma sum_list_map_update:
  "i < length xs \<Longrightarrow>
    sum_list (map f (xs[i := x])) = sum_list (map f xs) - f (xs ! i) + (f x :: int)"
  by (induction xs arbitrary: i) (auto simp: nth_Cons' split: nat.splits)

lemma sum_list_indicator_le:
  fixes f :: "'a \<Rightarrow> int"
  assumes "\<And>x. x \<in> set xs \<Longrightarrow> 0 \<le> f x"
  shows "sum_list (map (\<lambda>x. if P x then f x else 0) xs) \<le> sum_list (map f xs)"
  using assms by (intro sum_list_mono) auto

lemma sum_list_nonneg_int:
  fixes f :: "'a \<Rightarrow> int"
  assumes "\<And>x. x \<in> set xs \<Longrightarrow> 0 \<le> f x"
  shows "0 \<le> sum_list (map f xs)"
  using assms by (induction xs) auto

lemma member_le_sum_list_int:
  fixes f :: "'a \<Rightarrow> int"
  assumes "x \<in> set xs" and "\<And>x. x \<in> set xs \<Longrightarrow> 0 \<le> f x"
  shows "f x \<le> sum_list (map f xs)"
  using assms
proof (induction xs)
  case (Cons y ys)
  have "0 \<le> sum_list (map f ys)" using Cons.prems(2) by (intro sum_list_nonneg_int) auto
  with Cons show ?case by force
qed simp

section \<open>Components with state\<close>

text \<open>
  A component is a set of operations on a state; a run applies a list of them. An operation
  that fails leaves the run, as the error is handed to the caller. What every operation keeps
  holds after every run.
\<close>

locale machine =
  fixes step :: "'s \<Rightarrow> 'op \<Rightarrow> ('e, 's) res"
    and inv :: "'s \<Rightarrow> bool"
  assumes step_inv: "inv s \<Longrightarrow> step s c = Ok s' \<Longrightarrow> inv s'"
begin

lemma run_inv: "inv s \<Longrightarrow> res_fold step s cs = Ok s' \<Longrightarrow> inv s'"
  by (erule res_fold_invariant) (auto intro: step_inv)

end

text \<open>A machine whose operations in addition cannot panic while the invariant holds.\<close>

locale safe_machine = machine +
  assumes step_safe: "inv s \<Longrightarrow> \<not> is_panic (step s c)"
begin

lemma run_safe: "inv s \<Longrightarrow> \<not> is_panic (res_fold step s cs)"
proof (induction cs arbitrary: s)
  case (Cons c cs)
  then show ?case using step_safe [of s c] step_inv [of s c] by (auto simp: res_simps)
qed simp

end

end
