(* ===== verification/SafeMath.thy ===== *)
theory SafeMath
  imports Prelude
begin

text \<open>
  Checked and saturating integer arithmetic: \<open>libs/math/safemath.go\<close>,
  \<open>libs/math/math.go\<close>, \<open>libs/math/fraction.go\<close> and the \<open>safe*\<close> helpers at the end of
  \<open>types/validator_set.go\<close>. Every guard is the code's own comparison, evaluated in the
  width of its type; the lemmas show that a guard fires exactly when the mathematical
  result leaves the type, so that a returned value is the exact one.
\<close>

section \<open>libs/math/safemath.go\<close>

datatype math_error = ErrOverflowUint8 | ErrOverflowInt8

definition SafeAddInt32 :: "int32 \<Rightarrow> int32 \<Rightarrow> (math_error, int32) res" where
  "SafeAddInt32 a b =
     (if b > 0 \<and> a > wrap32 (MaxInt32 - b) then Panic ''int32 overflow''
      else if b < 0 \<and> a < wrap32 (MinInt32 - b) then Panic ''int32 overflow''
      else Ok (wrap32 (a + b)))"

definition SafeSubInt32 :: "int32 \<Rightarrow> int32 \<Rightarrow> (math_error, int32) res" where
  "SafeSubInt32 a b =
     (if b > 0 \<and> a < wrap32 (MinInt32 + b) then Panic ''int32 overflow''
      else if b < 0 \<and> a > wrap32 (MaxInt32 + b) then Panic ''int32 overflow''
      else Ok (wrap32 (a - b)))"

definition SafeConvertInt32 :: "int64 \<Rightarrow> (math_error, int32) res" where
  "SafeConvertInt32 a =
     (if a > MaxInt32 then Panic ''int32 overflow''
      else if a < MinInt32 then Panic ''int32 overflow''
      else Ok (wrap32 a))"

definition SafeConvertUint8 :: "int64 \<Rightarrow> (math_error, int) res" where
  "SafeConvertUint8 a =
     (if a > 255 then Err ErrOverflowUint8
      else if a < 0 then Err ErrOverflowUint8
      else Ok (a mod 256))"

definition SafeConvertInt8 :: "int64 \<Rightarrow> (math_error, int8) res" where
  "SafeConvertInt8 a =
     (if a > 127 then Err ErrOverflowInt8
      else if a < -128 then Err ErrOverflowInt8
      else Ok (signed_take_bit 7 a))"

section \<open>libs/math/math.go\<close>

definition maxInt :: "int \<Rightarrow> int \<Rightarrow> int" where
  "maxInt a b = (if a > b then a else b)"

definition minInt :: "int \<Rightarrow> int \<Rightarrow> int" where
  "minInt a b = (if a < b then a else b)"

definition maxInt64 :: "int64 \<Rightarrow> int64 \<Rightarrow> int64" where
  "maxInt64 a b = (if a > b then a else b)"

definition minInt64 :: "int64 \<Rightarrow> int64 \<Rightarrow> int64" where
  "minInt64 a b = (if a < b then a else b)"

lemma min_max_Int [simp]:
  "maxInt a b = max a b" "minInt a b = min a b" "maxInt64 a b = max a b" "minInt64 a b = min a b"
  by (auto simp: maxInt_def minInt_def maxInt64_def minInt64_def)

section \<open>types/validator_set.go: saturating arithmetic\<close>

definition safeAdd :: "int64 \<Rightarrow> int64 \<Rightarrow> int64 \<times> bool" where
  "safeAdd a b =
     (if b > 0 \<and> a > wrap64 (MaxInt64 - b) then (-1, True)
      else if b < 0 \<and> a < wrap64 (MinInt64 - b) then (-1, True)
      else (wrap64 (a + b), False))"

definition safeSub :: "int64 \<Rightarrow> int64 \<Rightarrow> int64 \<times> bool" where
  "safeSub a b =
     (if b > 0 \<and> a < wrap64 (MinInt64 + b) then (-1, True)
      else if b < 0 \<and> a > wrap64 (MaxInt64 + b) then (-1, True)
      else (wrap64 (a - b), False))"

definition safeAddClip :: "int64 \<Rightarrow> int64 \<Rightarrow> int64" where
  "safeAddClip a b =
     (let (c, overflow) = safeAdd a b
      in if overflow then (if b < 0 then MinInt64 else MaxInt64) else c)"

definition safeSubClip :: "int64 \<Rightarrow> int64 \<Rightarrow> int64" where
  "safeSubClip a b =
     (let (c, overflow) = safeSub a b
      in if overflow then (if b > 0 then MinInt64 else MaxInt64) else c)"

text \<open>
  The absolute values are computed by negation in \<open>int64\<close>, so that of \<open>MinInt64\<close> is
  \<open>MinInt64\<close> itself; the quotient by it is Go's truncated quotient.
\<close>

definition safeMul :: "int64 \<Rightarrow> int64 \<Rightarrow> int64 \<times> bool" where
  "safeMul a b =
     (if a = 0 \<or> b = 0 then (0, False)
      else
        (let absOfB = (if b < 0 then wrap64 (- b) else b);
             absOfA = (if a < 0 then wrap64 (- a) else a)
         in if absOfA > MaxInt64 sdiv absOfB then (0, True)
            else (wrap64 (a * b), False)))"

section \<open>libs/math/fraction.go\<close>

record Fraction =
  Numerator :: uint64
  Denominator :: uint64

datatype fraction_error = ErrFormat | ErrNumber | ErrZeroDenominator | ErrValueOverflow

text \<open>
  The parts of the Go library that \<open>ParseFraction\<close> uses: \<open>strings.Split\<close> at a
  one-character separator, and \<open>strconv.ParseUint\<close> in base 10 for 64 bits, which takes a
  non-empty string of digits and refuses a value of more than 64 bits.
\<close>

fun split_at :: "char \<Rightarrow> string \<Rightarrow> string list" where
  "split_at c [] = [[]]"
| "split_at c (x # xs) =
     (if x = c then [] # split_at c xs
      else (case split_at c xs of [] \<Rightarrow> [[x]] | w # ws \<Rightarrow> (x # w) # ws))"

definition digit_val :: "char \<Rightarrow> int option" where
  "digit_val c =
     (let n = (of_char c :: nat) in if 48 \<le> n \<and> n \<le> 57 then Some (int n - 48) else None)"

fun parse_digits :: "int \<Rightarrow> string \<Rightarrow> int option" where
  "parse_digits acc [] = Some acc"
| "parse_digits acc (c # cs) =
     (case digit_val c of None \<Rightarrow> None | Some d \<Rightarrow> parse_digits (10 * acc + d) cs)"

definition MaxUint64 :: int where "MaxUint64 = 18446744073709551615"

definition ParseUint :: "string \<Rightarrow> uint64 option" where
  "ParseUint s =
     (if s = [] then None
      else (case parse_digits 0 s of None \<Rightarrow> None
            | Some n \<Rightarrow> if n > MaxUint64 then None else Some n))"

fun FormatUint :: "nat \<Rightarrow> string" where
  "FormatUint n =
     (if n < 10 then [char_of (48 + n)] else FormatUint (n div 10) @ [char_of (48 + n mod 10)])"

declare FormatUint.simps [simp del]

definition Fraction_String :: "Fraction \<Rightarrow> string" where
  "Fraction_String fr = FormatUint (nat (Numerator fr)) @ ''/'' @ FormatUint (nat (Denominator fr))"

definition ParseFraction :: "string \<Rightarrow> (fraction_error, Fraction) res" where
  "ParseFraction f =
     (case split_at (CHR ''/'') f of
        [o0, o1] \<Rightarrow>
          (case ParseUint o0 of None \<Rightarrow> Err ErrNumber
           | Some numerator \<Rightarrow>
              (case ParseUint o1 of None \<Rightarrow> Err ErrNumber
               | Some denominator \<Rightarrow>
                   if denominator = 0 then Err ErrZeroDenominator
                   else if numerator > MaxInt64 \<or> denominator > MaxInt64 then Err ErrValueOverflow
                   else Ok \<lparr>Numerator = numerator, Denominator = denominator\<rparr>))
      | _ \<Rightarrow> Err ErrFormat)"

section \<open>Correctness of the guards\<close>

lemma SafeAddInt32_exact:
  assumes "is_int32 a" "is_int32 b"
  shows "SafeAddInt32 a b = (if is_int32 (a + b) then Ok (a + b) else Panic ''int32 overflow'')"
proof -
  have "wrap32 (MaxInt32 - b) = MaxInt32 - b" if "b > 0"
    using that assms by (intro wrap32_id) (auto simp: is_int32_def int_limits)
  moreover have "wrap32 (MinInt32 - b) = MinInt32 - b" if "b < 0"
    using that assms by (intro wrap32_id) (auto simp: is_int32_def int_limits)
  ultimately show ?thesis using assms
    by (auto simp: SafeAddInt32_def wrap32_id) (auto simp: is_int32_def)
qed

lemma SafeSubInt32_exact:
  assumes "is_int32 a" "is_int32 b"
  shows "SafeSubInt32 a b = (if is_int32 (a - b) then Ok (a - b) else Panic ''int32 overflow'')"
proof -
  have "wrap32 (MinInt32 + b) = MinInt32 + b" if "b > 0"
    using that assms by (intro wrap32_id) (auto simp: is_int32_def int_limits)
  moreover have "wrap32 (MaxInt32 + b) = MaxInt32 + b" if "b < 0"
    using that assms by (intro wrap32_id) (auto simp: is_int32_def int_limits)
  ultimately show ?thesis using assms
    by (auto simp: SafeSubInt32_def wrap32_id) (auto simp: is_int32_def)
qed

lemma SafeConvertInt32_exact:
  "SafeConvertInt32 a = (if is_int32 a then Ok a else Panic ''int32 overflow'')"
  by (auto simp: SafeConvertInt32_def wrap32_id) (auto simp: is_int32_def)

lemma SafeConvertUint8_exact:
  "SafeConvertUint8 a = (if 0 \<le> a \<and> a < 256 then Ok a else Err ErrOverflowUint8)"
  by (auto simp: SafeConvertUint8_def)

lemma SafeConvertInt8_exact:
  "SafeConvertInt8 a = (if -128 \<le> a \<and> a < 128 then Ok a else Err ErrOverflowInt8)"
  by (auto simp: SafeConvertInt8_def signed_take_bit_int_eq_self_iff)

lemma safeAdd_exact:
  assumes "is_int64 a" "is_int64 b"
  shows "safeAdd a b = (if is_int64 (a + b) then (a + b, False) else (-1, True))"
proof -
  have "wrap64 (MaxInt64 - b) = MaxInt64 - b" if "b > 0"
    using that assms by (intro wrap64_id) (auto simp: is_int64_def int_limits)
  moreover have "wrap64 (MinInt64 - b) = MinInt64 - b" if "b < 0"
    using that assms by (intro wrap64_id) (auto simp: is_int64_def int_limits)
  ultimately show ?thesis using assms
    by (auto simp: safeAdd_def wrap64_id) (auto simp: is_int64_def)
qed

lemma safeSub_exact:
  assumes "is_int64 a" "is_int64 b"
  shows "safeSub a b = (if is_int64 (a - b) then (a - b, False) else (-1, True))"
proof -
  have "wrap64 (MinInt64 + b) = MinInt64 + b" if "b > 0"
    using that assms by (intro wrap64_id) (auto simp: is_int64_def int_limits)
  moreover have "wrap64 (MaxInt64 + b) = MaxInt64 + b" if "b < 0"
    using that assms by (intro wrap64_id) (auto simp: is_int64_def int_limits)
  ultimately show ?thesis using assms
    by (auto simp: safeSub_def wrap64_id) (auto simp: is_int64_def)
qed

text \<open>Saturation: the clipped operations are the exact ones followed by a clamp to the type.\<close>

definition clamp64 :: "int \<Rightarrow> int" where
  "clamp64 x = max MinInt64 (min MaxInt64 x)"

lemma clamp64_id: "is_int64 x \<Longrightarrow> clamp64 x = x"
  by (auto simp: clamp64_def is_int64_def)

lemma is_int64_clamp64 [simp]: "is_int64 (clamp64 x)"
  by (auto simp: clamp64_def is_int64_def int_limits)

lemma safeAddClip_clamp:
  "is_int64 a \<Longrightarrow> is_int64 b \<Longrightarrow> safeAddClip a b = clamp64 (a + b)"
  by (auto simp: safeAddClip_def safeAdd_exact clamp64_id)
     (auto simp: clamp64_def is_int64_def)

lemma safeSubClip_clamp:
  "is_int64 a \<Longrightarrow> is_int64 b \<Longrightarrow> safeSubClip a b = clamp64 (a - b)"
  by (auto simp: safeSubClip_def safeSub_exact clamp64_id)
     (auto simp: clamp64_def is_int64_def)

lemma safeAddClip_exact:
  "is_int64 a \<Longrightarrow> is_int64 b \<Longrightarrow> is_int64 (a + b) \<Longrightarrow> safeAddClip a b = a + b"
  by (simp add: safeAddClip_clamp clamp64_id)

lemma safeSubClip_exact:
  "is_int64 a \<Longrightarrow> is_int64 b \<Longrightarrow> is_int64 (a - b) \<Longrightarrow> safeSubClip a b = a - b"
  by (simp add: safeSubClip_clamp clamp64_id)

lemma safeMul_exact:
  assumes "is_int64 a" "is_int64 b" "a \<noteq> MinInt64" "b \<noteq> MinInt64"
  shows "safeMul a b = (if \<bar>a * b\<bar> \<le> MaxInt64 then (a * b, False) else (0, True))"
proof (cases "a = 0 \<or> b = 0")
  case True
  then show ?thesis by (auto simp: safeMul_def int_limits)
next
  case False
  have abs: "(if b < 0 then wrap64 (- b) else b) = \<bar>b\<bar>" "(if a < 0 then wrap64 (- a) else a) = \<bar>a\<bar>"
    using assms by (auto simp: is_int64_def int_limits intro!: wrap64_id)
  have "\<bar>a\<bar> > MaxInt64 sdiv \<bar>b\<bar> \<longleftrightarrow> \<not> \<bar>a * b\<bar> \<le> MaxInt64"
    using False by (simp add: sdiv_nonneg int_limits int_div_less_iff abs_mult not_le)
  moreover have "wrap64 (a * b) = a * b" if "\<bar>a * b\<bar> \<le> MaxInt64"
    using that by (intro wrap64_id) (auto simp: is_int64_def int_limits)
  ultimately show ?thesis using False abs by (simp add: safeMul_def Let_def)
qed

text \<open>
  The absolute value of \<open>MinInt64\<close> is taken by negation, which gives \<open>MinInt64\<close> back: as a first
  factor it passes the guard, and the wrapped product is returned with no overflow reported.
\<close>

lemma safeMul_MinInt64_unnoticed: "safeMul MinInt64 2 = (0, False)"
  by (simp add: safeMul_def wrap64_def int_limits)

section \<open>Fractions: parsing and printing\<close>

lemma digit_val_char_of: "d < 10 \<Longrightarrow> digit_val (char_of (48 + d :: nat)) = Some (int d)"
  by (simp add: digit_val_def Let_def)

lemma parse_digits_append:
  "parse_digits acc (xs @ ys) =
     (case parse_digits acc xs of None \<Rightarrow> None | Some n \<Rightarrow> parse_digits n ys)"
  by (induction xs arbitrary: acc) (auto split: option.splits)

lemma parse_digits_FormatUint: "parse_digits 0 (FormatUint n) = Some (int n)"
proof (induction n rule: FormatUint.induct)
  case (1 n)
  show ?case
  proof (cases "n < 10")
    case True
    then show ?thesis by (simp add: FormatUint.simps [of n] digit_val_char_of)
  next
    case False
    with 1 show ?thesis
      by (simp add: FormatUint.simps [of n] parse_digits_append digit_val_char_of zdiv_int zmod_int)
  qed
qed

lemma FormatUint_digits: "CHR ''/'' \<notin> set (FormatUint n)"
proof (induction n rule: FormatUint.induct)
  case (1 n)
  have ne: "CHR ''/'' \<noteq> char_of (48 + d :: nat)" if "d < 10" for d
  proof
    assume "CHR ''/'' = char_of (48 + d :: nat)"
    then have "digit_val (CHR ''/'') = Some (int d)" using digit_val_char_of [OF that] by simp
    then show False by (simp add: digit_val_def)
  qed
  show ?case
  proof (cases "n < 10")
    case True
    with ne [of n] show ?thesis by (auto simp: FormatUint.simps [of n])
  next
    case False
    with 1 ne [of "n mod 10"] show ?thesis by (auto simp: FormatUint.simps [of n])
  qed
qed

lemma FormatUint_not_empty: "FormatUint n \<noteq> []"
  by (subst FormatUint.simps) simp

lemma ParseUint_FormatUint: "int n \<le> MaxUint64 \<Longrightarrow> ParseUint (FormatUint n) = Some (int n)"
  by (simp add: ParseUint_def parse_digits_FormatUint FormatUint_not_empty)

lemma split_at_none: "c \<notin> set xs \<Longrightarrow> split_at c xs = [xs]"
  by (induction xs) auto

lemma split_at_sep: "c \<notin> set xs \<Longrightarrow> split_at c (xs @ c # ys) = xs # split_at c ys"
  by (induction xs) auto

lemma ParseFraction_String:
  assumes "0 \<le> Numerator fr" "Numerator fr \<le> MaxInt64" "0 < Denominator fr" "Denominator fr \<le> MaxInt64"
  shows "ParseFraction (Fraction_String fr) = Ok fr"
proof -
  have "split_at (CHR ''/'') (Fraction_String fr)
      = [FormatUint (nat (Numerator fr)), FormatUint (nat (Denominator fr))]"
    by (simp add: Fraction_String_def split_at_sep split_at_none FormatUint_digits)
  then show ?thesis using assms
    by (simp add: ParseFraction_def ParseUint_FormatUint MaxUint64_def int_limits)
qed

lemma digit_val_nonneg: "digit_val c = Some d \<Longrightarrow> 0 \<le> d"
  by (auto simp: digit_val_def Let_def split: if_splits)

lemma parse_digits_nonneg: "parse_digits acc s = Some n \<Longrightarrow> 0 \<le> acc \<Longrightarrow> 0 \<le> n"
  by (induction s arbitrary: acc) (auto split: option.splits dest: digit_val_nonneg)

lemma ParseFraction_valid:
  assumes "ParseFraction f = Ok fr"
  shows "0 < Denominator fr \<and> Denominator fr \<le> MaxInt64 \<and>
         0 \<le> Numerator fr \<and> Numerator fr \<le> MaxInt64"
proof -
  have nonneg: "0 \<le> n" if "ParseUint s = Some n" for s n
    using that by (auto simp: ParseUint_def split: if_splits option.splits dest: parse_digits_nonneg)
  from assms obtain n d where "fr = \<lparr>Numerator = n, Denominator = d\<rparr>" "0 \<le> n" "0 \<le> d" "d \<noteq> 0"
    "n \<le> MaxInt64" "d \<le> MaxInt64"
    by (auto simp: ParseFraction_def split: list.splits option.splits if_splits dest!: nonneg)
  then show ?thesis by simp
qed

section \<open>Properties\<close>

text \<open>
  C35: the saturating helpers of the proposer-priority arithmetic are exact up to saturation.
  For int64 operands \<open>safeAddClip\<close> and \<open>safeSubClip\<close> return the mathematical sum and
  difference clamped to the int64 range, and \<open>safeAdd\<close> and \<open>safeSub\<close> report an overflow
  exactly when the mathematical result does not fit.
\<close>

theorem saturating_arithmetic:
  assumes "is_int64 a" "is_int64 b"
  shows "safeAddClip a b = max MinInt64 (min MaxInt64 (a + b)) \<and>
    safeSubClip a b = max MinInt64 (min MaxInt64 (a - b)) \<and>
    (snd (safeAdd a b) \<longleftrightarrow> \<not> is_int64 (a + b)) \<and> (snd (safeSub a b) \<longleftrightarrow> \<not> is_int64 (a - b))"
  using assms
  by (auto simp: safeAddClip_clamp safeSubClip_clamp clamp64_def safeAdd_exact safeSub_exact int_limits)

theorem saturating_arithmetic_witness:
  "safeAddClip MaxInt64 1 = MaxInt64 \<and> snd (safeAdd MaxInt64 1)"
  using saturating_arithmetic [of MaxInt64 1] by (simp add: is_int64_def int_limits)

text \<open>
  C36: printing and parsing of fractions. A fraction with a positive denominator whose parts fit an int64
  is read back from its printed form, and whatever \<open>ParseFraction\<close> accepts is such a
  fraction.
\<close>

theorem fraction_roundtrip:
  "ParseFraction f = Ok fr \<Longrightarrow>
    0 < Denominator fr \<and> ParseFraction (Fraction_String fr) = Ok fr"
  using ParseFraction_valid [of f fr] ParseFraction_String [of fr] by simp

theorem fraction_roundtrip_witness:
  "ParseFraction ''2/3'' = Ok \<lparr>Numerator = 2, Denominator = 3\<rparr> \<and>
   ParseFraction (Fraction_String \<lparr>Numerator = 2, Denominator = 3\<rparr>) = Ok \<lparr>Numerator = 2, Denominator = 3\<rparr>"
proof -
  have "ParseFraction ''2/3'' = Ok \<lparr>Numerator = 2, Denominator = 3\<rparr>" by code_simp
  then show ?thesis using fraction_roundtrip [of "''2/3''"] by simp
qed

end
