(* ===== verification/BitArray.thy ===== *)
theory BitArray
  imports SafeMath
begin

unbundle bit_operations_syntax

text \<open>
  The bit array of \<open>libs/bits/bit_array.go\<close>: \<open>Bits\<close> bits packed into 64-bit words. The
  mutex is not modelled (every operation holds it for its whole body); a nil pointer is
  \<open>None\<close>; an index outside the slice of words panics, as in Go. Indices are Go
  \<open>int\<close>s: \<open>i/64\<close> and \<open>i%64\<close> truncate, and a shift by a negative \<open>i%64\<close>, converted to
  \<open>uint\<close>, shifts every bit out.

  The abstraction \<open>bits_of\<close> is the list of the first \<open>Bits\<close> bits. The words may hold
  bits beyond \<open>Bits\<close> (\<open>Not\<close> sets them): \<open>clean\<close> says there are none.
\<close>

record BitArray =
  Bits :: int
  Elems :: "64 word list"

type_synonym ba_ptr = "BitArray option"

datatype ba_error = ErrNegativeBits | ErrTooManyBits | ErrNumElems int int | ErrJSONFormat string

section \<open>Operations\<close>

definition numElems :: "int \<Rightarrow> int" where
  "numElems bits = (bits + 63) sdiv 64"

text \<open>The sum is not wrapped: an array for which it would overflow does not fit into memory.\<close>

definition NewBitArray :: "int \<Rightarrow> ba_ptr" where
  "NewBitArray bits =
     (if bits \<le> 0 then None
      else Some \<lparr>Bits = bits, Elems = replicate (nat (numElems bits)) 0\<rparr>)"

definition Size :: "ba_ptr \<Rightarrow> int" where
  "Size bA = (case bA of None \<Rightarrow> 0 | Some b \<Rightarrow> Bits b)"

definition bitMask :: "int \<Rightarrow> 64 word" where
  "bitMask i = (let s = i smod 64 in if s < 0 then 0 else push_bit (nat s) 1)"

definition getIndex :: "BitArray \<Rightarrow> int \<Rightarrow> ('e, bool) res" where
  "getIndex bA i =
     (if i \<ge> Bits bA then Ok False
      else (let q = i sdiv 64
            in if q < 0 \<or> q \<ge> int (length (Elems bA)) then Panic ''index out of range''
               else Ok (Elems bA ! nat q AND bitMask i > 0)))"

definition GetIndex :: "ba_ptr \<Rightarrow> int \<Rightarrow> ('e, bool) res" where
  "GetIndex bA i = (case bA of None \<Rightarrow> Ok False | Some b \<Rightarrow> getIndex b i)"

text \<open>The mutating operations return the array after the call beside the code's result.\<close>

definition setIndex :: "BitArray \<Rightarrow> int \<Rightarrow> bool \<Rightarrow> ('e, BitArray \<times> bool) res" where
  "setIndex bA i v =
     (if i \<ge> Bits bA then Ok (bA, False)
      else (let q = i sdiv 64
            in if q < 0 \<or> q \<ge> int (length (Elems bA)) then Panic ''index out of range''
               else (let e = Elems bA ! nat q;
                         e' = (if v then e OR bitMask i else e AND NOT (bitMask i))
                     in Ok (bA\<lparr>Elems := (Elems bA)[nat q := e']\<rparr>, True))))"

definition SetIndex :: "ba_ptr \<Rightarrow> int \<Rightarrow> bool \<Rightarrow> ('e, ba_ptr \<times> bool) res" where
  "SetIndex bA i v =
     (case bA of None \<Rightarrow> Ok (None, False)
      | Some b \<Rightarrow> res_bind (setIndex b i v) (\<lambda>(b', r). Ok (Some b', r)))"

text \<open>\<open>copy(dst, src)\<close> of Go: the common prefix is overwritten, the lengths stay.\<close>

definition go_copy :: "'a list \<Rightarrow> 'a list \<Rightarrow> 'a list" where
  "go_copy dst src = take (length dst) src @ drop (length src) dst"

definition ba_copy :: "BitArray \<Rightarrow> BitArray" where
  "ba_copy bA = \<lparr>Bits = Bits bA, Elems = go_copy (replicate (length (Elems bA)) 0) (Elems bA)\<rparr>"

definition Copy :: "ba_ptr \<Rightarrow> ba_ptr" where
  "Copy bA = map_option ba_copy bA"

definition copyBits :: "BitArray \<Rightarrow> int \<Rightarrow> BitArray" where
  "copyBits bA bits =
     \<lparr>Bits = bits, Elems = go_copy (replicate (nat (numElems bits)) 0) (Elems bA)\<rparr>"

text \<open>
  The three word loops: \<open>for i := 0; i < n; i++ { c[i] = f c[i] o[i] }\<close>. An index past the
  end of either slice panics.
\<close>

definition zip_words :: "nat \<Rightarrow> (64 word \<Rightarrow> 64 word \<Rightarrow> 64 word) \<Rightarrow> 64 word list \<Rightarrow> 64 word list
    \<Rightarrow> ('e, 64 word list) res" where
  "zip_words n f c oe =
     (if n \<le> length c \<and> n \<le> length oe
      then Ok (map2 f (take n c) (take n oe) @ drop n c)
      else Panic ''index out of range'')"

definition Or_ba :: "ba_ptr \<Rightarrow> ba_ptr \<Rightarrow> ('e, ba_ptr) res" where
  "Or_ba bA ob =
     (case (bA, ob) of
        (None, None) \<Rightarrow> Ok None
      | (None, Some b) \<Rightarrow> Ok (Copy (Some b))
      | (Some a, None) \<Rightarrow> Ok (Copy (Some a))
      | (Some a, Some b) \<Rightarrow>
          (let c = copyBits a (maxInt (Bits a) (Bits b));
               smaller = minInt (int (length (Elems a))) (int (length (Elems b)))
           in res_bind (zip_words (nat smaller) (OR) (Elems c) (Elems b))
                (\<lambda>es. Ok (Some (c\<lparr>Elems := es\<rparr>)))))"

definition and_ba :: "BitArray \<Rightarrow> BitArray \<Rightarrow> ('e, BitArray) res" where
  "and_ba bA b =
     (let c = copyBits bA (minInt (Bits bA) (Bits b))
      in res_bind (zip_words (length (Elems c)) (AND) (Elems c) (Elems b))
           (\<lambda>es. Ok (c\<lparr>Elems := es\<rparr>)))"

definition And_ba :: "ba_ptr \<Rightarrow> ba_ptr \<Rightarrow> ('e, ba_ptr) res" where
  "And_ba bA ob =
     (case (bA, ob) of
        (Some a, Some b) \<Rightarrow> res_bind (and_ba a b) (\<lambda>c. Ok (Some c))
      | _ \<Rightarrow> Ok None)"

definition not_ba :: "BitArray \<Rightarrow> BitArray" where
  "not_ba bA = (let c = ba_copy bA in c\<lparr>Elems := map (\<lambda>e. NOT e) (Elems c)\<rparr>)"

definition Not_ba :: "ba_ptr \<Rightarrow> ba_ptr" where
  "Not_ba bA = map_option not_ba bA"

definition Sub_ba :: "ba_ptr \<Rightarrow> ba_ptr \<Rightarrow> ('e, ba_ptr) res" where
  "Sub_ba bA ob =
     (case (bA, ob) of
        (Some a, Some b) \<Rightarrow>
          (let c = copyBits a (Bits a);
               smaller = minInt (int (length (Elems a))) (int (length (Elems b)))
           in res_bind (zip_words (nat smaller) (\<lambda>x y. x AND NOT y) (Elems c) (Elems b))
                (\<lambda>es. Ok (Some (c\<lparr>Elems := es\<rparr>))))
      | _ \<Rightarrow> Ok None)"

definition IsEmpty :: "ba_ptr \<Rightarrow> bool" where
  "IsEmpty bA = (case bA of None \<Rightarrow> True | Some b \<Rightarrow> list_all (\<lambda>e. \<not> e > 0) (Elems b))"

definition IsFull :: "ba_ptr \<Rightarrow> ('e, bool) res" where
  "IsFull bA =
     (case bA of None \<Rightarrow> Ok True
      | Some b \<Rightarrow>
          (if Elems b = [] then Panic ''slice bounds out of range''
           else if list_ex (\<lambda>e. NOT e \<noteq> 0) (butlast (Elems b)) then Ok False
           else (let lastElemBits = (Bits b + 63) smod 64 + 1;
                     lastElem = last (Elems b);
                     mask = (if lastElemBits < 0 then 0 else push_bit (nat lastElemBits) 1) - 1
                 in Ok ((lastElem + 1) AND mask = 0))))"

text \<open>
  \<open>getTrueIndices\<close>: the loop over the words before the last carries \<open>curBit\<close> and the list
  built so far, skipping a zero word; the last word is read up to \<open>Bits - curBit\<close>.
\<close>

definition wordIndices :: "64 word \<Rightarrow> nat \<Rightarrow> int \<Rightarrow> int list" where
  "wordIndices e n curBit =
     map (\<lambda>j. curBit + int j) (filter (\<lambda>j. e AND push_bit j 1 > 0) [0..<n])"

fun trueIndicesLoop :: "64 word list \<Rightarrow> int \<Rightarrow> int list \<Rightarrow> int list \<times> int" where
  "trueIndicesLoop [] curBit acc = (acc, curBit)"
| "trueIndicesLoop (e # es) curBit acc =
     (if e = 0 then trueIndicesLoop es (curBit + 64) acc
      else trueIndicesLoop es (curBit + 64) (acc @ wordIndices e 64 curBit))"

definition getTrueIndices :: "BitArray \<Rightarrow> ('e, int list) res" where
  "getTrueIndices bA =
     (if Elems bA = [] then Panic ''index out of range''
      else (let (acc, curBit) = trueIndicesLoop (butlast (Elems bA)) 0 [];
                numFinalBits = Bits bA - curBit
            in Ok (acc @ wordIndices (last (Elems bA)) (nat numFinalBits) curBit)))"

text \<open>
  \<open>PickRandom\<close> draws from \<open>math/rand\<close>: the draw is the parameter \<open>intn\<close>, which Go documents
  to return a number in \<open>[0, n)\<close>.
\<close>

definition PickRandom :: "(nat \<Rightarrow> nat) \<Rightarrow> ba_ptr \<Rightarrow> ('e, int \<times> bool) res" where
  "PickRandom intn bA =
     (case bA of None \<Rightarrow> Ok (0, False)
      | Some b \<Rightarrow>
          res_bind (getTrueIndices b) (\<lambda>ix.
            if ix = [] then Ok (0, False)
            else if intn (length ix) < length ix then Ok (ix ! intn (length ix), True)
            else Panic ''index out of range''))"

definition Update_ba :: "ba_ptr \<Rightarrow> ba_ptr \<Rightarrow> ba_ptr" where
  "Update_ba bA ob =
     (case (bA, ob) of
        (Some a, Some b) \<Rightarrow> Some (a\<lparr>Elems := go_copy (Elems a) (Elems b)\<rparr>)
      | _ \<Rightarrow> bA)"

text \<open>\<open>Bytes\<close>: the little-endian bytes of the words, cut to \<open>(Bits+7)/8\<close> bytes.\<close>

definition le_bytes :: "64 word \<Rightarrow> bytes" where
  "le_bytes e = map (\<lambda>k. ucast (drop_bit (8 * k) e)) [0..<8]"

fun putWords :: "nat \<Rightarrow> 64 word list \<Rightarrow> bytes \<Rightarrow> ('e, bytes) res" where
  "putWords i [] bs = Ok bs"
| "putWords i (e # es) bs =
     (if i * 8 > length bs then Panic ''slice bounds out of range''
      else putWords (Suc i) es (take (i * 8) bs @ go_copy (drop (i * 8) bs) (le_bytes e)))"

definition Bytes :: "BitArray \<Rightarrow> ('e, bytes) res" where
  "Bytes bA = putWords 0 (Elems bA) (replicate (nat ((Bits bA + 7) sdiv 8)) 0)"

text \<open>
  The custom JSON form, a string of \<open>x\<close> and \<open>_\<close> between quotes; the regular expression
  \<open>\A"([_x]*)"\z\<close> is its recogniser. A nil array is built for zero bits, and the final copy
  \<open>*bA = *bA2\<close> then dereferences nil.
\<close>

definition quote :: char where "quote = CHR 0x22"

definition MarshalJSON :: "ba_ptr \<Rightarrow> ('e, string) res" where
  "MarshalJSON bA =
     (case bA of None \<Rightarrow> Ok ''null''
      | Some b \<Rightarrow>
          res_bind
            (res_fold (\<lambda>bits i. res_bind (getIndex b (int i))
                        (\<lambda>v. Ok (bits @ (if v then ''x'' else ''_''))))
               [quote] [0..<nat (Bits b)])
            (\<lambda>bits. Ok (bits @ [quote])))"

definition bitArrayJSONRegexp :: "string \<Rightarrow> string option" where
  "bitArrayJSONRegexp b =
     (if length b \<ge> 2 \<and> hd b = quote \<and> last b = quote \<and>
         list_all (\<lambda>c. c = CHR ''_'' \<or> c = CHR ''x'') (butlast (tl b))
      then Some (butlast (tl b)) else None)"

definition UnmarshalJSON :: "string \<Rightarrow> (ba_error, BitArray) res" where
  "UnmarshalJSON b =
     (if b = ''null'' then Ok \<lparr>Bits = 0, Elems = []\<rparr>
      else (case bitArrayJSONRegexp b of None \<Rightarrow> Err (ErrJSONFormat b)
            | Some bits \<Rightarrow>
                (let numBits = length bits
                 in res_bind
                      (res_fold (\<lambda>bA2 i. if bits ! i = CHR ''x''
                                   then res_bind (SetIndex bA2 (int i) True) (\<lambda>(bA2', _). Ok bA2')
                                   else Ok bA2)
                         (NewBitArray (int numBits)) [0..<numBits])
                      (\<lambda>bA2. case bA2 of None \<Rightarrow> Panic ''nil pointer dereference''
                              | Some b2 \<Rightarrow> Ok b2))))"

text \<open>The protobuf message has the same two fields; \<open>FromProto\<close> validates them.\<close>

record protoBitArray =
  pbBits :: int64
  pbElems :: "64 word list"

definition ToProto :: "ba_ptr \<Rightarrow> protoBitArray option" where
  "ToProto bA =
     (case bA of None \<Rightarrow> None
      | Some b \<Rightarrow>
          if length (Elems b) = 0 \<and> Bits b = 0 then None
          else (let bc = ba_copy b in Some \<lparr>pbBits = wrap64 (Bits bc), pbElems = Elems bc\<rparr>))"

definition FromProto :: "BitArray \<Rightarrow> protoBitArray option \<Rightarrow> (ba_error, BitArray) res" where
  "FromProto bA p =
     (case p of None \<Rightarrow> Ok bA
      | Some pb \<Rightarrow>
          if pbBits pb < 0 then Err ErrNegativeBits
          else if pbBits pb > MaxInt32 then Err ErrTooManyBits
          else if int (length (pbElems pb)) \<noteq> numElems (pbBits pb)
            then Err (ErrNumElems (int (length (pbElems pb))) (numElems (pbBits pb)))
          else Ok (bA\<lparr>Bits := pbBits pb,
                      Elems := go_copy (replicate (length (pbElems pb)) 0) (pbElems pb)\<rparr>))"

section \<open>Abstraction and invariant\<close>

definition wf_ba :: "BitArray \<Rightarrow> bool" where
  "wf_ba b \<longleftrightarrow> 0 \<le> Bits b \<and> int (length (Elems b)) = numElems (Bits b)"

definition ba_bit :: "BitArray \<Rightarrow> nat \<Rightarrow> bool" where
  "ba_bit b i = bit (Elems b ! (i div 64)) (i mod 64)"

definition bits_of :: "BitArray \<Rightarrow> bool list" where
  "bits_of b = map (ba_bit b) [0..<nat (Bits b)]"

definition clean :: "BitArray \<Rightarrow> bool" where
  "clean b \<longleftrightarrow> (\<forall>i. nat (Bits b) \<le> i \<longrightarrow> i < 64 * length (Elems b) \<longrightarrow> \<not> ba_bit b i)"

lemma and_mask_pos [simp]: "(e AND 2 ^ j > 0) \<longleftrightarrow> bit (e :: 64 word) j"
  using bit_iff_and_push_bit_not_eq_0 [of e j] by (simp add: word_greater_zero_iff)

lemma numElems_nat: "0 \<le> n \<Longrightarrow> numElems n = (n + 63) div 64"
  by (simp add: numElems_def sdiv_nonneg)

lemma bitMask_nonneg: "0 \<le> i \<Longrightarrow> bitMask i = 2 ^ (nat i mod 64)"
  by (simp add: bitMask_def Let_def smod_nonneg nat_mod_distrib)

lemma length_bits_of [simp]: "length (bits_of b) = nat (Bits b)"
  by (simp add: bits_of_def)

lemma nth_bits_of [simp]: "i < nat (Bits b) \<Longrightarrow> bits_of b ! i = ba_bit b i"
  by (simp add: bits_of_def)

lemma wf_length: "wf_ba b \<Longrightarrow> length (Elems b) = nat ((Bits b + 63) div 64)"
  by (auto simp: wf_ba_def numElems_nat)

lemma wf_index: "wf_ba b \<Longrightarrow> 0 \<le> i \<Longrightarrow> i < Bits b \<Longrightarrow> nat i div 64 < length (Elems b)"
  by (simp add: wf_length)

lemma sdiv64: "0 \<le> i \<Longrightarrow> i sdiv 64 = int (nat i div 64)"
  by (simp add: sdiv_nonneg zdiv_int)

lemma go_copy_replicate [simp]: "go_copy (replicate (length xs) a) xs = xs"
  by (simp add: go_copy_def)

lemma ba_copy_id [simp]: "ba_copy b = b"
  by (simp add: ba_copy_def)

lemma Copy_id [simp]: "Copy p = p"
  by (cases p) (simp_all add: Copy_def)

lemma getIndex_wf:
  assumes "wf_ba b" "0 \<le> i"
  shows "getIndex b i = Ok (i < Bits b \<and> ba_bit b (nat i))"
proof (cases "i < Bits b")
  case True
  with wf_index [OF assms True] assms(2) show ?thesis
    by (simp add: getIndex_def Let_def sdiv64 bitMask_nonneg ba_bit_def)
qed (simp add: getIndex_def)

section \<open>Reading and writing a bit\<close>

lemma setIndex_out: "Bits b \<le> i \<Longrightarrow> setIndex b i v = Ok (b, False)"
  by (simp add: setIndex_def)

text \<open>The write of a bit inside the array, as a function.\<close>

definition upd_bit :: "BitArray \<Rightarrow> nat \<Rightarrow> bool \<Rightarrow> BitArray" where
  "upd_bit b i v =
     (let e = Elems b ! (i div 64); m = 2 ^ (i mod 64)
      in b\<lparr>Elems := (Elems b)[i div 64 := if v then e OR m else e AND NOT m]\<rparr>)"

lemma setIndex_wf:
  assumes "wf_ba b" "0 \<le> i" "i < Bits b"
  shows "setIndex b i v = Ok (upd_bit b (nat i) v, True)"
  using wf_index [OF assms] assms
  by (simp add: setIndex_def upd_bit_def Let_def sdiv64 bitMask_nonneg)

lemma upd_bit_frame [simp]:
  "Bits (upd_bit b i v) = Bits b" "length (Elems (upd_bit b i v)) = length (Elems b)"
  "wf_ba (upd_bit b i v) = wf_ba b"
  by (simp_all add: upd_bit_def Let_def wf_ba_def)

lemma ba_bit_upd_bit:
  assumes "i div 64 < length (Elems b)"
  shows "ba_bit (upd_bit b i v) j = (if j = i then v else ba_bit b j)"
proof (cases "j div 64 = i div 64")
  case True
  have "j = i \<longleftrightarrow> j mod 64 = i mod 64" using True by (metis div_mult_mod_eq)
  with True assms show ?thesis
    by (auto simp: ba_bit_def upd_bit_def Let_def bit_simps)
next
  case False
  then show ?thesis by (auto simp: ba_bit_def upd_bit_def Let_def)
qed

lemma wf_bound: "wf_ba b \<Longrightarrow> j < nat (Bits b) \<Longrightarrow> j < 64 * length (Elems b)"
  by (simp add: wf_length)

lemma upd_bit_abs:
  assumes "wf_ba b" "i < nat (Bits b)"
  shows "bits_of (upd_bit b i v) = (bits_of b)[i := v]" "clean b \<Longrightarrow> clean (upd_bit b i v)"
proof -
  have i: "i div 64 < length (Elems b)" using wf_index [of b "int i"] assms by simp
  show "bits_of (upd_bit b i v) = (bits_of b)[i := v]"
    by (rule nth_equalityI) (auto simp: nth_list_update ba_bit_upd_bit [OF i])
  show "clean (upd_bit b i v)" if "clean b"
    using that assms by (auto simp: clean_def ba_bit_upd_bit [OF i])
qed

section \<open>The interface of a bit vector\<close>

text \<open>
  What the vote sets and the peer states rely on: a vector of fixed size that starts all false,
  and whose bits are read and written by index.
\<close>

locale bit_vector =
  fixes new :: "int \<Rightarrow> 'v"
    and size :: "'v \<Rightarrow> int"
    and get :: "'v \<Rightarrow> int \<Rightarrow> ('e, bool) res"
    and put :: "'v \<Rightarrow> int \<Rightarrow> bool \<Rightarrow> ('e, 'v \<times> bool) res"
    and list :: "'v \<Rightarrow> bool list"
    and invar :: "'v \<Rightarrow> bool"
  assumes invar_new: "invar (new n)"
    and list_new: "list (new n) = replicate (nat n) False"
    and size_list: "invar v \<Longrightarrow> size v = int (length (list v))"
    and get_list: "invar v \<Longrightarrow> 0 \<le> i \<Longrightarrow> get v i = Ok (i < size v \<and> list v ! nat i)"
    and put_in: "invar v \<Longrightarrow> 0 \<le> i \<Longrightarrow> i < size v \<Longrightarrow>
      \<exists>v'. put v i b = Ok (v', True) \<and> invar v' \<and> list v' = (list v)[nat i := b]"
    and put_out: "invar v \<Longrightarrow> size v \<le> i \<Longrightarrow> put v i b = Ok (v, False)"
begin

definition mark :: "'v \<Rightarrow> nat \<Rightarrow> ('e, 'v) res" where
  "mark v i = res_bind (put v (int i) True) (\<lambda>(v', _). Ok v')"

lemma put_get:
  assumes "invar v" "0 \<le> i" "i < size v" "0 \<le> j"
  shows "\<exists>v'. put v i b = Ok (v', True) \<and> invar v' \<and> size v' = size v \<and>
    get v' j = (if j = i then Ok b else get v j)"
proof -
  obtain v' where v': "put v i b = Ok (v', True)" "invar v'" "list v' = (list v)[nat i := b]"
    using put_in assms by blast
  then have "size v' = size v" using assms by (simp add: size_list)
  with v' assms show ?thesis by (auto simp: get_list size_list nth_list_update)
qed

lemma mark_all:
  assumes "invar v" "\<forall>i \<in> set is. i < length (list v)"
  shows "\<exists>v'. res_fold (\<lambda>v i. if P i then mark v i else Ok v) v is = Ok v' \<and> invar v' \<and>
    list v' = map (\<lambda>i. list v ! i \<or> (i \<in> set is \<and> P i)) [0..<length (list v)]"
  using assms
proof (induction "is" arbitrary: v)
  case Nil
  then show ?case by (simp add: map_nth)
next
  case (Cons i "is")
  obtain w where w: "(if P i then mark v i else Ok v) = Ok w" "invar w"
    "list w = (if P i then (list v)[i := True] else list v)"
  proof (cases "P i")
    case True
    obtain w where "put v (int i) True = Ok (w, True)" "invar w" "list w = (list v)[i := True]"
      using put_in [of v "int i" True] Cons.prems by (auto simp: size_list)
    with True show ?thesis by (intro that [of w]) (simp_all add: mark_def)
  next
    case False
    with Cons.prems show ?thesis by (intro that [of v]) simp_all
  qed
  have len: "length (list w) = length (list v)" using w(3) by simp
  with Cons.prems have "\<forall>i \<in> set is. i < length (list w)" by simp
  from Cons.IH [OF w(2) this]
  obtain v' where v': "res_fold (\<lambda>v i. if P i then mark v i else Ok v) w is = Ok v'" "invar v'"
    "list v' = map (\<lambda>i. list w ! i \<or> (i \<in> set is \<and> P i)) [0..<length (list w)]"
    by blast
  have "list v' = map (\<lambda>j. list v ! j \<or> (j \<in> set (i # is) \<and> P j)) [0..<length (list v)]"
    using Cons.prems(2)
    by (cases "P i"; intro nth_equalityI) (auto simp: v'(3) len w(3) nth_list_update)
  with v' w(1) show ?case by simp
qed

end

fun ptr_list :: "ba_ptr \<Rightarrow> bool list" where
  "ptr_list None = []"
| "ptr_list (Some b) = bits_of b"

fun ptr_wf :: "ba_ptr \<Rightarrow> bool" where
  "ptr_wf None = True"
| "ptr_wf (Some b) = (wf_ba b \<and> clean b)"

lemma ba_bit_new: "j < 64 * k \<Longrightarrow> \<not> ba_bit \<lparr>Bits = n, Elems = replicate k 0\<rparr> j"
  by (simp add: ba_bit_def)

lemma NewBitArray_wf: "ptr_wf (NewBitArray n)" "ptr_list (NewBitArray n) = replicate (nat n) False"
proof -
  show wf: "ptr_wf (NewBitArray n)"
    by (auto simp: NewBitArray_def wf_ba_def clean_def numElems_nat ba_bit_new)
  show "ptr_list (NewBitArray n) = replicate (nat n) False"
  proof (cases "n \<le> 0")
    case False
    let ?b = "\<lparr>Bits = n, Elems = replicate (nat (numElems n)) 0\<rparr> :: BitArray"
    have "wf_ba ?b" using False by (simp add: wf_ba_def numElems_nat)
    from wf_bound [OF this] have "\<not> ba_bit ?b j" if "j < nat n" for j
      using that by (intro ba_bit_new) simp
    then have "bits_of ?b = replicate (nat n) False" by (intro nth_equalityI) auto
    then show ?thesis using False by (simp add: NewBitArray_def)
  qed (simp add: NewBitArray_def)
qed

interpretation ba: bit_vector NewBitArray Size GetIndex SetIndex ptr_list ptr_wf
proof
  fix v :: ba_ptr and i :: int and b :: bool and n :: int
  show "ptr_wf (NewBitArray n)" "ptr_list (NewBitArray n) = replicate (nat n) False"
    by (rule NewBitArray_wf)+
  show "ptr_wf v \<Longrightarrow> Size v = int (length (ptr_list v))"
    by (cases v) (auto simp: Size_def wf_ba_def)
  show "ptr_wf v \<Longrightarrow> 0 \<le> i \<Longrightarrow> GetIndex v i = Ok (i < Size v \<and> ptr_list v ! nat i)"
    by (cases v) (auto simp: Size_def GetIndex_def getIndex_wf)
  show "ptr_wf v \<Longrightarrow> 0 \<le> i \<Longrightarrow> i < Size v \<Longrightarrow>
      \<exists>v'. SetIndex v i b = Ok (v', True) \<and> ptr_wf v' \<and> ptr_list v' = (ptr_list v)[nat i := b]"
    by (cases v) (auto simp: Size_def SetIndex_def setIndex_wf upd_bit_abs)
  show "ptr_wf v \<Longrightarrow> Size v \<le> i \<Longrightarrow> SetIndex v i b = Ok (v, False)"
    by (cases v) (auto simp: Size_def SetIndex_def setIndex_out)
qed

section \<open>Whole-array operations\<close>

lemma numElems_nonneg: "0 \<le> n \<Longrightarrow> 0 \<le> numElems n"
  by (simp add: numElems_nat pos_imp_zdiv_nonneg_iff)

lemma index_lt_numElems: "i < nat n \<Longrightarrow> i div 64 < nat (numElems n)"
proof -
  assume i: "i < nat n"
  define k where "k = nat n"
  with i have k: "n = int k" "i < k" by auto
  then have "numElems n = int ((k + 63) div 64)" by (simp add: numElems_nat zdiv_int)
  with k show ?thesis by simp
qed

lemma nth_zip_words:
  "p < length xs \<Longrightarrow> m \<le> length xs \<Longrightarrow> m \<le> length ys \<Longrightarrow>
    (map2 f (take m xs) (take m ys) @ drop m xs) ! p = (if p < m then f (xs ! p) (ys ! p) else xs ! p)"
  by (simp add: nth_append)

lemma length_le_numElems: "wf_ba a \<Longrightarrow> 0 \<le> n \<Longrightarrow> n \<le> Bits a \<Longrightarrow> nat (numElems n) \<le> length (Elems a)"
  by (simp add: wf_length numElems_nat zdiv_mono1 nat_mono)

lemma length_ge_numElems: "wf_ba a \<Longrightarrow> Bits a \<le> n \<Longrightarrow> length (Elems a) \<le> nat (numElems n)"
  by (simp add: wf_length numElems_nat zdiv_mono1 nat_mono wf_ba_def)

lemma copyBits_shrink:
  "wf_ba a \<Longrightarrow> 0 \<le> n \<Longrightarrow> n \<le> Bits a \<Longrightarrow>
    copyBits a n = \<lparr>Bits = n, Elems = take (nat (numElems n)) (Elems a)\<rparr>"
  using length_le_numElems [of a n] by (simp add: copyBits_def go_copy_def)

lemma copyBits_grow:
  "wf_ba a \<Longrightarrow> Bits a \<le> n \<Longrightarrow>
    copyBits a n = \<lparr>Bits = n,
      Elems = Elems a @ replicate (nat (numElems n) - length (Elems a)) 0\<rparr>"
  using length_ge_numElems [of a n] by (simp add: copyBits_def go_copy_def)

lemma wf_numElems: "wf_ba a \<Longrightarrow> nat (numElems (Bits a)) = length (Elems a)"
  by (auto simp: wf_ba_def)

lemma copyBits_self: "wf_ba a \<Longrightarrow> copyBits a (Bits a) = a"
  by (simp add: copyBits_shrink wf_numElems wf_ba_def)

lemma and_ba_wf:
  assumes "wf_ba a" "wf_ba b"
  defines "n \<equiv> min (Bits a) (Bits b)"
  shows "and_ba a b =
    Ok \<lparr>Bits = n, Elems = map2 (AND) (take (nat (numElems n)) (Elems a)) (take (nat (numElems n)) (Elems b))\<rparr>"
  using assms length_le_numElems [of a n] length_le_numElems [of b n]
  by (simp add: and_ba_def zip_words_def copyBits_shrink wf_ba_def Let_def min_absorb2)

lemma bits_of_and_ba:
  assumes "wf_ba a" "wf_ba b" "and_ba a b = Ok c"
  shows "bits_of c = map2 (\<and>) (bits_of a) (bits_of b)" "wf_ba c"
proof -
  let ?n = "min (Bits a) (Bits b)"
  have n: "0 \<le> ?n" using assms by (auto simp: wf_ba_def)
  note la = length_le_numElems [OF assms(1) n] and lb = length_le_numElems [OF assms(2) n]
  have c: "c = \<lparr>Bits = ?n, Elems = map2 (AND) (take (nat (numElems ?n)) (Elems a))
      (take (nat (numElems ?n)) (Elems b))\<rparr>"
    using assms by (simp add: and_ba_wf)
  show wf: "wf_ba c" using n la lb numElems_nonneg [OF n] by (simp add: c wf_ba_def min_absorb2)
  show "bits_of c = map2 (\<and>) (bits_of a) (bits_of b)"
  proof (rule nth_equalityI)
    fix i assume "i < length (bits_of c)"
    then have i: "i < nat ?n" by (simp add: c)
    then have "i < nat (Bits a)" "i < nat (Bits b)" by auto
    with index_lt_numElems [OF i] i la lb
    show "bits_of c ! i = map2 (\<and>) (bits_of a) (bits_of b) ! i"
      by (simp add: c) (simp add: ba_bit_def bit_simps)
  qed (simp add: c)
qed

lemma bits_of_not_ba:
  assumes "wf_ba a"
  shows "bits_of (not_ba a) = map Not (bits_of a)" "wf_ba (not_ba a)"
proof -
  show "wf_ba (not_ba a)" using assms by (simp add: not_ba_def Let_def wf_ba_def)
  have "bit (NOT e) (i mod 64) = (\<not> bit e (i mod 64))" for e :: "64 word" and i
    by (simp add: bit_not_iff)
  moreover have "i div 64 < length (Elems a)" if "i < nat (Bits a)" for i
    using wf_index [of a "int i"] that assms by simp
  ultimately show "bits_of (not_ba a) = map Not (bits_of a)"
    by (intro nth_equalityI) (auto simp: not_ba_def Let_def ba_bit_def)
qed

lemma Sub_ba_wf:
  assumes "wf_ba a" "wf_ba b"
  defines "m \<equiv> min (length (Elems a)) (length (Elems b))"
  shows "Sub_ba (Some a) (Some b) =
    Ok (Some (a\<lparr>Elems := map2 (\<lambda>x y. x AND NOT y) (take m (Elems a)) (take m (Elems b)) @ drop m (Elems a)\<rparr>))"
  using assms by (simp add: Sub_ba_def zip_words_def copyBits_self Let_def flip: of_nat_min)


text \<open>
  The bit that the words hold at an index, which may be one of the bits past \<open>Bits\<close> in the last word, and zero past
  the words. For an array with no bits past \<open>Bits\<close> this pads the array with zeroes.
\<close>

definition stored :: "BitArray \<Rightarrow> nat \<Rightarrow> bool" where
  "stored b i \<longleftrightarrow> i div 64 < length (Elems b) \<and> ba_bit b i"

lemma stored_bits:
  assumes "wf_ba b" "i < nat (Bits b)"
  shows "stored b i = bits_of b ! i"
  using assms wf_index [of b "int i"] by (simp add: stored_def)

lemma stored_past:
  assumes "wf_ba b" "nat (Bits b) \<le> i"
  shows "clean b \<Longrightarrow> \<not> stored b i"
proof -
  have "i < 64 * length (Elems b)" if "i div 64 < length (Elems b)" using that by auto
  with assms show "clean b \<Longrightarrow> \<not> stored b i" by (auto simp: stored_def clean_def)
qed

lemma bits_of_Sub_ba:
  assumes "wf_ba a" "wf_ba b" "Sub_ba (Some a) (Some b) = Ok (Some c)"
  shows "bits_of c = map (\<lambda>i. bits_of a ! i \<and> \<not> stored b i) [0..<nat (Bits a)]" "wf_ba c"
proof -
  let ?m = "min (length (Elems a)) (length (Elems b))"
  have c: "c = a\<lparr>Elems := map2 (\<lambda>x y. x AND NOT y) (take ?m (Elems a)) (take ?m (Elems b)) @ drop ?m (Elems a)\<rparr>"
    using assms by (simp add: Sub_ba_wf)
  show "wf_ba c" using assms(1) by (simp add: c wf_ba_def)
  show "bits_of c = map (\<lambda>i. bits_of a ! i \<and> \<not> stored b i) [0..<nat (Bits a)]"
  proof (rule nth_equalityI)
    fix i assume "i < length (bits_of c)"
    then have i: "i < nat (Bits a)" by (simp add: c)
    then have "i div 64 < length (Elems a)" using wf_index [of a "int i"] assms(1) by simp
    with i show "bits_of c ! i = map (\<lambda>i. bits_of a ! i \<and> \<not> stored b i) [0..<nat (Bits a)] ! i"
      by (simp add: c stored_def ba_bit_def nth_zip_words bit_simps)
  qed (simp add: c)
qed

lemma Or_ba_wf:
  assumes "wf_ba a" "wf_ba b"
  defines "n \<equiv> max (Bits a) (Bits b)"
    and "m \<equiv> min (length (Elems a)) (length (Elems b))"
  defines "ca \<equiv> Elems a @ replicate (nat (numElems n) - length (Elems a)) 0"
  shows "Or_ba (Some a) (Some b) =
    Ok (Some \<lparr>Bits = n, Elems = map2 (OR) (take m ca) (take m (Elems b)) @ drop m ca\<rparr>)"
  using assms by (simp add: Or_ba_def zip_words_def copyBits_grow Let_def flip: of_nat_min)

text \<open>
  What \<open>Or\<close> computes: the words of the second array beyond the words of the first are not read,
  although the result has room for them.
\<close>

lemma bits_of_Or_ba:
  assumes "wf_ba a" "wf_ba b" "Or_ba (Some a) (Some b) = Ok (Some c)"
  shows "Bits c = max (Bits a) (Bits b)"
    and "bits_of c = map (\<lambda>i. stored a i \<or> (stored b i \<and> i < 64 * length (Elems a)))
           [0..<nat (max (Bits a) (Bits b))]"
proof -
  let ?n = "max (Bits a) (Bits b)" and ?m = "min (length (Elems a)) (length (Elems b))"
  define ca where "ca = Elems a @ replicate (nat (numElems ?n) - length (Elems a)) 0"
  have c: "c = \<lparr>Bits = ?n, Elems = map2 (OR) (take ?m ca) (take ?m (Elems b)) @ drop ?m ca\<rparr>"
    using assms by (simp add: Or_ba_wf ca_def)
  show "Bits c = ?n" by (simp add: c)
  have len: "length ca = nat (numElems ?n)" "length (Elems a) \<le> length ca"
    using length_ge_numElems [OF assms(1), of ?n] by (simp_all add: ca_def)
  have nth_ca: "ca ! p = (if p < length (Elems a) then Elems a ! p else 0)" if "p < length ca" for p
    using that by (auto simp: ca_def nth_append)
  show "bits_of c = map (\<lambda>i. stored a i \<or> (stored b i \<and> i < 64 * length (Elems a))) [0..<nat ?n]"
  proof (rule nth_equalityI)
    fix i assume "i < length (bits_of c)"
    then have i: "i < nat ?n" by (simp add: c)
    note q = index_lt_numElems [OF i]
    have w: "i < 64 * length (Elems a) \<longleftrightarrow> i div 64 < length (Elems a)" by auto
    have "ba_bit c i = (i div 64 < length (Elems a) \<and> (ba_bit a i \<or>
        i div 64 < length (Elems b) \<and> ba_bit b i))"
      using nth_zip_words [of "i div 64" ca ?m "Elems b" "(OR)"] q len min.coboundedI1 [OF len(2)]
      by (simp add: c ba_bit_def nth_ca bit_simps)
    with i show "bits_of c ! i =
        map (\<lambda>i. stored a i \<or> (stored b i \<and> i < 64 * length (Elems a))) [0..<nat ?n] ! i"
      by (auto simp: \<open>Bits c = ?n\<close> stored_def w)
  qed (simp add: c)
qed


section \<open>Emptiness, fullness, the indices of the set bits\<close>

lemma word_zero_bits: "(e :: 64 word) = 0 \<longleftrightarrow> (\<forall>j < 64. \<not> bit e j)"
  by (auto simp: bit_word_eqI dest: bit_imp_le_length intro!: bit_word_eqI)

lemma int_ones_low: "take_bit k (x + 1 :: int) = 0 \<longleftrightarrow> (\<forall>j < k. bit x j)"
proof -
  have "take_bit k (x + 1) = take_bit k (- take_bit k (NOT x))"
    by (simp only: take_bit_minus not_eq_complement) (simp add: add.commute)
  then have "take_bit k (x + 1) = 0 \<longleftrightarrow> take_bit k (NOT x) = 0"
    by (metis add.inverse_inverse neg_equal_0_iff_equal take_bit_minus take_bit_of_0)
  also have "\<dots> \<longleftrightarrow> (\<forall>j < k. bit x j)"
    by (auto simp: bit_eq_iff bit_simps)
  finally show ?thesis .
qed

lemma word_ones_low:
  assumes "0 < k" "k \<le> 64"
  shows "((e :: 64 word) + 1) AND (push_bit k 1 - 1) = 0 \<longleftrightarrow> (\<forall>j < k. bit e j)"
proof -
  have "(e + 1) AND (push_bit k 1 - 1) = take_bit k (e + 1)"
    by (simp add: take_bit_eq_mask mask_eq_exp_minus_1)
  moreover have "uint (take_bit k (e + 1)) = take_bit k (uint e + 1)"
    using assms by (simp add: unsigned_take_bit_eq uint_word_arith_bintrs take_bit_take_bit min_def)
  ultimately have "(e + 1) AND (push_bit k 1 - 1) = 0 \<longleftrightarrow> take_bit k (uint e + 1) = 0"
    by (metis uint_0_iff)
  with assms show ?thesis by (simp add: int_ones_low bit_uint_iff)
qed

text \<open>All the bits of the words in a row; the array is a prefix of it.\<close>

definition word_bits :: "64 word \<Rightarrow> nat \<Rightarrow> bool list" where
  "word_bits e n = map (bit e) [0..<n]"

definition flat :: "64 word list \<Rightarrow> bool list" where
  "flat es = concat (map (\<lambda>e. word_bits e 64) es)"

lemma length_word_bits [simp]: "length (word_bits e n) = n"
  by (simp add: word_bits_def)

lemma flat_simps [simp]: "flat [] = []" "flat (e # es) = word_bits e 64 @ flat es"
  "flat (es @ fs) = flat es @ flat fs"
  by (simp_all add: flat_def)

lemma length_flat [simp]: "length (flat es) = 64 * length es"
  by (induction es) simp_all

lemma nth_flat: "i < 64 * length es \<Longrightarrow> flat es ! i = bit (es ! (i div 64)) (i mod 64)"
proof (induction es arbitrary: i)
  case (Cons e es)
  show ?case
  proof (cases "i < 64")
    case True
    then show ?thesis by (simp add: nth_append word_bits_def)
  next
    case False
    then have "i div 64 = Suc ((i - 64) div 64)" "i mod 64 = (i - 64) mod 64"
      by (simp_all add: le_div_geq le_mod_geq)
    with False Cons show ?thesis by (simp add: nth_append)
  qed
qed simp

lemma bits_of_flat: "wf_ba b \<Longrightarrow> bits_of b = take (nat (Bits b)) (flat (Elems b))"
  using wf_bound [of b] by (intro nth_equalityI) (auto simp: ba_bit_def nth_flat wf_length)

text \<open>The number of bits in the last word.\<close>

definition last_bits :: "BitArray \<Rightarrow> nat" where
  "last_bits b = nat ((Bits b + 63) mod 64) + 1"

lemma wf_last:
  assumes "wf_ba b" "0 < Bits b"
  shows "Elems b \<noteq> []" "Bits b = 64 * int (length (butlast (Elems b))) + int (last_bits b)"
    "0 < last_bits b" "last_bits b \<le> 64"
proof -
  have len: "int (length (Elems b)) = (Bits b + 63) div 64"
    using assms by (simp add: wf_ba_def numElems_nat)
  have pos: "1 \<le> (Bits b + 63) div 64" using assms by simp
  with len show ne: "Elems b \<noteq> []" by auto
  show "0 < last_bits b" "last_bits b \<le> 64" by (simp_all add: last_bits_def)
  from len pos have "int (length (butlast (Elems b))) = (Bits b + 63) div 64 - 1"
    by (simp add: of_nat_diff)
  then show "Bits b = 64 * int (length (butlast (Elems b))) + int (last_bits b)"
    by (simp add: last_bits_def)
qed

lemma bits_of_last:
  assumes "wf_ba b" "0 < Bits b"
  shows "bits_of b = flat (butlast (Elems b)) @ word_bits (last (Elems b)) (last_bits b)"
proof -
  note l = wf_last [OF assms]
  have "flat (Elems b) = flat (butlast (Elems b)) @ word_bits (last (Elems b)) 64"
    using l(1) by (metis append_butlast_last_id append_Nil2 flat_simps)
  moreover have "nat (Bits b) = 64 * length (butlast (Elems b)) + last_bits b"
    using l(2) by linarith
  moreover have "take (last_bits b) (word_bits e 64) = word_bits e (last_bits b)" for e
    using l(4) by (simp add: word_bits_def take_map)
  ultimately show ?thesis using assms by (simp add: bits_of_flat)
qed

lemma word_bits_zero: "(e = 0) \<longleftrightarrow> (\<forall>v \<in> set (word_bits e 64). \<not> v)"
  by (auto simp: word_bits_def word_zero_bits)

lemma all_zero_flat: "list_all (\<lambda>e. \<not> e > 0) es \<longleftrightarrow> (\<forall>v \<in> set (flat es). \<not> v)"
  by (induction es) (simp_all add: word_bits_zero [symmetric] word_greater_zero_iff ball_Un)

lemma IsEmpty_iff:
  assumes "wf_ba b" "clean b"
  shows "IsEmpty (Some b) \<longleftrightarrow> (\<forall>v \<in> set (bits_of b). \<not> v)"
proof -
  have "\<not> v" if v: "v \<in> set (drop (nat (Bits b)) (flat (Elems b)))" for v
  proof -
    from v obtain i where i: "i < length (drop (nat (Bits b)) (flat (Elems b)))"
      "drop (nat (Bits b)) (flat (Elems b)) ! i = v"
      unfolding in_set_conv_nth by blast
    from i(1) have "nat (Bits b) + i < 64 * length (Elems b)" by simp
    with i(2) assms show ?thesis by (auto simp: clean_def ba_bit_def nth_flat)
  qed
  moreover have "set (flat (Elems b)) = set (bits_of b) \<union> set (drop (nat (Bits b)) (flat (Elems b)))"
    by (metis append_take_drop_id assms(1) bits_of_flat set_append)
  ultimately show ?thesis by (auto simp: IsEmpty_def all_zero_flat)
qed

lemma word_ones: "NOT e = 0 \<longleftrightarrow> (\<forall>v \<in> set (word_bits e 64). v)"
  by (auto simp: word_bits_def word_zero_bits bit_simps)

lemma all_ones_flat: "list_ex (\<lambda>e. NOT e \<noteq> 0) es \<longleftrightarrow> \<not> (\<forall>v \<in> set (flat es). v)"
  by (induction es) (auto simp: word_ones)

lemma IsFull_iff:
  assumes "wf_ba b" "0 < Bits b"
  shows "IsFull (Some b) = Ok (\<forall>v \<in> set (bits_of b). v)"
proof -
  note l = wf_last [OF assms]
  have k: "(Bits b + 63) smod 64 + 1 = int (last_bits b)"
    using assms by (simp add: smod_nonneg last_bits_def)
  have "(last (Elems b) + 1) AND (push_bit (last_bits b) 1 - 1) = 0 \<longleftrightarrow>
      (\<forall>v \<in> set (word_bits (last (Elems b)) (last_bits b)). v)"
    using word_ones_low [OF l(3,4)] by (auto simp: word_bits_def)
  then show ?thesis
    using l(1) by (auto simp: IsFull_def Let_def k all_ones_flat bits_of_last [OF assms])
qed

definition true_idx :: "int \<Rightarrow> bool list \<Rightarrow> int list" where
  "true_idx c bs = map (\<lambda>j. c + int j) (filter (\<lambda>j. bs ! j) [0..<length bs])"

lemma true_idx_append: "true_idx c (xs @ ys) = true_idx c xs @ true_idx (c + int (length xs)) ys"
proof -
  have "[0..<length xs + length ys] = [0..<length xs] @ map (\<lambda>i. i + length xs) [0..<length ys]"
    unfolding map_add_upt add.commute [of "length ys"] by (rule upt_add_eq_append) simp
  moreover have "filter (\<lambda>j. (xs @ ys) ! j) [0..<length xs] = filter (\<lambda>j. xs ! j) [0..<length xs]"
    by (rule filter_cong) (simp_all add: nth_append)
  moreover have "(\<lambda>i. (xs @ ys) ! (i + length xs)) = (\<lambda>i. ys ! i)"
    by (simp add: nth_append)
  ultimately show ?thesis
    by (simp add: true_idx_def filter_map o_def algebra_simps)
qed

lemma wordIndices_eq: "wordIndices e n c = true_idx c (word_bits e n)"
  unfolding wordIndices_def true_idx_def word_bits_def
  by (rule arg_cong [where f = "map _"], rule filter_cong) simp_all

lemma trueIndicesLoop_eq:
  "trueIndicesLoop es c acc = (acc @ true_idx c (flat es), c + 64 * int (length es))"
proof (induction es arbitrary: c acc)
  case (Cons e es)
  have "true_idx c (word_bits 0 64) = []" by (simp add: true_idx_def word_bits_def filter_empty_conv)
  with Cons show ?case by (simp add: true_idx_append wordIndices_eq)
qed (simp add: true_idx_def)

lemma getTrueIndices_eq:
  assumes "wf_ba b" "0 < Bits b"
  shows "getTrueIndices b = Ok (true_idx 0 (bits_of b))"
proof -
  note l = wf_last [OF assms]
  show ?thesis using l
    by (simp add: getTrueIndices_def trueIndicesLoop_eq wordIndices_eq bits_of_last [OF assms] true_idx_append)
qed

lemma set_true_idx: "i \<in> set (true_idx 0 bs) \<longleftrightarrow> 0 \<le> i \<and> nat i < length bs \<and> bs ! nat i"
  by (auto simp: true_idx_def image_iff intro!: bexI [of _ "nat i"])

lemma sorted_true_idx: "sorted (true_idx c bs)" "distinct (true_idx c bs)"
  by (auto simp: true_idx_def sorted_map sorted_wrt_filter distinct_map inj_on_def)

section \<open>Encodings\<close>

definition json_char :: "bool \<Rightarrow> char" where
  "json_char v = (if v then CHR ''x'' else CHR ''_'')"

lemma json_char_simps [simp]: "json_char v = CHR ''x'' \<longleftrightarrow> v" "json_char v = CHR ''_'' \<longleftrightarrow> \<not> v"
  "(if v then ''x'' else ''_'') = [json_char v]"
  by (simp_all add: json_char_def)

lemma res_fold_snoc:
  assumes "\<And>i. i \<in> set xs \<Longrightarrow> g i = Ok (r i)"
  shows "res_fold (\<lambda>acc i. res_bind (g i) (\<lambda>v. Ok (acc @ [h v]))) acc xs = Ok (acc @ map (\<lambda>i. h (r i)) xs)"
  using assms by (induction xs arbitrary: acc) auto

lemma MarshalJSON_wf:
  assumes "wf_ba b"
  shows "(MarshalJSON (Some b) :: ('e, string) res) = Ok (quote # map json_char (bits_of b) @ [quote])"
proof -
  have "res_fold (\<lambda>acc i. res_bind (getIndex b (int i)) (\<lambda>v. Ok (acc @ [json_char v])))
      [quote] [0..<nat (Bits b)] = (Ok ([quote] @ map (\<lambda>i. json_char (ba_bit b i)) [0..<nat (Bits b)]) :: ('e, string) res)"
    using assms by (intro res_fold_snoc) (auto simp: getIndex_wf)
  then show ?thesis by (simp add: MarshalJSON_def bits_of_def o_def)
qed

lemma quote_neq_n: "quote \<noteq> CHR ''n''"
  by (simp add: quote_def)

lemma bitArrayJSONRegexp_quoted:
  "list_all (\<lambda>c. c = CHR ''_'' \<or> c = CHR ''x'') cs \<Longrightarrow>
    bitArrayJSONRegexp (quote # cs @ [quote]) = Some cs"
  by (simp add: bitArrayJSONRegexp_def)

lemma UnmarshalJSON_quoted:
  assumes "cs = map json_char bs" "bs \<noteq> []"
  shows "\<exists>b. UnmarshalJSON (quote # cs @ [quote]) = Ok b \<and> wf_ba b \<and> clean b \<and> bits_of b = bs"
proof -
  have "list_all (\<lambda>c. c = CHR ''_'' \<or> c = CHR ''x'') cs"
    using assms by (auto simp: list_all_iff json_char_def)
  note re = bitArrayJSONRegexp_quoted [OF this]
  let ?new = "NewBitArray (int (length cs))"
  have len: "length (ptr_list ?new) = length cs" by (simp add: NewBitArray_wf)
  obtain p where p: "res_fold (\<lambda>v i. if cs ! i = CHR ''x'' then ba.mark v i else Ok v) ?new [0..<length cs]
      = (Ok p :: (ba_error, ba_ptr) res)" "ptr_wf p"
    "ptr_list p = map (\<lambda>i. ptr_list ?new ! i \<or> (i \<in> set [0..<length cs] \<and> cs ! i = CHR ''x'')) [0..<length cs]"
    using ba.mark_all [of ?new "[0..<length cs]" "\<lambda>i. cs ! i = CHR ''x''"] len
    by (auto simp: NewBitArray_wf)
  have list_p: "ptr_list p = bs"
    by (rule nth_equalityI) (use assms in \<open>auto simp: p(3) NewBitArray_wf\<close>)
  with assms obtain b where b: "p = Some b" by (cases p) auto
  have "UnmarshalJSON (quote # cs @ [quote]) = Ok b"
    using p(1) [unfolded ba.mark_def] by (simp add: UnmarshalJSON_def re Let_def b quote_neq_n)
  with p(2) list_p show ?thesis by (simp add: b)
qed

lemma UnmarshalJSON_empty: "UnmarshalJSON [quote, quote] = Panic ''nil pointer dereference''"
  by (simp add: UnmarshalJSON_def bitArrayJSONRegexp_def NewBitArray_def quote_def)

lemma FromProto_ToProto:
  assumes "wf_ba b" "Bits b \<le> MaxInt32" "Bits b \<noteq> 0"
  shows "\<exists>p. ToProto (Some b) = Some p \<and> FromProto r (Some p) = Ok (r\<lparr>Bits := Bits b, Elems := Elems b\<rparr>)"
proof -
  have "wrap64 (Bits b) = Bits b"
    using assms by (intro wrap64_id) (auto simp: is_int64_def wf_ba_def int_limits)
  then show ?thesis using assms by (simp add: ToProto_def FromProto_def wf_ba_def Let_def)
qed

lemma FromProto_wf: "FromProto r (Some p) = Ok b \<Longrightarrow> wf_ba b \<and> Bits b \<le> MaxInt32"
  by (auto simp: FromProto_def wf_ba_def split: if_splits)

lemma length_true_idx: "length (true_idx c bs) = length bs \<longleftrightarrow> (\<forall>v \<in> set bs. v)"
proof -
  have "length (true_idx c bs) = length (filter (\<lambda>i. bs ! i) [0..<length bs])"
    by (simp add: true_idx_def)
  also have "\<dots> = length bs \<longleftrightarrow> (\<forall>i \<in> set [0..<length bs]. bs ! i)"
    by (metis filter_True length_filter_less diff_zero length_upt less_irrefl)
  finally show ?thesis by (auto simp: all_set_conv_all_nth)
qed

section \<open>Properties\<close>

text \<open>
  C31: read over write. On an array that satisfies the invariant, \<open>SetIndex\<close> at an index
  inside the array succeeds, keeps the invariant and the size, and a later \<open>GetIndex\<close> sees the
  new bit there and the old bit at every other index; no call panics.
\<close>

theorem SetIndex_GetIndex:
  assumes "ptr_wf v" "0 \<le> i" "i < Size v" "0 \<le> j"
  shows "\<exists>v'. SetIndex v i b = (Ok (v', True) :: (ba_error, _) res) \<and> ptr_wf v' \<and> Size v' = Size v \<and>
    GetIndex v' j = (if j = i then Ok b else GetIndex v j :: (ba_error, _) res)"
  using ba.put_get [OF assms] .

theorem SetIndex_GetIndex_witness:
  "\<exists>v'. SetIndex (NewBitArray 70) 65 True = (Ok (v', True) :: (ba_error, _) res) \<and>
     GetIndex v' 65 = (Ok True :: (ba_error, _) res)"
proof -
  have "ptr_wf (NewBitArray 70)" "65 < Size (NewBitArray 70)"
    by (simp_all only: NewBitArray_wf) (simp add: NewBitArray_def Size_def)
  from SetIndex_GetIndex [OF this(1) _ this(2), of 65] show ?thesis by auto
qed

text \<open>
  C32: The word-wise operations are the bit-wise ones on every array whose words match its size. \<open>And\<close> is the conjunction
  over the common prefix. \<open>Sub\<close> clears the bits that the words of the second array hold, and nothing past these words.
  \<open>Or\<close> has the size of the larger array and is the disjunction of what the words hold wherever the first array has a
  word; what the second array holds past these words is dropped. Bits past the size of an array that its last word
  holds, as \<open>Not\<close> and \<open>FromProto\<close> leave them, take part in \<open>Sub\<close> and \<open>Or\<close> as if they were in the array; an array without
  such bits counts as padded with zeroes.
\<close>

theorem bitwise_operations:
  assumes "wf_ba a" "wf_ba b"
  shows "(\<exists>c. And_ba (Some a) (Some b) = (Ok (Some c) :: (ba_error, _) res) \<and>
       bits_of c = map2 (\<and>) (bits_of a) (bits_of b)) \<and>
    (\<exists>c. Sub_ba (Some a) (Some b) = (Ok (Some c) :: (ba_error, _) res) \<and>
       bits_of c = map (\<lambda>i. bits_of a ! i \<and> \<not> stored b i) [0..<nat (Bits a)]) \<and>
    (\<exists>c. Or_ba (Some a) (Some b) = (Ok (Some c) :: (ba_error, _) res) \<and>
       bits_of c = map (\<lambda>i. stored a i \<or> (stored b i \<and> i < 64 * length (Elems a)))
         [0..<nat (max (Bits a) (Bits b))]) \<and>
    (\<forall>i. i < nat (Bits b) \<longrightarrow> stored b i = bits_of b ! i) \<and>
    (clean b \<longrightarrow> (\<forall>i. nat (Bits b) \<le> i \<longrightarrow> \<not> stored b i))"
proof -
  have "\<exists>c. and_ba a b = (Ok c :: (ba_error, _) res)"
    using and_ba_wf [OF assms(1,2), where 'a = ba_error] by blast
  then obtain c where "and_ba a b = (Ok c :: (ba_error, _) res)" by blast
  moreover have "\<exists>d. Sub_ba (Some a) (Some b) = (Ok (Some d) :: (ba_error, _) res)"
    using Sub_ba_wf [OF assms(1,2), where 'a = ba_error] by blast
  moreover have "\<exists>e. Or_ba (Some a) (Some b) = (Ok (Some e) :: (ba_error, _) res)"
    using Or_ba_wf [OF assms(1,2), where 'a = ba_error] by blast
  moreover note stored_bits [OF assms(2)] stored_past [OF assms(2)]
  ultimately show ?thesis
    using bits_of_and_ba(1) [OF assms(1,2)] bits_of_Sub_ba(1) [OF assms] bits_of_Or_ba(2) [OF assms]
    unfolding And_ba_def by (metis (no_types, lifting) case_prod_conv option.case(2) res_bind.simps(1))
qed

text \<open>
  The witness: the bits 0 and 1 set in three bits, and the complement of two bits of which the first is set. The complement
  holds bit 2 although it has two bits only, so that \<open>Or\<close> has this bit and \<open>Sub\<close> would clear it.
\<close>

theorem bitwise_operations_witness:
  "let a = \<lparr>Bits = 3, Elems = [3]\<rparr>; b = not_ba \<lparr>Bits = 2, Elems = [1]\<rparr> in bits_of a = [True, True, False] \<and> bits_of b = [False, True] \<and>
   (\<exists>c d e. And_ba (Some a) (Some b) = (Ok (Some c) :: (ba_error, _) res) \<and> bits_of c = [False, True] \<and>
     Sub_ba (Some a) (Some b) = (Ok (Some d) :: (ba_error, _) res) \<and> bits_of d = [True, False, False] \<and>
     Or_ba (Some a) (Some b) = (Ok (Some e) :: (ba_error, _) res) \<and> bits_of e = [True, True, True])"
proof -
  let ?a = "\<lparr>Bits = 3, Elems = [3]\<rparr>" and ?b = "not_ba \<lparr>Bits = 2, Elems = [1]\<rparr>"
  have wf: "wf_ba ?a" "wf_ba ?b" by code_simp+
  have "bits_of ?a = [True, True, False]" "bits_of ?b = [False, True]" by code_simp+
  moreover have "map2 (\<and>) (bits_of ?a) (bits_of ?b) = [False, True]"
    "map (\<lambda>i. bits_of ?a ! i \<and> \<not> stored ?b i) [0..<nat (Bits ?a)] = [True, False, False]"
    "map (\<lambda>i. stored ?a i \<or> (stored ?b i \<and> i < 64 * length (Elems ?a))) [0..<nat (max (Bits ?a) (Bits ?b))] = [True, True, True]"
    by code_simp+
  ultimately show ?thesis using bitwise_operations [OF wf] unfolding Let_def by auto
qed



text \<open>
  C34: JSON round trip. A non-empty array in the invariant is printed as one character per bit between quotes
  and parsed back to an array in the invariant with the same bits and no stray bit.
\<close>

theorem json_roundtrip:
  assumes "wf_ba b" "0 < Bits b"
  shows "\<exists>js b'. MarshalJSON (Some b) = (Ok js :: (ba_error, _) res) \<and> UnmarshalJSON js = Ok b' \<and>
    wf_ba b' \<and> clean b' \<and> Bits b' = Bits b \<and> bits_of b' = bits_of b"
proof -
  have ne: "bits_of b \<noteq> []" using assms by (simp flip: length_greater_0_conv)
  from UnmarshalJSON_quoted [OF refl ne] obtain b' where
    b': "UnmarshalJSON (quote # map json_char (bits_of b) @ [quote]) = Ok b'"
      "wf_ba b'" "clean b'" "bits_of b' = bits_of b" by blast
  have "Bits b' = Bits b"
    using arg_cong [OF b'(4), of length] assms b'(2) by (simp add: wf_ba_def)
  with b' MarshalJSON_wf [OF assms(1), where 'e = ba_error] show ?thesis by blast
qed

theorem json_roundtrip_witness:
  "\<exists>js b'. MarshalJSON (Some \<lparr>Bits = 3, Elems = [5]\<rparr>) = (Ok js :: (ba_error, _) res) \<and>
     UnmarshalJSON js = Ok b' \<and> Bits b' = 3"
proof -
  have "wf_ba \<lparr>Bits = 3, Elems = [5]\<rparr>" by (simp add: wf_ba_def numElems_def)
  from json_roundtrip [OF this] show ?thesis by auto
qed

end
