(* ===== verification/Merkle.thy ===== *)
theory Merkle
  imports BitArray
begin

text \<open>
  Merkle trees of \<open>crypto/merkle\<close>, after RFC 6962: \<open>tree.go\<close>, \<open>hash.go\<close> and \<open>proof.go\<close>.

  The hash \<open>tmhash.Sum\<close> (SHA-256) is the parameter \<open>H\<close> of every definition: the theorems
  hold for every function whose digests have 32 bytes, and what they need of it beyond that
  is injectivity on the finite set of byte strings that the two computations at hand feed it.
  A slice that the code tests against \<open>nil\<close> is a \<open>bytes option\<close>.
\<close>

type_synonym hash_fn = "bytes \<Rightarrow> bytes"

datatype merkle_error =
    ErrProofTotal | ErrProofIndex | ErrLeafHash bytes bytes | ErrRootHash bytes bytes
  | ErrLeafHashSize int | ErrMaxAunts int | ErrAuntSize nat int | ErrNilProof

definition tmhash_Size :: int where "tmhash_Size = 32"

section \<open>hash.go\<close>

definition leafPrefix :: bytes where "leafPrefix = [0]"
definition innerPrefix :: bytes where "innerPrefix = [1]"

definition emptyHash :: "hash_fn \<Rightarrow> bytes" where
  "emptyHash H = H []"

definition leafHash :: "hash_fn \<Rightarrow> bytes \<Rightarrow> bytes" where
  "leafHash H leaf = H (leafPrefix @ leaf)"

text \<open>
  The \<open>Opt\<close> variants write into a reused hasher: its state is what was written since the
  last \<open>Reset\<close>.
\<close>

definition hasher_Reset :: "bytes \<Rightarrow> bytes" where "hasher_Reset s = []"
definition hasher_Write :: "bytes \<Rightarrow> bytes \<Rightarrow> bytes" where "hasher_Write s p = s @ p"
definition hasher_Sum :: "hash_fn \<Rightarrow> bytes \<Rightarrow> bytes" where "hasher_Sum H s = H s"

definition leafHashOpt :: "hash_fn \<Rightarrow> bytes \<Rightarrow> bytes \<Rightarrow> bytes \<times> bytes" where
  "leafHashOpt H s leaf =
     (let s = hasher_Reset s; s = hasher_Write s leafPrefix; s = hasher_Write s leaf
      in (hasher_Sum H s, s))"

definition innerHash :: "hash_fn \<Rightarrow> bytes \<Rightarrow> bytes \<Rightarrow> bytes" where
  "innerHash H left right =
     (let data = replicate (length innerPrefix + length left + length right) 0;
          data = go_copy data innerPrefix;
          n = length innerPrefix;
          data = take n data @ go_copy (drop n data) left;
          n = n + length left;
          data = take n data @ go_copy (drop n data) right
      in H data)"

definition innerHashOpt :: "hash_fn \<Rightarrow> bytes \<Rightarrow> bytes \<Rightarrow> bytes \<Rightarrow> bytes \<times> bytes" where
  "innerHashOpt H s left right =
     (let s = hasher_Reset s; s = hasher_Write s innerPrefix;
          s = hasher_Write s left; s = hasher_Write s right
      in (hasher_Sum H s, s))"

section \<open>tree.go\<close>

text \<open>\<open>bits.Len\<close> of the standard library: the number of bits needed to write \<open>n\<close>.\<close>

fun bits_Len :: "nat \<Rightarrow> nat" where
  "bits_Len n = (if n = 0 then 0 else Suc (bits_Len (n div 2)))"

declare bits_Len.simps [simp del]

definition splitPoint :: "int64 \<Rightarrow> int64" where
  "splitPoint len =
     (let bitlen = bits_Len (nat len); k = 2 ^ (bitlen - 1)
      in if k = len then k div 2 else k)"

definition getSplitPoint :: "int64 \<Rightarrow> ('e, int64) res" where
  "getSplitPoint len =
     (if len < 1 then Panic ''Trying to split a tree with size < 1'' else Ok (splitPoint len))"

lemma bits_Len_bounds: "0 < n \<Longrightarrow> 0 < bits_Len n \<and> 2 ^ (bits_Len n - 1) \<le> n \<and> n < 2 ^ bits_Len n"
proof (induction n rule: bits_Len.induct)
  case (1 n)
  show ?case
  proof (cases "n div 2 = 0")
    case True
    then have "n = 1" using 1 by auto
    then show ?thesis by (simp add: bits_Len.simps)
  next
    case False
    with 1 have ih: "0 < bits_Len (n div 2)" "2 ^ (bits_Len (n div 2) - 1) \<le> n div 2" "n div 2 < 2 ^ bits_Len (n div 2)"
      by auto
    define b where "b = bits_Len (n div 2) - 1"
    have b: "bits_Len (n div 2) = Suc b" using ih(1) by (simp add: b_def)
    have "bits_Len n = Suc (Suc b)" using 1 b by (subst bits_Len.simps) simp
    moreover define p where "p = (2::nat) ^ b"
    ultimately show ?thesis using ih unfolding b by (simp flip: p_def) presburger
  qed
qed

text \<open>The split point is the largest power of two below the length.\<close>

lemma splitPoint_spec:
  assumes "2 \<le> n"
  obtains j where "splitPoint (int n) = 2 ^ j" "2 ^ j < n" "n \<le> 2 * 2 ^ j"
proof -
  define b where "b = bits_Len n - 1"
  have "bits_Len n = Suc b" "2 ^ b \<le> n" "n < 2 * 2 ^ b"
    using bits_Len_bounds [of n] assms by (auto simp: b_def simp flip: power_Suc)
  note b = this
  show ?thesis
  proof (cases "n = 2 ^ b")
    case True
    then obtain c where c: "b = Suc c" using assms by (cases b) auto
    have "splitPoint (int n) = 2 ^ c" by (simp add: splitPoint_def Let_def b(1)) (simp add: True c)
    with True c that [of c] show ?thesis by simp
  next
    case False
    then have "(2::int) ^ b \<noteq> int n" by (metis of_nat_eq_iff of_nat_numeral of_nat_power)
    then have "splitPoint (int n) = 2 ^ b" by (simp add: splitPoint_def Let_def b(1))
    with False b that [of b] show ?thesis by simp
  qed
qed

lemma splitPoint_bounds:
  assumes "2 \<le> n"
  shows "0 < splitPoint (int n) \<and> splitPoint (int n) < int n"
proof -
  from assms obtain j where j: "splitPoint (int n) = 2 ^ j" "2 ^ j < n" by (rule splitPoint_spec)
  from j(2) have "int (2 ^ j) < int n" by (simp only: of_nat_less_iff)
  with j(1) show ?thesis by simp
qed

lemma split_less:
  assumes "length items \<noteq> 0" "length items \<noteq> 1"
  shows "0 < nat (splitPoint (int (length items)))" "nat (splitPoint (int (length items))) < length items"
proof -
  have "2 \<le> length items" using assms by linarith
  from splitPoint_bounds [OF this]
  show "0 < nat (splitPoint (int (length items)))" "nat (splitPoint (int (length items))) < length items"
    by linarith+
qed

text \<open>
  The recursion on the two halves. The code calls \<open>getSplitPoint\<close> only with two or more
  items, where it does not panic.
\<close>

function hashFromByteSlices :: "hash_fn \<Rightarrow> bytes list \<Rightarrow> bytes" where
  "hashFromByteSlices H items =
     (if length items = 0 then emptyHash H
      else if length items = 1 then fst (leafHashOpt H [] (items ! 0))
      else (let k = nat (splitPoint (int (length items)));
                left = hashFromByteSlices H (take k items);
                right = hashFromByteSlices H (drop k items)
            in fst (innerHashOpt H [] left right)))"
  by auto

termination
  by (relation "measure (\<lambda>(H, items). length items)") (simp_all add: split_less [simplified])

declare hashFromByteSlices.simps [simp del]

definition HashFromByteSlices :: "hash_fn \<Rightarrow> bytes list \<Rightarrow> bytes" where
  "HashFromByteSlices H items = hashFromByteSlices H items"

text \<open>
  The iterative version overwrites the array: the pass over one level reads at \<open>rp\<close> and
  writes at \<open>wp\<close>, the outer loop runs until one hash is left.
\<close>

function iterPass :: "hash_fn \<Rightarrow> nat \<Rightarrow> bytes list \<Rightarrow> nat \<Rightarrow> nat \<Rightarrow> bytes list \<times> nat" where
  "iterPass H sz items rp wp =
     (if rp < sz
      then if rp + 1 < sz
           then iterPass H sz (items[wp := fst (innerHashOpt H [] (items ! rp) (items ! (rp + 1)))]) (rp + 2) (wp + 1)
           else iterPass H sz (items[wp := items ! rp]) (rp + 1) (wp + 1)
      else (items, wp))"
  by auto
termination by (relation "measure (\<lambda>(H, sz, items, rp, wp). sz - rp)") auto

declare iterPass.simps [simp del]

lemma iterPass_size:
  "wp \<le> rp \<Longrightarrow> rp \<le> sz \<Longrightarrow> snd (iterPass H sz items rp wp) = wp + (sz - rp + 1) div 2"
proof (induction H sz items rp wp rule: iterPass.induct)
  case (1 H sz items rp wp)
  show ?case
  proof (cases "rp + 1 < sz")
    case True
    with 1 show ?thesis by (subst iterPass.simps) auto
  next
    case False
    then have "rp = sz \<or> sz = rp + 1" using 1 by auto
    then show ?thesis using 1 by (subst iterPass.simps) (auto simp: iterPass.simps)
  qed
qed

function iterLoop :: "hash_fn \<Rightarrow> bytes list \<Rightarrow> nat \<Rightarrow> bytes" where
  "iterLoop H items sz =
     (if sz = 0 then emptyHash H
      else if sz = 1 then items ! 0
      else (let (items', wp) = iterPass H sz items 0 0 in iterLoop H items' wp))"
  by auto
termination
proof (relation "measure (\<lambda>(H, items, sz). sz)", goal_cases)
  case (2 H items sz p items' wp)
  then have "snd (iterPass H sz items 0 0) = wp" by (metis snd_conv)
  then have "wp = (sz + 1) div 2" using iterPass_size [of 0 0 sz H items] by simp
  with 2(1,2) show ?case by auto
qed simp

declare iterLoop.simps [simp del]

definition HashFromByteSlicesIterative :: "hash_fn \<Rightarrow> bytes list \<Rightarrow> bytes" where
  "HashFromByteSlicesIterative H input =
     (let items = map (leafHash H) input in iterLoop H items (length items))"

section \<open>proof.go\<close>

definition MaxAunts :: int where "MaxAunts = 100"

record Proof =
  Total :: int64
  Index :: int64
  LeafHash :: "bytes option"
  Aunts :: "bytes list"

text \<open>A slice that may be nil, read as its bytes.\<close>

definition go_bytes :: "bytes option \<Rightarrow> bytes" where
  "go_bytes s = (case s of None \<Rightarrow> [] | Some b \<Rightarrow> b)"

text \<open>
  \<open>computeHashFromAunts\<close> returns nil unless index, total and the number of aunts fit together.
  The \<open>panic\<close> for a zero total is behind the first test.
\<close>

function computeHashFromAunts :: "hash_fn \<Rightarrow> int64 \<Rightarrow> int64 \<Rightarrow> bytes option \<Rightarrow> bytes list \<Rightarrow> bytes option" where
  "computeHashFromAunts H index ttl lh innerHashes =
     (if index \<ge> ttl \<or> index < 0 \<or> ttl \<le> 0 then None
      else if ttl = 1 then (if length innerHashes \<noteq> 0 then None else lh)
      else if length innerHashes = 0 then None
      else (let numLeft = splitPoint ttl
            in if index < numLeft
               then (case computeHashFromAunts H index numLeft lh (butlast innerHashes) of
                       None \<Rightarrow> None
                     | Some leftHash \<Rightarrow> Some (innerHash H leftHash (last innerHashes)))
               else (case computeHashFromAunts H (index - numLeft) (ttl - numLeft) lh (butlast innerHashes) of
                       None \<Rightarrow> None
                     | Some rightHash \<Rightarrow> Some (innerHash H (last innerHashes) rightHash))))"
  by auto
termination by (relation "measure (\<lambda>(H, index, ttl, lh, innerHashes). length innerHashes)") auto

declare computeHashFromAunts.simps [simp del]

definition ComputeRootHash :: "hash_fn \<Rightarrow> Proof \<Rightarrow> bytes option" where
  "ComputeRootHash H sp = computeHashFromAunts H (Index sp) (Total sp) (LeafHash sp) (Aunts sp)"

definition Proof_Verify :: "hash_fn \<Rightarrow> Proof \<Rightarrow> bytes \<Rightarrow> bytes \<Rightarrow> (merkle_error, unit) res" where
  "Proof_Verify H sp rootHash leaf =
     (if Total sp < 0 then Err ErrProofTotal
      else if Index sp < 0 then Err ErrProofIndex
      else (let lh = leafHash H leaf
            in if go_bytes (LeafHash sp) \<noteq> lh then Err (ErrLeafHash lh (go_bytes (LeafHash sp)))
               else (let computedHash = go_bytes (ComputeRootHash H sp)
                     in if computedHash \<noteq> rootHash then Err (ErrRootHash rootHash computedHash)
                        else Ok ())))"

fun checkAunts :: "nat \<Rightarrow> bytes list \<Rightarrow> (merkle_error, unit) res" where
  "checkAunts i [] = Ok ()"
| "checkAunts i (a # as) =
     (if int (length a) \<noteq> tmhash_Size then Err (ErrAuntSize i (int (length a))) else checkAunts (Suc i) as)"

definition Proof_ValidateBasic :: "Proof \<Rightarrow> (merkle_error, unit) res" where
  "Proof_ValidateBasic sp =
     (if Total sp < 0 then Err ErrProofTotal
      else if Index sp < 0 then Err ErrProofIndex
      else if int (length (go_bytes (LeafHash sp))) \<noteq> tmhash_Size
        then Err (ErrLeafHashSize (int (length (go_bytes (LeafHash sp)))))
      else if int (length (Aunts sp)) > MaxAunts then Err (ErrMaxAunts (int (length (Aunts sp))))
      else checkAunts 0 (Aunts sp))"

text \<open>The protobuf message has the same four fields.\<close>

record protoProof =
  pbTotal :: int64
  pbIndex :: int64
  pbLeafHash :: "bytes option"
  pbAunts :: "bytes list"

definition Proof_ToProto :: "Proof option \<Rightarrow> protoProof option" where
  "Proof_ToProto sp =
     map_option (\<lambda>p. \<lparr>pbTotal = Total p, pbIndex = Index p, pbLeafHash = LeafHash p, pbAunts = Aunts p\<rparr>) sp"

definition ProofFromProto :: "protoProof option \<Rightarrow> (merkle_error, Proof) res" where
  "ProofFromProto pb =
     (case pb of None \<Rightarrow> Err ErrNilProof
      | Some p \<Rightarrow>
          (let sp = \<lparr>Total = pbTotal p, Index = pbIndex p, LeafHash = pbLeafHash p, Aunts = pbAunts p\<rparr>
           in res_bind (Proof_ValidateBasic sp) (\<lambda>_. Ok sp)))"

text \<open>
  The proof nodes are mutable and linked by pointers: a node is an index into the store of
  the nodes allocated so far. The recursive calls allocate the two subtrees, then the parent is
  allocated and the two roots are linked to it and to each other.
\<close>

record ProofNode =
  Hash :: bytes
  Parent :: "nat option"
  Left :: "nat option"
  Right :: "nat option"

type_synonym node_store = "ProofNode list"

definition new_node :: "bytes \<Rightarrow> ProofNode" where
  "new_node h = \<lparr>Hash = h, Parent = None, Left = None, Right = None\<rparr>"

function trailsFromByteSlices :: "hash_fn \<Rightarrow> node_store \<Rightarrow> bytes list \<Rightarrow> node_store \<times> nat list \<times> nat" where
  "trailsFromByteSlices H st items =
     (if length items = 0 then (st @ [new_node (emptyHash H)], [], length st)
      else if length items = 1 then (st @ [new_node (leafHash H (items ! 0))], [length st], length st)
      else (let k = nat (splitPoint (int (length items)));
                (st, lefts, leftRoot) = trailsFromByteSlices H st (take k items);
                (st, rights, rightRoot) = trailsFromByteSlices H st (drop k items);
                rootHash = innerHash H (Hash (st ! leftRoot)) (Hash (st ! rightRoot));
                root = length st;
                st = st @ [new_node rootHash];
                st = st[leftRoot := (st ! leftRoot)\<lparr>Parent := Some root\<rparr>];
                st = st[leftRoot := (st ! leftRoot)\<lparr>Right := Some rightRoot\<rparr>];
                st = st[rightRoot := (st ! rightRoot)\<lparr>Parent := Some root\<rparr>];
                st = st[rightRoot := (st ! rightRoot)\<lparr>Left := Some leftRoot\<rparr>]
            in (st, lefts @ rights, root)))"
  by auto
termination
  by (relation "measure (\<lambda>(H, st, items). length items)") (simp_all add: split_less [simplified])

declare trailsFromByteSlices.simps [simp del]

text \<open>
  The walk to the root follows \<open>Parent\<close> until nil; on a cyclic store it would not end, so it is
  a partial function whose \<open>None\<close> is not returning.
\<close>

partial_function (option) flattenLoop :: "node_store \<Rightarrow> nat option \<Rightarrow> bytes list \<Rightarrow> bytes list option" where
  "flattenLoop st spn innerHashes =
     (case spn of None \<Rightarrow> Some innerHashes
      | Some a \<Rightarrow>
          flattenLoop st (Parent (st ! a))
            (case Left (st ! a) of
               Some l \<Rightarrow> innerHashes @ [Hash (st ! l)]
             | None \<Rightarrow> (case Right (st ! a) of Some r \<Rightarrow> innerHashes @ [Hash (st ! r)] | None \<Rightarrow> innerHashes)))"

declare flattenLoop.simps [code]

definition FlattenAunts :: "node_store \<Rightarrow> nat \<Rightarrow> bytes list option" where
  "FlattenAunts st spn = flattenLoop st (Some spn) []"

definition ProofsFromByteSlices :: "hash_fn \<Rightarrow> bytes list \<Rightarrow> (bytes \<times> Proof list) option" where
  "ProofsFromByteSlices H items =
     (let (st, trails, root) = trailsFromByteSlices H [] items
      in map_option (\<lambda>proofs. (Hash (st ! root), proofs))
           (those (map (\<lambda>i. map_option
                (\<lambda>aunts. \<lparr>Total = int (length items), Index = int i,
                          LeafHash = Some (Hash (st ! (trails ! i))), Aunts = aunts\<rparr>)
                (FlattenAunts st (trails ! i))) [0..<length trails])))"

section \<open>Reference equations\<close>

lemma leafHash_eq: "leafHash H leaf = H (0 # leaf)"
  by (simp add: leafHash_def leafPrefix_def)

lemma innerHash_eq: "innerHash H l r = H (1 # l @ r)"
  by (simp add: innerHash_def innerPrefix_def go_copy_def Let_def)

lemma Opt_hashes [simp]:
  "fst (leafHashOpt H s leaf) = leafHash H leaf" "fst (innerHashOpt H s l r) = innerHash H l r"
  by (simp_all add: leafHashOpt_def innerHashOpt_def hasher_Reset_def hasher_Write_def hasher_Sum_def
      leafHash_eq innerHash_eq leafPrefix_def innerPrefix_def Let_def)

abbreviation cut :: "'a list \<Rightarrow> nat" where
  "cut items \<equiv> nat (splitPoint (int (length items)))"

lemma hash_nil [simp]: "hashFromByteSlices H [] = emptyHash H"
  and hash_single [simp]: "hashFromByteSlices H [x] = leafHash H x"
  by (simp_all add: hashFromByteSlices.simps)

lemma hash_split:
  "2 \<le> length items \<Longrightarrow> hashFromByteSlices H items =
     innerHash H (hashFromByteSlices H (take (cut items) items)) (hashFromByteSlices H (drop (cut items) items))"
  by (subst hashFromByteSlices.simps) (auto simp: Let_def)

lemma cut_bounds: "2 \<le> length items \<Longrightarrow> cut items < length items" "2 \<le> length items \<Longrightarrow> 0 < cut items"
  using splitPoint_bounds [of "length items"] by linarith+

text \<open>Induction along the split.\<close>

lemma split_induct [case_names Nil Single Split]:
  assumes "P []" "\<And>x. P [x]"
    and split: "\<And>items. 2 \<le> length items \<Longrightarrow> P (take (cut items) items) \<Longrightarrow> P (drop (cut items) items) \<Longrightarrow> P items"
  shows "P items"
proof (induction items rule: measure_induct_rule [of length])
  case (less items)
  consider "items = []" | x where "items = [x]" | "2 \<le> length items"
    by (cases items rule: remdups_adj.cases) auto
  then show ?case
  proof cases
    case 3
    with cut_bounds [of items] show ?thesis by (intro split [of items] less.IH [of "take _ _"] less.IH [of "drop _ _"]) auto
  qed (use assms in auto)
qed

section \<open>The iterative version\<close>

text \<open>One level of the tree, bottom up, and the tree over a list of hashes, top down.\<close>

fun pairUp :: "hash_fn \<Rightarrow> bytes list \<Rightarrow> bytes list" where
  "pairUp H (a # b # xs) = innerHash H a b # pairUp H xs"
| "pairUp H xs = xs"

function treeOf :: "hash_fn \<Rightarrow> bytes list \<Rightarrow> bytes" where
  "treeOf H xs =
     (if length xs < 2 then hd xs
      else innerHash H (treeOf H (take (cut xs) xs)) (treeOf H (drop (cut xs) xs)))"
  by auto
termination
  by (relation "measure (\<lambda>(H, xs). length xs)")
    (auto simp: not_less min_less_iff_disj cut_bounds intro: diff_less dest: cut_bounds)

declare treeOf.simps [simp del]

lemma hash_treeOf: "items \<noteq> [] \<Longrightarrow> hashFromByteSlices H items = treeOf H (map (leafHash H) items)"
proof (induction items rule: split_induct)
  case (Split items)
  have ne: "take (cut items) items \<noteq> []" "drop (cut items) items \<noteq> []"
    using cut_bounds [OF Split.hyps] Split.hyps by auto
  from Split.hyps Split.IH(1) [OF ne(1)] Split.IH(2) [OF ne(2)] show ?case
    by (subst treeOf.simps) (simp add: hash_split take_map drop_map)
qed (simp_all add: treeOf.simps)

lemma length_pairUp: "length (pairUp H xs) = (length xs + 1) div 2"
  by (induction H xs rule: pairUp.induct) auto

lemma pairUp_append: "even (length xs) \<Longrightarrow> pairUp H (xs @ ys) = pairUp H xs @ pairUp H ys"
  by (induction H xs rule: pairUp.induct) auto

lemma splitPoint_half:
  assumes "2 < n"
  obtains j where "splitPoint (int n) = 2 ^ Suc j" "splitPoint (int ((n + 1) div 2)) = 2 ^ j"
    "2 ^ Suc j < n"
proof -
  have "2 \<le> n" "2 \<le> (n + 1) div 2" using assms by auto
  from splitPoint_spec [OF this(1)] obtain i where i: "splitPoint (int n) = 2 ^ i" "2 ^ i < n" "n \<le> 2 * 2 ^ i" .
  from splitPoint_spec [OF \<open>2 \<le> (n + 1) div 2\<close>] obtain j where
    j: "splitPoint (int ((n + 1) div 2)) = 2 ^ j" "2 ^ j < (n + 1) div 2" "(n + 1) div 2 \<le> 2 * 2 ^ j" .
  have "2 ^ Suc j < n" "n \<le> 2 ^ Suc (Suc j)" using j(2,3) by auto
  with i(2,3) have p: "(2::nat) ^ i < 2 ^ Suc (Suc j)" "(2::nat) ^ Suc j < 2 ^ Suc i"
    by (simp_all only: power_Suc)
  have "i < Suc (Suc j)" "Suc j < Suc i"
    using power_less_imp_less_exp [OF _ p(1)] power_less_imp_less_exp [OF _ p(2)] by simp_all
  then have "i = Suc j" by simp
  with i j that show ?thesis by simp
qed

lemma treeOf_pairUp: "2 \<le> length xs \<Longrightarrow> treeOf H (pairUp H xs) = treeOf H xs"
proof (induction xs rule: split_induct)
  case (Split xs)
  show ?case
  proof (cases "length xs = 2")
    case True
    then obtain a b where "xs = [a, b]" by (auto simp: length_Suc_conv numeral_2_eq_2)
    moreover have "splitPoint 2 = 1" by code_simp
    ultimately show ?thesis by (simp add: treeOf.simps)
  next
    case False
    with Split.hyps have "2 < length xs" by simp
    then obtain j where j: "splitPoint (int (length xs)) = 2 ^ Suc j"
      "splitPoint (int ((length xs + 1) div 2)) = 2 ^ j" "2 ^ Suc j < length xs" by (rule splitPoint_half)
    define k :: nat where "k = 2 ^ j"
    have k: "cut xs = 2 * k" "cut (pairUp H xs) = k" "2 * k < length xs" "0 < k"
      using j by (simp_all add: k_def length_pairUp nat_mult_distrib nat_power_eq)
    let ?l = "take (2 * k) xs" and ?r = "drop (2 * k) xs"
    have len: "length ?l = 2 * k" using k by simp
    have "pairUp H xs = pairUp H ?l @ pairUp H ?r"
      using pairUp_append [of ?l H ?r] len by simp
    moreover have "length (pairUp H ?l) = k" using len by (simp add: length_pairUp)
    moreover have "treeOf H (pairUp H ?l) = treeOf H ?l" using Split.IH(1) len k by simp
    moreover have "treeOf H (pairUp H ?r) = treeOf H ?r"
    proof (cases "2 \<le> length ?r")
      case True
      then show ?thesis using Split.IH(2) k by simp
    next
      case False
      with k have "length ?r = 1" by auto
      then obtain a where "?r = [a]" by (cases ?r) auto
      then show ?thesis by simp
    qed
    moreover have "2 \<le> length (pairUp H xs)" using k by (simp add: length_pairUp)
    ultimately show ?thesis using k Split.hyps
      by (subst treeOf.simps, subst (2) treeOf.simps) simp
  qed
qed simp_all

text \<open>The pass in place computes the next level in the prefix of the array.\<close>

lemma iterPass_level:
  assumes "wp \<le> rp" "rp \<le> sz" "sz \<le> length items"
  shows "take (wp + (sz - rp + 1) div 2) (fst (iterPass H sz items rp wp)) =
     take wp items @ pairUp H (drop rp (take sz items)) \<and>
     length (fst (iterPass H sz items rp wp)) = length items"
  using assms
proof (induction H sz items rp wp rule: iterPass.induct)
  case (1 H sz items rp wp)
  consider "rp = sz" | "rp + 1 = sz" | "rp + 1 < sz" using 1 by linarith
  then show ?case
  proof cases
    case 1
    then show ?thesis by (simp add: iterPass.simps)
  next
    case 2
    then have "drop rp (take sz items) = [items ! rp]"
      using "1.prems" by (auto simp: take_Suc_conv_app_nth simp del: drop_take)
    moreover have "wp + (sz - rp + 1) div 2 = Suc wp" using 2 by auto
    ultimately show ?thesis using 2 "1.prems"
      by (subst (1 2) iterPass.simps) (simp add: iterPass.simps take_Suc_conv_app_nth)
  next
    case 3
    let ?items = "items[wp := innerHash H (items ! rp) (items ! (rp + 1))]"
    have "(sz - rp + 1) div 2 = Suc ((sz - (rp + 2) + 1) div 2)" using 3 by auto
    moreover have "drop rp (take sz items) = items ! rp # items ! Suc rp # drop (rp + 2) (take sz items)"
      using 3 "1.prems" Cons_nth_drop_Suc [of rp "take sz items"] Cons_nth_drop_Suc [of "Suc rp" "take sz items"]
      by simp
    moreover have "take (Suc wp) ?items = take wp items @ [innerHash H (items ! rp) (items ! (rp + 1))]"
      using 3 "1.prems" by (simp add: take_Suc_conv_app_nth)
    moreover have "drop (rp + 2) (take sz ?items) = drop (rp + 2) (take sz items)"
      using "1.prems" by (simp add: take_update_swap)
    moreover note "1.IH"(1) [OF _ 3]
    ultimately show ?thesis using 3 "1.prems" by (subst (1 2) iterPass.simps) simp
  qed
qed

lemma iterLoop_treeOf:
  "0 < sz \<Longrightarrow> sz \<le> length items \<Longrightarrow> iterLoop H items sz = treeOf H (take sz items)"
proof (induction H items sz rule: iterLoop.induct)
  case (1 H items sz)
  show ?case
  proof (cases "sz = 1")
    case True
    then show ?thesis using 1 by (cases items) (auto simp: iterLoop.simps treeOf.simps)
  next
    case False
    obtain items' wp where p: "iterPass H sz items 0 0 = (items', wp)" by fastforce
    have wp: "wp = (sz + 1) div 2" using iterPass_size [of 0 0 sz H items] p by simp
    have lv: "take wp items' = pairUp H (take sz items)" "length items' = length items"
      using iterPass_level [of 0 0 sz items H] "1.prems" p wp by simp_all
    have "iterLoop H items sz = iterLoop H items' wp"
      using False "1.prems" p by (subst iterLoop.simps) simp
    also have "\<dots> = treeOf H (take wp items')"
      using "1.IH" [OF _ False p [symmetric] refl] "1.prems" lv wp by simp
    finally show ?thesis using lv treeOf_pairUp [of "take sz items" H] False "1.prems" by simp
  qed
qed

lemma iterative_eq: "HashFromByteSlicesIterative H items = HashFromByteSlices H items"
proof (cases "items = []")
  case True
  then show ?thesis by (simp add: HashFromByteSlicesIterative_def HashFromByteSlices_def iterLoop.simps)
next
  case False
  then show ?thesis
    by (simp add: HashFromByteSlicesIterative_def HashFromByteSlices_def hash_treeOf iterLoop_treeOf)
qed

section \<open>The proof nodes\<close>

definition sibling :: "node_store \<Rightarrow> nat \<Rightarrow> bytes option" where
  "sibling st a = (case Left (st ! a) of
     Some l \<Rightarrow> Some (Hash (st ! l))
   | None \<Rightarrow> map_option (\<lambda>r. Hash (st ! r)) (Right (st ! a)))"

text \<open>
  \<open>walk lo st a as r\<close>: following the parents from node \<open>a\<close> leads to \<open>r\<close>, with the sibling hashes
  \<open>as\<close> on the way and only nodes from \<open>lo\<close> on visited.
\<close>

inductive walk :: "nat \<Rightarrow> node_store \<Rightarrow> nat \<Rightarrow> bytes list \<Rightarrow> nat \<Rightarrow> bool" for lo st where
  walk_end: "lo \<le> r \<Longrightarrow> r < length st \<Longrightarrow> walk lo st r [] r"
| walk_up: "lo \<le> a \<Longrightarrow> a < length st \<Longrightarrow> Parent (st ! a) = Some p \<Longrightarrow> sibling st a = Some h \<Longrightarrow>
    walk lo st p as r \<Longrightarrow> walk lo st a (h # as) r"

lemma walk_flatten: "walk lo st a as r \<Longrightarrow> flattenLoop st (Some a) acc = flattenLoop st (Some r) (acc @ as)"
proof (induction arbitrary: acc rule: walk.induct)
  case (walk_up a p h as r)
  then show ?case
    by (subst flattenLoop.simps) (auto simp: sibling_def split: option.splits)
qed simp

lemma walk_snoc:
  "walk lo st a as l \<Longrightarrow> lo \<le> r \<Longrightarrow> r < length st \<Longrightarrow> Parent (st ! l) = Some r \<Longrightarrow> sibling st l = Some h \<Longrightarrow>
    walk lo st a (as @ [h]) r"
  by (induction rule: walk.induct) (auto intro: walk.intros)

lemma walk_lt: "walk lo st a as r \<Longrightarrow> a < length st"
  by (erule walk.cases) auto

lemma walk_weaken: "walk lo st a as r \<Longrightarrow> lo' \<le> lo \<Longrightarrow> walk lo' st a as r"
  by (induction rule: walk.induct) (auto intro: walk.intros)

text \<open>
  A walk survives a change of the store that leaves alone the links of the nodes from \<open>lo\<close> on
  other than its end, and all hashes.
\<close>

lemma walk_frame:
  assumes "walk lo st a as r" "Parent (st ! r) = None" "length st \<le> length st'"
    and "\<And>b. lo \<le> b \<Longrightarrow> b < length st \<Longrightarrow> b \<noteq> r \<Longrightarrow>
      Parent (st' ! b) = Parent (st ! b) \<and> sibling st' b = sibling st b"
  shows "walk lo st' a as r"
  using assms
proof (induction rule: walk.induct)
  case (walk_up a p h as r)
  then have "a \<noteq> r" by auto
  with walk_up show ?case by (intro walk.walk_up) auto
qed (auto intro: walk.intros)

text \<open>The aunts of the i-th item, and what \<open>trailsFromByteSlices\<close> promises.\<close>

function auntsOf :: "hash_fn \<Rightarrow> bytes list \<Rightarrow> nat \<Rightarrow> bytes list" where
  "auntsOf H items i =
     (if length items < 2 then []
      else if i < cut items
        then auntsOf H (take (cut items) items) i @ [hashFromByteSlices H (drop (cut items) items)]
      else auntsOf H (drop (cut items) items) (i - cut items) @ [hashFromByteSlices H (take (cut items) items)])"
  by auto
termination
  by (relation "measure (\<lambda>(H, xs, i). length xs)")
    (auto simp: not_less min_less_iff_disj cut_bounds intro: diff_less dest: cut_bounds)

declare auntsOf.simps [simp del]

definition node_ok :: "nat \<Rightarrow> ProofNode \<Rightarrow> bool" where
  "node_ok n nd \<longleftrightarrow> pred_option (\<lambda>a. a < n) (Left nd) \<and> pred_option (\<lambda>a. a < n) (Right nd)"

definition links_in :: "node_store \<Rightarrow> bool" where
  "links_in st \<longleftrightarrow> list_all (node_ok (length st)) st"

lemma node_ok_mono: "node_ok n nd \<Longrightarrow> n \<le> m \<Longrightarrow> node_ok m nd"
  by (auto simp: node_ok_def elim!: option.pred_mono_strong)

lemma links_in_nth: "links_in st \<Longrightarrow> b < length st \<Longrightarrow> node_ok (length st) (st ! b)"
  by (simp add: links_in_def list_all_length)

definition trails_ok :: "hash_fn \<Rightarrow> node_store \<Rightarrow> bytes list \<Rightarrow> node_store \<Rightarrow> nat list \<Rightarrow> nat \<Rightarrow> bool" where
  "trails_ok H st items st' ts r \<longleftrightarrow>
     links_in st' \<and> length st \<le> r \<and> r < length st' \<and>
     (\<forall>b < length st. st' ! b = st ! b) \<and>
     st' ! r = new_node (hashFromByteSlices H items) \<and> length ts = length items \<and>
     (\<forall>i < length items. Hash (st' ! (ts ! i)) = leafHash H (items ! i) \<and>
        walk (length st) st' (ts ! i) (auntsOf H items i) r)"

text \<open>Linking two finished subtrees under a new root.\<close>

definition link :: "node_store \<Rightarrow> nat \<Rightarrow> nat \<Rightarrow> bytes \<Rightarrow> node_store" where
  "link st l r h =
     (st @ [new_node h])[l := (st ! l)\<lparr>Parent := Some (length st), Right := Some r\<rparr>,
                         r := (st ! r)\<lparr>Parent := Some (length st), Left := Some l\<rparr>]"

lemma trails_split:
  assumes "2 \<le> length items"
    and "trailsFromByteSlices H st (take (cut items) items) = (st1, lefts, l)"
    and "trailsFromByteSlices H st1 (drop (cut items) items) = (st2, rights, r)"
    and "l < length st2" "r < length st2" "l \<noteq> r"
  shows "trailsFromByteSlices H st items =
    (link st2 l r (innerHash H (Hash (st2 ! l)) (Hash (st2 ! r))), lefts @ rights, length st2)"
  using assms
  by (subst trailsFromByteSlices.simps) (auto simp: Let_def link_def nth_append list_update_swap)

lemma link_simps:
  assumes "l < length st" "r < length st" "l \<noteq> r"
  shows "length (link st l r h) = Suc (length st)" "link st l r h ! length st = new_node h"
    "link st l r h ! l = (st ! l)\<lparr>Parent := Some (length st), Right := Some r\<rparr>"
    "link st l r h ! r = (st ! r)\<lparr>Parent := Some (length st), Left := Some l\<rparr>"
    "b < length st \<Longrightarrow> b \<noteq> l \<Longrightarrow> b \<noteq> r \<Longrightarrow> link st l r h ! b = st ! b"
    "b < length st \<Longrightarrow> Hash (link st l r h ! b) = Hash (st ! b)"
  using assms by (auto simp: link_def nth_append nth_list_update)

lemma sibling_cong:
  assumes "st' ! b = st ! b" "links_in st" "b < length st"
    and "\<And>c. c < length st \<Longrightarrow> Hash (st' ! c) = Hash (st ! c)"
  shows "sibling st' b = sibling st b"
proof -
  have "node_ok (length st) (st ! b)" using assms(2,3) by (rule links_in_nth)
  then show ?thesis
    unfolding sibling_def assms(1)
    by (cases "Left (st ! b)"; cases "Right (st ! b)") (auto simp: node_ok_def intro: assms(4))
qed

lemma link_sibling:
  assumes "l < length st" "r < length st" "l \<noteq> r" "links_in st" "b < length st" "b \<noteq> l" "b \<noteq> r"
  shows "sibling (link st l r h) b = sibling st b"
  using link_simps(5) [OF assms(1-3,5-7)] assms(4,5) link_simps(6) [OF assms(1-3)]
  by (rule sibling_cong)

lemma links_in_link:
  assumes "l < length st" "r < length st" "l \<noteq> r" "links_in st"
  shows "links_in (link st l r h)"
  unfolding links_in_def list_all_length
proof (intro allI impI)
  fix b assume b: "b < length (link st l r h)"
  then consider "b = length st" | "b < length st" using assms by (auto simp: link_simps less_Suc_eq)
  then show "node_ok (length (link st l r h)) (link st l r h ! b)"
  proof cases
    case 1
    then show ?thesis using assms by (simp add: link_simps node_ok_def new_node_def)
  next
    case 2
    then have "node_ok (Suc (length st)) (st ! b)"
      using links_in_nth [OF assms(4)] node_ok_mono by (metis le_SucI order_refl)
    with 2 assms show ?thesis
      by (cases "b = l"; cases "b = r") (auto simp: link_simps node_ok_def)
  qed
qed

lemma trails_ok_join:
  assumes two: "2 \<le> length items"
    and l: "trails_ok H st (take (cut items) items) st1 lefts l"
    and r: "trails_ok H st1 (drop (cut items) items) st2 rights r"
  shows "trails_ok H st items (link st2 l r (innerHash H (Hash (st2 ! l)) (Hash (st2 ! r)))) (lefts @ rights) (length st2)"
proof -
  let ?k = "cut items" and ?st = "link st2 l r (innerHash H (Hash (st2 ! l)) (Hash (st2 ! r)))"
  note k = cut_bounds [OF two]
  from l r have in2: "l < length st2" "r < length st2" "l \<noteq> r" "length st1 \<le> length st2"
    "links_in st2" "l < length st1" "length st \<le> length st1"
    by (auto simp: trails_ok_def)
  note ls = link_simps [OF in2(1,2,3)]
  have roots: "st2 ! l = new_node (hashFromByteSlices H (take ?k items))"
    "st2 ! r = new_node (hashFromByteSlices H (drop ?k items))"
    using l r by (auto simp: trails_ok_def)
  have up: "Parent (?st ! l) = Some (length st2)" "Parent (?st ! r) = Some (length st2)"
    "sibling ?st l = Some (hashFromByteSlices H (drop ?k items))"
    "sibling ?st r = Some (hashFromByteSlices H (take ?k items))"
    using roots in2 by (auto simp: ls sibling_def new_node_def)
  have old1: "st2 ! b = st1 ! b" if "b < length st1" for b using r that by (auto simp: trails_ok_def)
  have sib1: "sibling st2 b = sibling st1 b" if "b < length st1" for b
    using l that old1 by (intro sibling_cong) (auto simp: trails_ok_def)
  have wl: "walk (length st) ?st (lefts ! i) (auntsOf H items i) (length st2)" if "i < ?k" for i
  proof -
    have "walk (length st) st1 (lefts ! i) (auntsOf H (take ?k items) i) l" "Parent (st1 ! l) = None"
      using l that k by (auto simp: trails_ok_def new_node_def)
    then have "walk (length st) ?st (lefts ! i) (auntsOf H (take ?k items) i) l"
    proof (rule walk_frame)
      fix b assume b: "length st \<le> b" "b < length st1" "b \<noteq> l"
      moreover have "b \<noteq> r" using b r by (auto simp: trails_ok_def)
      ultimately show "Parent (?st ! b) = Parent (st1 ! b) \<and> sibling ?st b = sibling st1 b"
        using in2 by (simp add: ls link_sibling old1 sib1)
    qed (use in2 ls in simp)
    from walk_snoc [OF this _ _ up(1,3)] show ?thesis
      using in2 that two by (subst auntsOf.simps) (simp add: ls)
  qed
  have wr: "walk (length st) ?st (rights ! (i - ?k)) (auntsOf H items i) (length st2)"
    if "?k \<le> i" "i < length items" for i
  proof -
    have "walk (length st1) st2 (rights ! (i - ?k)) (auntsOf H (drop ?k items) (i - ?k)) r" "Parent (st2 ! r) = None"
      using r that k by (auto simp: trails_ok_def new_node_def)
    then have "walk (length st1) ?st (rights ! (i - ?k)) (auntsOf H (drop ?k items) (i - ?k)) r"
    proof (rule walk_frame)
      fix b assume b: "length st1 \<le> b" "b < length st2" "b \<noteq> r"
      moreover have "b \<noteq> l" using b in2 by auto
      ultimately show "Parent (?st ! b) = Parent (st2 ! b) \<and> sibling ?st b = sibling st2 b"
        using in2 by (simp add: ls link_sibling)
    qed (use in2 ls in simp)
    from walk_snoc [OF walk_weaken [OF this in2(7)] _ _ up(2,4)] show ?thesis
      using in2 that two by (subst auntsOf.simps) (simp add: ls)
  qed
  have lens: "length lefts = ?k" "length rights = length items - ?k"
    using l r k by (auto simp: trails_ok_def)
  have leaf: "Hash (?st ! ((lefts @ rights) ! i)) = leafHash H (items ! i)" if i: "i < length items" for i
  proof (cases "i < ?k")
    case True
    then have "Hash (st1 ! (lefts ! i)) = leafHash H (items ! i)" "lefts ! i < length st1"
      using l k walk_lt [of "length st" st1 "lefts ! i"] by (auto simp: trails_ok_def)
    then show ?thesis using True in2 lens by (simp add: ls nth_append old1)
  next
    case False
    then have w: "Hash (st2 ! (rights ! (i - ?k))) = leafHash H (items ! i)"
      "walk (length st1) st2 (rights ! (i - ?k)) (auntsOf H (drop ?k items) (i - ?k)) r"
      using r k i by (auto simp: trails_ok_def)
    from walk_lt [OF w(2)] w(1) show ?thesis using False in2 lens by (simp add: ls nth_append)
  qed
  have frame: "?st ! b = st ! b" if "b < length st" for b
  proof -
    have "b \<noteq> l" "b \<noteq> r" "b < length st1" using l r that by (auto simp: trails_ok_def)
    then show ?thesis using that l in2 by (simp add: ls old1 trails_ok_def)
  qed
  show ?thesis
    unfolding trails_ok_def
    using in2 two k lens leaf frame wl wr roots
    by (auto simp: ls links_in_link nth_append hash_split new_node_def not_less)
qed

lemma links_in_snoc: "links_in st \<Longrightarrow> links_in (st @ [new_node h])"
  by (auto simp: links_in_def list_all_iff node_ok_def new_node_def elim!: option.pred_mono_strong ballE)

lemma trails_correct:
  "\<exists>st' ts r. trailsFromByteSlices H st items = (st', ts, r) \<and> (links_in st \<longrightarrow> trails_ok H st items st' ts r)"
proof (induction items arbitrary: st rule: split_induct)
  case (Split items)
  obtain st1 lefts l where l: "trailsFromByteSlices H st (take (cut items) items) = (st1, lefts, l)"
    by (metis prod_cases3)
  obtain st2 rights r where r: "trailsFromByteSlices H st1 (drop (cut items) items) = (st2, rights, r)"
    by (metis prod_cases3)
  show ?case
  proof (cases "links_in st")
    case True
    with Split.IH(1) [of st] l have lok: "trails_ok H st (take (cut items) items) st1 lefts l" by auto
    then have "links_in st1" by (simp add: trails_ok_def)
    with Split.IH(2) [of st1] r have rok: "trails_ok H st1 (drop (cut items) items) st2 rights r" by auto
    have "l < length st2" "r < length st2" "l \<noteq> r" using lok rok by (auto simp: trails_ok_def)
    from trails_split [OF Split.hyps l r this] trails_ok_join [OF Split.hyps lok rok]
    show ?thesis by simp
  qed (metis prod_cases3)
qed (auto simp: trailsFromByteSlices.simps trails_ok_def nth_append auntsOf.simps links_in_snoc [unfolded new_node_def] new_node_def
    intro!: walk.intros)

section \<open>Proofs verify\<close>

lemma compute_split:
  assumes "2 \<le> n" "splitPoint (int n) = int k" "k < n" "i < n"
  shows "computeHashFromAunts H (int i) (int n) lh (as @ [a]) =
    (if i < k
     then map_option (\<lambda>h. innerHash H h a) (computeHashFromAunts H (int i) (int k) lh as)
     else map_option (\<lambda>h. innerHash H a h) (computeHashFromAunts H (int (i - k)) (int (n - k)) lh as))"
  using assms by (subst computeHashFromAunts.simps) (simp add: Let_def map_option_case of_nat_diff split: option.split)

lemma splitPoint_cut: "2 \<le> length items \<Longrightarrow> splitPoint (int (length items)) = int (cut items)"
  using splitPoint_bounds [of "length items"] by simp

lemma compute_auntsOf:
  "i < length items \<Longrightarrow> computeHashFromAunts H (int i) (int (length items)) (Some (leafHash H (items ! i))) (auntsOf H items i)
     = Some (hashFromByteSlices H items)"
proof (induction items arbitrary: i rule: split_induct)
  case (Split items)
  define k l r where k: "k = cut items" and l: "l = take k items" and r: "r = drop k items"
  have kn: "k < length items" and sp: "splitPoint (int (length items)) = int k"
    using cut_bounds [OF Split.hyps] splitPoint_cut [OF Split.hyps] by (simp_all only: k)
  have len: "length l = k" "length r = length items - k" using kn by (simp_all add: l r)
  note split = compute_split [OF Split.hyps sp kn Split.prems]
  have aunts: "auntsOf H items i = (if i < k then auntsOf H l i @ [hashFromByteSlices H r]
      else auntsOf H r (i - k) @ [hashFromByteSlices H l])"
    using Split.hyps unfolding l r k by (subst auntsOf.simps) simp
  have root: "hashFromByteSlices H items = innerHash H (hashFromByteSlices H l) (hashFromByteSlices H r)"
    unfolding l r k by (rule hash_split [OF Split.hyps])
  show ?case
  proof (cases "i < k")
    case True
    with Split.IH(1) [folded k l, of i] show ?thesis by (simp add: aunts split root len) (simp add: l)
  next
    case False
    with Split.IH(2) [folded k r, of "i - k"] Split.prems show ?thesis
      by (simp add: aunts split root len) (simp add: r)
  qed
qed (simp_all add: computeHashFromAunts.simps auntsOf.simps)

lemma flatten_trails:
  assumes "trails_ok H st items st' ts r" "i < length items"
  shows "FlattenAunts st' (ts ! i) = Some (auntsOf H items i)"
proof -
  have "flattenLoop st' (Some (ts ! i)) [] = flattenLoop st' (Some r) (auntsOf H items i)"
    using assms walk_flatten [of "length st" st' "ts ! i" _ r "[]"] by (simp add: trails_ok_def)
  also have "\<dots> = Some (auntsOf H items i)"
    using assms by (simp add: trails_ok_def new_node_def flattenLoop.simps)
  finally show ?thesis by (simp add: FlattenAunts_def)
qed

definition proofOf :: "hash_fn \<Rightarrow> bytes list \<Rightarrow> nat \<Rightarrow> Proof" where
  "proofOf H items i = \<lparr>Total = int (length items), Index = int i,
     LeafHash = Some (leafHash H (items ! i)), Aunts = auntsOf H items i\<rparr>"

lemma those_map_Some: "(\<And>x. x \<in> set xs \<Longrightarrow> f x = Some (g x)) \<Longrightarrow> those (map f xs) = Some (map g xs)"
  by (induction xs) auto

lemma ProofsFromByteSlices_eq:
  "ProofsFromByteSlices H items = Some (HashFromByteSlices H items, map (proofOf H items) [0..<length items])"
proof -
  obtain st' ts r where t: "trailsFromByteSlices H [] items = (st', ts, r)" "trails_ok H [] items st' ts r"
    using trails_correct [of H "[]" items] by (auto simp: links_in_def)
  then have "length ts = length items" "Hash (st' ! r) = HashFromByteSlices H items"
    by (auto simp: trails_ok_def new_node_def HashFromByteSlices_def)
  moreover have "those (map (\<lambda>i. map_option
                (\<lambda>aunts. \<lparr>Total = int (length items), Index = int i,
                          LeafHash = Some (Hash (st' ! (ts ! i))), Aunts = aunts\<rparr>)
                (FlattenAunts st' (ts ! i))) [0..<length items]) = Some (map (proofOf H items) [0..<length items])"
    using t(2) [unfolded trails_ok_def]
    by (intro those_map_Some) (auto simp: flatten_trails [OF t(2)] proofOf_def)
  ultimately show ?thesis using t(1) by (simp add: ProofsFromByteSlices_def)
qed

lemma Verify_proofOf:
  "i < length items \<Longrightarrow> Proof_Verify H (proofOf H items i) (HashFromByteSlices H items) (items ! i) = Ok ()"
  by (simp add: Proof_Verify_def proofOf_def Let_def go_bytes_def ComputeRootHash_def compute_auntsOf HashFromByteSlices_def)

section \<open>Soundness\<close>

text \<open>The byte strings that hashing a tree, and recomputing a root from aunts, feed to the hash.\<close>

function treeInputs :: "hash_fn \<Rightarrow> bytes list \<Rightarrow> bytes list" where
  "treeInputs H items =
     (if items = [] then [[]]
      else if length items = 1 then [0 # items ! 0]
      else (1 # hashFromByteSlices H (take (cut items) items) @ hashFromByteSlices H (drop (cut items) items)) #
           treeInputs H (take (cut items) items) @ treeInputs H (drop (cut items) items))"
  by auto
termination
  by (relation "measure (\<lambda>(H, items). length items)") (simp_all add: split_less [simplified])

declare treeInputs.simps [simp del]

function auntInputs :: "hash_fn \<Rightarrow> int64 \<Rightarrow> int64 \<Rightarrow> bytes option \<Rightarrow> bytes list \<Rightarrow> bytes list" where
  "auntInputs H index ttl lh as =
     (if index \<ge> ttl \<or> index < 0 \<or> ttl \<le> 1 \<or> as = [] then []
      else let k = splitPoint ttl in
        if index < k
        then (1 # go_bytes (computeHashFromAunts H index k lh (butlast as)) @ last as) # auntInputs H index k lh (butlast as)
        else (1 # last as @ go_bytes (computeHashFromAunts H (index - k) (ttl - k) lh (butlast as))) #
          auntInputs H (index - k) (ttl - k) lh (butlast as))"
  by auto
termination by (relation "measure (\<lambda>(H, index, ttl, lh, as). length as)") auto

declare auntInputs.simps [simp del]

definition hashedBytes :: "hash_fn \<Rightarrow> bytes list \<Rightarrow> Proof \<Rightarrow> bytes \<Rightarrow> bytes set" where
  "hashedBytes H items sp leaf =
     set (treeInputs H items) \<union> set (auntInputs H (Index sp) (Total sp) (LeafHash sp) (Aunts sp)) \<union> {0 # leaf}"

definition hash32 :: "hash_fn \<Rightarrow> bool" where
  "hash32 H \<longleftrightarrow> (\<forall>x. length (H x) = 32)"

lemma hash_input:
  obtains x where "x \<in> set (treeInputs H items)" "hashFromByteSlices H items = H x"
    "x = [] \<longleftrightarrow> items = []" "\<And>y. x = 0 # y \<Longrightarrow> items = [y]"
    "\<And>y. x = 1 # y \<Longrightarrow> 2 \<le> length items \<and>
       y = hashFromByteSlices H (take (cut items) items) @ hashFromByteSlices H (drop (cut items) items)"
proof -
  consider "items = []" | a where "items = [a]" | "2 \<le> length items"
    by (cases items rule: remdups_adj.cases) auto
  then show ?thesis
  proof cases
    case 3
    then show ?thesis
      by (intro that [of "1 # hashFromByteSlices H (take (cut items) items) @ hashFromByteSlices H (drop (cut items) items)"])
        (auto simp: hash_split innerHash_eq treeInputs.simps [of H items])
  qed (rule that [of "[]"], simp_all add: treeInputs.simps emptyHash_def,
       rule that [of "0 # a" for a], auto simp: treeInputs.simps leafHash_eq)
qed


lemma computed_length: "hash32 H \<Longrightarrow> length (hashFromByteSlices H items) = 32"
  using hash_input [of H items] by (metis hash32_def)

lemma compute_length:
  assumes "hash32 H" "computeHashFromAunts H index ttl (Some (leafHash H leaf)) as = Some h"
  shows "length h = 32"
proof -
  have "(\<exists>x. h = H x)"
    using assms(2) by (subst (asm) computeHashFromAunts.simps)
      (auto simp: Let_def leafHash_eq innerHash_eq split: if_splits option.splits)
  then show ?thesis using assms(1) by (auto simp: hash32_def)
qed

lemma treeInputs_split:
  "2 \<le> length items \<Longrightarrow> set (treeInputs H (take (cut items) items)) \<union> set (treeInputs H (drop (cut items) items))
     \<subseteq> set (treeInputs H items)"
  by (subst (3) treeInputs.simps) auto

text \<open>One step of the recomputation against the node of the tree it must match.\<close>

lemma compute_step:
  assumes "computeHashFromAunts H index ttl (Some (leafHash H leaf)) as = Some (hashFromByteSlices H items)"
    and "hash32 H" "ttl \<noteq> 1" "k = splitPoint ttl" "l = take (cut items) items" "r = drop (cut items) items"
    and inj: "inj_on H (set (treeInputs H items) \<union> set (auntInputs H index ttl (Some (leafHash H leaf)) as) \<union> S)"
  shows "2 \<le> length items \<and>
    (if index < k
     then computeHashFromAunts H index k (Some (leafHash H leaf)) (butlast as) = Some (hashFromByteSlices H l)
     else computeHashFromAunts H (index - k) (ttl - k) (Some (leafHash H leaf)) (butlast as) = Some (hashFromByteSlices H r))"
proof -
  let ?lh = "Some (leafHash H leaf)"
  have rng: "0 \<le> index" "index < ttl" "as \<noteq> []" "1 < ttl"
    using assms(1,3) by (auto simp: computeHashFromAunts.simps [of H index] split: if_splits)
  obtain x where x: "x \<in> set (treeInputs H items)" "hashFromByteSlices H items = H x"
    "\<And>y. x = 1 # y \<Longrightarrow> 2 \<le> length items \<and> y = hashFromByteSlices H l @ hashFromByteSlices H r"
    unfolding assms(5,6) by (rule hash_input [of H items]) blast
  show ?thesis
  proof (cases "index < k")
    case True
    with assms(1,3,4) rng obtain h where h: "computeHashFromAunts H index k ?lh (butlast as) = Some h"
      "H (1 # h @ last as) = H x"
      by (auto simp: computeHashFromAunts.simps [of H index ttl] Let_def innerHash_eq x(2) split: option.splits)
    have "1 # h @ last as \<in> set (auntInputs H index ttl ?lh as)"
      using True rng assms(4) h by (subst auntInputs.simps) (simp add: Let_def go_bytes_def)
    then have "x = 1 # h @ last as" using inj_onD [OF inj h(2)] x(1) by auto
    from x(3) [OF this] show ?thesis
      using True h compute_length [OF assms(2) h(1)] computed_length [OF assms(2)] by (simp add: append_eq_append_conv)
  next
    case False
    with assms(1,3,4) rng obtain h where h: "computeHashFromAunts H (index - k) (ttl - k) ?lh (butlast as) = Some h"
      "H (1 # last as @ h) = H x"
      by (auto simp: computeHashFromAunts.simps [of H index ttl] Let_def innerHash_eq x(2) split: option.splits)
    have "1 # last as @ h \<in> set (auntInputs H index ttl ?lh as)"
      using False rng assms(4) h by (subst auntInputs.simps) (simp add: Let_def go_bytes_def)
    then have "x = 1 # last as @ h" using inj_onD [OF inj h(2)] x(1) by auto
    from x(3) [OF this] show ?thesis
      using False h compute_length [OF assms(2) h(1)] computed_length [OF assms(2)] by (simp add: append_eq_append_conv)
  qed
qed

lemma auntInputs_step:
  assumes "0 \<le> index" "index < ttl" "1 < ttl" "as \<noteq> []" "k = splitPoint ttl"
  shows "index < k \<Longrightarrow> set (auntInputs H index k lh (butlast as)) \<subseteq> set (auntInputs H index ttl lh as)"
    "\<not> index < k \<Longrightarrow> set (auntInputs H (index - k) (ttl - k) lh (butlast as)) \<subseteq> set (auntInputs H index ttl lh as)"
  using assms by (subst auntInputs.simps [of H index ttl]; auto simp: Let_def)+

lemma compute_sound:
  assumes "computeHashFromAunts H index ttl (Some (leafHash H leaf)) as = Some (hashFromByteSlices H items)"
    and "hash32 H"
    and "inj_on H (set (treeInputs H items) \<union> set (auntInputs H index ttl (Some (leafHash H leaf)) as) \<union> {0 # leaf})"
  shows "leaf \<in> set items \<and> (ttl = int (length items) \<longrightarrow> items ! nat index = leaf)"
  using assms
proof (induction H index ttl "Some (leafHash H leaf)" as arbitrary: items rule: computeHashFromAunts.induct)
  case (1 H index ttl as)
  have inj: "inj_on H (set (treeInputs H items) \<union> set (auntInputs H index ttl (Some (leafHash H leaf)) as) \<union> {0 # leaf})"
    by (rule 1)
  have rng: "0 \<le> index" "index < ttl"
    using "1.prems"(1) by (auto simp: computeHashFromAunts.simps [of H index] split: if_splits)
  obtain x where x: "x \<in> set (treeInputs H items)" "hashFromByteSlices H items = H x"
    "\<And>y. x = 0 # y \<Longrightarrow> items = [y]"
    "\<And>y. x = 1 # y \<Longrightarrow> 2 \<le> length items \<and>
       y = hashFromByteSlices H (take (cut items) items) @ hashFromByteSlices H (drop (cut items) items)"
    by (rule hash_input [of H items]) blast
  show ?case
  proof (cases "ttl = 1")
    case True
    with "1.prems"(1) rng have "H (0 # leaf) = H x"
      by (simp add: computeHashFromAunts.simps [of H index] leafHash_eq x(2) split: if_splits)
    then have "x = 0 # leaf" using inj_onD [OF inj _ _ ] x(1) by auto
    from x(3) [OF this] True rng show ?thesis by simp
  next
    case False
    define k l r where k: "k = splitPoint ttl" and l: "l = take (cut items) items" and r: "r = drop (cut items) items"
    have as: "as \<noteq> []" "1 < ttl"
      using "1.prems"(1) False rng by (auto simp: computeHashFromAunts.simps [of H index] split: if_splits)
    note step = compute_step [OF "1.prems"(1,2) False k l r inj]
    then have two: "2 \<le> length items" by simp
    note cut = cut_bounds [OF two] and tree = treeInputs_split [OF two, of H, folded l r]
    have len: "ttl = int (length items) \<Longrightarrow> int (cut items) = k" using splitPoint_cut [OF two] k by simp
    show ?thesis
    proof (cases "index < k")
      case True
      have "leaf \<in> set l \<and> (k = int (length l) \<longrightarrow> l ! nat index = leaf)"
      proof (rule "1.hyps"(1) [OF _ False _ k True _ "1.prems"(2)])
        show "inj_on H (set (treeInputs H l) \<union> set (auntInputs H index k (Some (leafHash H leaf)) (butlast as)) \<union> {0 # leaf})"
          by (rule inj_on_subset [OF inj]) (use tree auntInputs_step(1) [OF rng as(2,1) k True] in blast)
      qed (use step True rng as in auto)
      then show ?thesis
        using len cut True rng in_set_takeD [of leaf "cut items" items] unfolding l by auto
    next
      case nl: False
      have "leaf \<in> set r \<and> (ttl - k = int (length r) \<longrightarrow> r ! nat (index - k) = leaf)"
      proof (rule "1.hyps"(2) [OF _ False _ k nl _ "1.prems"(2)])
        show "inj_on H (set (treeInputs H r) \<union> set (auntInputs H (index - k) (ttl - k) (Some (leafHash H leaf)) (butlast as)) \<union> {0 # leaf})"
          by (rule inj_on_subset [OF inj]) (use tree auntInputs_step(2) [OF rng as(2,1) k nl] in blast)
      qed (use step nl rng as in auto)
      moreover have "r ! nat (index - k) = items ! nat index" if "ttl = int (length items)"
        using len [OF that] cut nl rng that unfolding r by (auto simp: nat_diff_distrib)
      ultimately show ?thesis
        using len cut nl rng in_set_dropD [of leaf "cut items" items] unfolding r by auto
    qed
  qed
qed

lemma Verify_sound:
  assumes "Proof_Verify H sp (HashFromByteSlices H items) leaf = Ok ()" "hash32 H"
    and "inj_on H (hashedBytes H items sp leaf)"
  shows "leaf \<in> set items \<and> (Total sp = int (length items) \<longrightarrow> items ! nat (Index sp) = leaf)"
proof -
  have lh: "LeafHash sp = Some (leafHash H leaf)"
    using assms(1,2) by (cases "LeafHash sp")
      (auto simp: Proof_Verify_def Let_def go_bytes_def leafHash_eq hash32_def split: if_splits dest: arg_cong [of _ _ length])
  have "ComputeRootHash H sp = Some (hashFromByteSlices H items)"
    using assms(1) computed_length [OF assms(2), of items]
    by (cases "ComputeRootHash H sp")
      (auto simp: Proof_Verify_def Let_def go_bytes_def HashFromByteSlices_def split: if_splits)
  then show ?thesis
    using compute_sound [of H "Index sp" "Total sp" leaf "Aunts sp" items] assms lh
    by (simp add: ComputeRootHash_def hashedBytes_def)
qed

section \<open>Properties\<close>

text \<open>A digest for the witnesses: the first 32 bytes, padded with zeros.\<close>

definition pad32 :: hash_fn where "pad32 x = take 32 (x @ replicate 32 0)"

text \<open>
  C24: soundness of inclusion proofs. A proof that \<open>Verify\<close> accepts for a leaf against the
  root of a tree proves that the leaf is one of the tree's items, and, when the proof's total is
  the number of items, that it is the item at the proof's index. This holds for every 32-byte hash that has no
  collision among the byte strings which the tree and the recomputation of the root hash.
\<close>

theorem merkle_proof_sound:
  assumes "Proof_Verify H sp (HashFromByteSlices H items) leaf = Ok ()" "hash32 H"
    and "inj_on H (hashedBytes H items sp leaf)"
  shows "leaf \<in> set items \<and> (Total sp = int (length items) \<longrightarrow> items ! nat (Index sp) = leaf)"
  using assms by (rule Verify_sound)

theorem merkle_proof_sound_witness:
  "\<exists>sp. Proof_Verify pad32 sp (HashFromByteSlices pad32 [[7], [8]]) [8] = Ok () \<and> [8] \<in> set [[7], [8 :: byte]]"
proof -
  let ?items = "[[7], [8 :: byte]]" and ?sp = "proofOf pad32 [[7], [8]] 1"
  have v: "Proof_Verify pad32 ?sp (HashFromByteSlices pad32 ?items) [8] = Ok ()"
    using Verify_proofOf [of 1 ?items pad32] by simp
  have h: "hash32 pad32" by (auto simp: hash32_def pad32_def min_def)
  have "treeInputs pad32 ?items = [1 # pad32 [0, 7] @ pad32 [0, 8], [0, 7], [0, 8]]"
    "auntInputs pad32 (Index ?sp) (Total ?sp) (LeafHash ?sp) (Aunts ?sp) = [1 # pad32 [0, 7] @ pad32 [0, 8]]"
    by code_simp+
  then have "inj_on pad32 (hashedBytes pad32 ?items ?sp [8])"
    by (auto simp: hashedBytes_def inj_on_def pad32_def)
  from merkle_proof_sound [OF v h this] v show ?thesis by blast
qed

text \<open>
  C25: completeness of inclusion proofs. \<open>ProofsFromByteSlices\<close>, with its pointer-linked
  proof nodes, returns the root of the tree and one proof per item, and each proof verifies its item against
  that root.
\<close>

theorem merkle_proofs_verify:
  "\<exists>proofs. ProofsFromByteSlices H items = Some (HashFromByteSlices H items, proofs) \<and>
     length proofs = length items \<and>
     (\<forall>i < length items. Proof_Verify H (proofs ! i) (HashFromByteSlices H items) (items ! i) = Ok () \<and>
        Index (proofs ! i) = int i \<and> Total (proofs ! i) = int (length items))"
  using ProofsFromByteSlices_eq [of H items] by (auto simp: Verify_proofOf) (auto simp: proofOf_def)

theorem merkle_proofs_verify_witness:
  "\<exists>proofs. ProofsFromByteSlices pad32 [[7], [8], [9]] = Some (HashFromByteSlices pad32 [[7], [8], [9]], proofs) \<and>
     Proof_Verify pad32 (proofs ! 2) (HashFromByteSlices pad32 [[7], [8], [9]]) [9] = Ok ()"
  using merkle_proofs_verify [of pad32 "[[7], [8], [9]]"] by (auto simp: All_less_Suc numeral_3_eq_3 numeral_2_eq_2)

text \<open>
  C26: the iterative in-place computation of the root, which combines neighbours level by level, returns the
  same hash as the recursive one, which splits at the largest power of two, for every list of items.
\<close>

theorem merkle_iterative_recursive:
  "HashFromByteSlicesIterative H items = HashFromByteSlices H items"
  by (rule iterative_eq)

end
