(* ===== verification/Wire.thy ===== *)
theory Wire
  imports Merkle
begin

text \<open>
  The protobuf wire format as the generated code writes it: varints, tags, length-delimited
  and fixed-width fields, written backwards into a buffer of the size computed beforehand.
  The helpers \<open>encodeVarint*\<close>, \<open>sov*\<close> and the shape of \<open>Marshal\<close> are the same text in every
  generated file under \<open>proto/tendermint\<close>; the map names those of
  \<open>proto/tendermint/types/canonical.pb.go\<close>. \<open>MarshalDelimited\<close> is
  \<open>internal/libs/protoio/writer.go\<close>; \<open>encodeByteSlice\<close> is \<open>crypto/merkle/types.go\<close>.

  What the lemmas show: the size is the number of bytes written, so that no write leaves the
  buffer and none of it stays unwritten, and the encoding of a list of fields is injective.
\<close>

section \<open>Varints and fixed-width integers\<close>

text \<open>\<open>binary.PutUvarint\<close>: seven bits a byte, the high bit set on every byte but the last.\<close>

fun putUvarint :: "nat \<Rightarrow> bytes" where
  "putUvarint v = (if v \<ge> 128 then word_of_nat (v mod 128 + 128) # putUvarint (v div 128) else [word_of_nat v])"

declare putUvarint.simps [simp del]

definition sov :: "nat \<Rightarrow> nat" where
  "sov x = (bits_Len (if even x then x + 1 else x) + 6) div 7"

definition to_uint64 :: "int \<Rightarrow> nat" where
  "to_uint64 x = nat (x mod 2 ^ 64)"

text \<open>
  A buffer that is filled from its end: the bytes written so far. \<open>encodeVarint\<close> reserves \<open>sov\<close> bytes
  below them and writes the varint from there upwards.
\<close>

definition encodeVarint :: "bytes \<Rightarrow> nat \<Rightarrow> bytes" where
  "encodeVarint acc v = go_copy (replicate (sov v) 0 @ acc) (putUvarint v)"

definition putUint64 :: "bytes \<Rightarrow> int \<Rightarrow> bytes" where
  "putUint64 acc v = le_bytes (word_of_int v) @ acc"

text \<open>\<open>Marshal\<close>: allocate the computed size, fill from the end, return the first \<open>n\<close> bytes.\<close>

definition marshalSized :: "nat \<Rightarrow> bytes \<Rightarrow> ('e, bytes) res" where
  "marshalSized sz acc =
     (if length acc > sz then Panic ''index out of range''
      else Ok (take (length acc) (replicate (sz - length acc) 0 @ acc)))"

text \<open>\<open>MarshalDelimited\<close> on a message that knows its size: the size as a varint, then the message.\<close>

definition varintWrittenBytes :: "nat \<Rightarrow> bytes \<Rightarrow> ('e, bytes) res" where
  "varintWrittenBytes sz acc = res_bind (marshalSized sz acc) (\<lambda>bz. Ok (putUvarint sz @ bz))"

definition encodeByteSlice :: "bytes \<Rightarrow> bytes" where
  "encodeByteSlice bz = putUvarint (length bz) @ bz"

lemma bits_Len_step: "0 < n \<Longrightarrow> bits_Len n = Suc (bits_Len (n div 2))"
  by (subst bits_Len.simps) simp

lemma bits_Len_odd: "bits_Len (if even x then x + 1 else x) = max 1 (bits_Len x)"
proof (cases "x = 0")
  case True
  then show ?thesis using bits_Len_step [of 1] by (simp add: bits_Len.simps [of 0])
next
  case False
  have "(x + 1) div 2 = x div 2" if "even x" using that by auto
  with False show ?thesis using bits_Len_step [of x] bits_Len_step [of "x + 1"] by auto
qed

lemma bits_Len_128: "128 \<le> v \<Longrightarrow> bits_Len v = 7 + bits_Len (v div 128)"
  using bits_Len_step [of v] bits_Len_step [of "v div 2"] bits_Len_step [of "v div 4"] bits_Len_step [of "v div 8"]
    bits_Len_step [of "v div 16"] bits_Len_step [of "v div 32"] bits_Len_step [of "v div 64"]
  by (simp add: div_mult2_eq [symmetric])

lemma sov_putUvarint: "length (putUvarint v) = sov v"
proof (induction v rule: putUvarint.induct)
  case (1 v)
  show ?case
  proof (cases "v \<ge> 128")
    case True
    have "1 \<le> bits_Len (v div 128)" using bits_Len_bounds [of "v div 128"] True by linarith
    then show ?thesis using 1 True bits_Len_128 [OF True]
      by (simp add: putUvarint.simps [of v] sov_def bits_Len_odd)
  next
    case False
    have "bits_Len v \<le> 7"
    proof (cases "v = 0")
      case False
      with bits_Len_bounds [of v] \<open>\<not> 128 \<le> v\<close> have "(2::nat) ^ (bits_Len v - 1) < 2 ^ 7" by auto
      then have "bits_Len v - 1 < 7" by (rule power_less_imp_less_exp [rotated]) simp
      then show ?thesis by simp
    qed (simp add: bits_Len.simps [of 0])
    with False show ?thesis by (simp add: putUvarint.simps [of v] sov_def bits_Len_odd max_def) presburger
  qed
qed

lemma encodeVarint_eq [simp]: "encodeVarint acc v = putUvarint v @ acc"
  by (simp add: encodeVarint_def go_copy_def sov_putUvarint)

lemma marshalSized_exact [simp]: "length acc = sz \<Longrightarrow> marshalSized sz acc = Ok acc"
  by (simp add: marshalSized_def)

lemma byte_nat: "x < 256 \<Longrightarrow> y < 256 \<Longrightarrow> (word_of_nat x :: byte) = word_of_nat y \<longleftrightarrow> x = y"
  by (simp add: word_of_nat_eq_iff take_bit_nat_eq_self)

lemma putUvarint_inj: "putUvarint m @ xs = putUvarint n @ ys \<longleftrightarrow> m = n \<and> xs = ys"
proof (induction m arbitrary: n rule: putUvarint.induct)
  case (1 m)
  have small: "v mod 128 + 128 < 256" for v :: nat using mod_less_divisor [of 128 v] by linarith
  show ?case
  proof (cases "m \<ge> 128"; cases "n \<ge> 128")
    assume mn: "m \<ge> 128" "n \<ge> 128"
    have "m mod 128 = n mod 128 \<and> m div 128 = n div 128 \<longleftrightarrow> m = n" by (metis div_mod_decomp)
    then show ?thesis using mn 1 small [of m] small [of n]
      by (auto simp: putUvarint.simps [of m] putUvarint.simps [of n] byte_nat simp del: of_nat_add)
  next
    assume "m \<ge> 128" "\<not> n \<ge> 128"
    then show ?thesis using small [of m] by (auto simp: putUvarint.simps [of m] putUvarint.simps [of n] byte_nat simp del: of_nat_add)
  next
    assume "\<not> m \<ge> 128" "n \<ge> 128"
    then show ?thesis using small [of n] by (auto simp: putUvarint.simps [of m] putUvarint.simps [of n] byte_nat simp del: of_nat_add)
  next
    assume "\<not> m \<ge> 128" "\<not> n \<ge> 128"
    then show ?thesis by (auto simp: putUvarint.simps [of m] putUvarint.simps [of n] byte_nat simp del: of_nat_add)
  qed
qed

lemma le_bytes_inj: "le_bytes a = le_bytes b \<longleftrightarrow> a = b"
proof
  assume eq: "le_bytes a = le_bytes b"
  show "a = b"
  proof (rule bit_word_eqI)
    fix n assume n: "n < LENGTH(64)"
    let ?k = "n div 8"
    have k: "?k < 8" using n by auto
    have "le_bytes x ! ?k = ucast (drop_bit (8 * ?k) x)" for x using k by (simp add: le_bytes_def)
    with eq have "(ucast (drop_bit (8 * ?k) a) :: byte) = ucast (drop_bit (8 * ?k) b)" by metis
    then have "bit (ucast (drop_bit (8 * ?k) a) :: byte) (n mod 8) = bit (ucast (drop_bit (8 * ?k) b) :: byte) (n mod 8)" by simp
    then show "bit a n = bit b n" by (simp add: bit_ucast_iff bit_drop_bit_eq)
  qed
qed simp

lemma length_le_bytes [simp]: "length (le_bytes a) = 8"
  by (simp add: le_bytes_def)

section \<open>Fields\<close>

datatype wire_value = Varint nat | Fixed64 "64 word" | Delimited bytes

text \<open>A field: its tag byte, whose low three bits are the wire type, and its value.\<close>

type_synonym wire_field = "byte \<times> wire_value"

fun encField :: "wire_field \<Rightarrow> bytes" where
  "encField (t, Varint n) = t # putUvarint n"
| "encField (t, Fixed64 w) = t # le_bytes w"
| "encField (t, Delimited bs) = t # putUvarint (length bs) @ bs"

definition encFields :: "wire_field list \<Rightarrow> bytes" where
  "encFields fs = concat (map encField fs)"

text \<open>The wire type that the tag announces is that of the value.\<close>

fun tagged :: "wire_field \<Rightarrow> bool" where
  "tagged (t, Varint n) \<longleftrightarrow> take_bit 3 t = 0"
| "tagged (t, Fixed64 w) \<longleftrightarrow> take_bit 3 t = 1"
| "tagged (t, Delimited bs) \<longleftrightarrow> take_bit 3 t = 2"

lemma encField_inj: "tagged f \<Longrightarrow> tagged g \<Longrightarrow> encField f @ xs = encField g @ ys \<longleftrightarrow> f = g \<and> xs = ys"
  by (cases f rule: encField.cases; cases g rule: encField.cases)
    (auto simp: putUvarint_inj le_bytes_inj append_eq_append_conv)

lemma encField_not_Nil [simp]: "encField f \<noteq> []"
  by (cases f rule: encField.cases) auto

lemma encFields_inj: "list_all tagged fs \<Longrightarrow> list_all tagged gs \<Longrightarrow> encFields fs = encFields gs \<longleftrightarrow> fs = gs"
proof (induction fs arbitrary: gs)
  case Nil
  then show ?case by (cases gs) (auto simp: encFields_def)
next
  case (Cons f fs)
  then show ?case by (cases gs) (auto simp: encFields_def encField_inj)
qed

end
