(* ===== verification/Crypto.thy ===== *)
theory Crypto
  imports Wire
begin

text \<open>
  Keys, addresses and signature verification: \<open>crypto/crypto.go\<close>, the key types of
  \<open>crypto/ed25519\<close>, \<open>crypto/secp256k1\<close> and \<open>crypto/sr25519\<close>, their batch verifiers
  (\<open>crypto/batch\<close>), and the protobuf form of a key (\<open>crypto/encoding/codec.go\<close>,
  \<open>proto/tendermint/crypto/keys.pb.go\<close>).

  The primitives come from packages outside the repository, and are the fields of the record
  \<open>env\<close> that every definition takes: the hashes, the curve operations, the parsers of
  foreign key and signature formats, the batch verifications, and the encoding of a
  timestamp. A time is the number of nanoseconds since the epoch.
\<close>

type_synonym time = int

text \<open>Go's zero time: 1 January of year 1.\<close>

definition zero_time :: time where "zero_time = - 62135596800000000000"

type_synonym batch_entry = "bytes \<times> bytes \<times> bytes"

record env =
  Sum256 :: hash_fn
  ripemd160 :: hash_fn
  ed25519_Verify :: "bytes \<Rightarrow> bytes \<Rightarrow> bytes \<Rightarrow> bool"
  ed25519_BatchVerify :: "batch_entry list \<Rightarrow> bool \<times> bool list"
  sr25519_KeyOk :: "bytes \<Rightarrow> bool"
  sr25519_SigOk :: "bytes \<Rightarrow> bool"
  sr25519_Verify :: "bytes \<Rightarrow> bytes \<Rightarrow> bytes \<Rightarrow> bool"
  sr25519_BatchVerify :: "batch_entry list \<Rightarrow> bool \<times> bool list"
  secp256k1_KeyOk :: "bytes \<Rightarrow> bool"
  secp256k1_halfN :: nat
  secp256k1_Verify :: "bytes \<Rightarrow> bytes \<Rightarrow> nat \<Rightarrow> nat \<Rightarrow> bool"
  StdTimeMarshal :: "time \<Rightarrow> bytes option"

datatype crypto_error = ErrKeyType | ErrKeySize int int | ErrInvalidSignature | ErrInvalidKey | ErrDecodeSignature

section \<open>Keys\<close>

datatype PubKey = Ed25519 bytes | Secp256k1 bytes | Sr25519 bytes

definition AddressSize :: nat where "AddressSize = 20"

definition SumTruncated :: "env \<Rightarrow> bytes \<Rightarrow> bytes" where
  "SumTruncated E bz = take 20 (Sum256 E bz)"

definition AddressHash :: "env \<Rightarrow> bytes \<Rightarrow> bytes" where
  "AddressHash E bz = SumTruncated E bz"

fun PubKey_Address :: "env \<Rightarrow> PubKey \<Rightarrow> ('e, bytes) res" where
  "PubKey_Address E (Ed25519 k) =
     (if length k \<noteq> 32 then Panic ''pubkey is incorrect size'' else Ok (SumTruncated E k))"
| "PubKey_Address E (Secp256k1 k) =
     (if length k \<noteq> 33 then Panic ''length of pubkey is incorrect'' else Ok (ripemd160 E (Sum256 E k)))"
| "PubKey_Address E (Sr25519 k) =
     (if length k \<noteq> 32 then Panic ''pubkey is incorrect size'' else Ok (SumTruncated E k))"

fun PubKey_Bytes :: "PubKey \<Rightarrow> bytes" where
  "PubKey_Bytes (Ed25519 k) = k"
| "PubKey_Bytes (Secp256k1 k) = k"
| "PubKey_Bytes (Sr25519 k) = k"

fun PubKey_Type :: "PubKey \<Rightarrow> string" where
  "PubKey_Type (Ed25519 k) = ''ed25519''"
| "PubKey_Type (Secp256k1 k) = ''secp256k1''"
| "PubKey_Type (Sr25519 k) = ''sr25519''"

fun PubKey_Equals :: "PubKey \<Rightarrow> PubKey \<Rightarrow> bool" where
  "PubKey_Equals (Ed25519 k) (Ed25519 k') \<longleftrightarrow> k = k'"
| "PubKey_Equals (Secp256k1 k) (Secp256k1 k') \<longleftrightarrow> k = k'"
| "PubKey_Equals (Sr25519 k) (Sr25519 k') \<longleftrightarrow> k = k'"
| "PubKey_Equals _ _ \<longleftrightarrow> False"

text \<open>\<open>big.Int.SetBytes\<close>: big-endian.\<close>

definition be_nat :: "bytes \<Rightarrow> nat" where
  "be_nat bs = fold (\<lambda>b n. 256 * n + unat b) bs 0"

fun VerifySignature :: "env \<Rightarrow> PubKey \<Rightarrow> bytes \<Rightarrow> bytes \<Rightarrow> bool" where
  "VerifySignature E (Ed25519 k) msg sig =
     (if length sig \<noteq> 64 then False else ed25519_Verify E k msg sig)"
| "VerifySignature E (Secp256k1 k) msg sig =
     (if length sig \<noteq> 64 then False
      else if \<not> secp256k1_KeyOk E k then False
      else (let r = be_nat (take 32 sig); s = be_nat (take 32 (drop 32 sig))
            in if s > secp256k1_halfN E then False
               else secp256k1_Verify E k (Sum256 E msg) r s))"
| "VerifySignature E (Sr25519 k) msg sig =
     (if \<not> sr25519_KeyOk E k then False
      else if \<not> sr25519_SigOk E sig then False
      else sr25519_Verify E k msg sig)"

section \<open>Batch verification\<close>

datatype BatchVerifier = EdBatch "batch_entry list" | SrBatch "batch_entry list"

fun Batch_Add :: "env \<Rightarrow> BatchVerifier \<Rightarrow> PubKey \<Rightarrow> bytes \<Rightarrow> bytes \<Rightarrow> (crypto_error, BatchVerifier) res" where
  "Batch_Add E (EdBatch es) key msg sig =
     (case key of
        Ed25519 k \<Rightarrow>
          if length k \<noteq> 32 then Err (ErrKeySize 32 (int (length k)))
          else if length sig \<noteq> 64 then Err ErrInvalidSignature
          else Ok (EdBatch (es @ [(k, msg, sig)]))
      | _ \<Rightarrow> Err ErrKeyType)"
| "Batch_Add E (SrBatch es) key msg sig =
     (case key of
        Sr25519 k \<Rightarrow>
          if \<not> sr25519_KeyOk E k then Err ErrInvalidKey
          else if \<not> sr25519_SigOk E sig then Err ErrDecodeSignature
          else Ok (SrBatch (es @ [(k, msg, sig)]))
      | _ \<Rightarrow> Err ErrKeyType)"

fun Batch_Verify :: "env \<Rightarrow> BatchVerifier \<Rightarrow> bool \<times> bool list" where
  "Batch_Verify E (EdBatch es) = ed25519_BatchVerify E es"
| "Batch_Verify E (SrBatch es) = sr25519_BatchVerify E es"

fun Batch_entries :: "BatchVerifier \<Rightarrow> batch_entry list" where
  "Batch_entries (EdBatch es) = es"
| "Batch_entries (SrBatch es) = es"

definition CreateBatchVerifier :: "PubKey \<Rightarrow> BatchVerifier option" where
  "CreateBatchVerifier pk =
     (if PubKey_Type pk = ''ed25519'' then Some (EdBatch [])
      else if PubKey_Type pk = ''sr25519'' then Some (SrBatch [])
      else None)"

definition SupportsBatchVerifier :: "PubKey \<Rightarrow> bool" where
  "SupportsBatchVerifier pk \<longleftrightarrow> PubKey_Type pk = ''ed25519'' \<or> PubKey_Type pk = ''sr25519''"

text \<open>
  What the interface \<open>crypto.BatchVerifier\<close> documents of \<open>Verify\<close>: whether every signature of the
  batch is valid, and the status of each signature in the order they were added. The
  libraries refuse an empty batch.
\<close>

definition batch_documented :: "env \<Rightarrow> bool" where
  "batch_documented E \<longleftrightarrow>
     (\<forall>es. es \<noteq> [] \<longrightarrow>
        ed25519_BatchVerify E es = (list_all (\<lambda>(k, m, s). ed25519_Verify E k m s) es,
                                    map (\<lambda>(k, m, s). ed25519_Verify E k m s) es) \<and>
        sr25519_BatchVerify E es = (list_all (\<lambda>(k, m, s). sr25519_Verify E k m s) es,
                                    map (\<lambda>(k, m, s). sr25519_Verify E k m s) es))"

section \<open>The protobuf form of a key\<close>

datatype protoPublicKey = PbEd25519 bytes | PbSecp256k1 bytes | PbSr25519 bytes | PbNone

fun PubKeyToProto :: "PubKey \<Rightarrow> protoPublicKey" where
  "PubKeyToProto (Ed25519 k) = PbEd25519 k"
| "PubKeyToProto (Secp256k1 k) = PbSecp256k1 k"
| "PubKeyToProto (Sr25519 k) = PbSr25519 k"

fun PubKeyFromProto :: "protoPublicKey \<Rightarrow> (crypto_error, PubKey) res" where
  "PubKeyFromProto (PbEd25519 k) =
     (if length k \<noteq> 32 then Err (ErrKeySize (int (length k)) 32) else Ok (Ed25519 (go_copy (replicate 32 0) k)))"
| "PubKeyFromProto (PbSecp256k1 k) =
     (if length k \<noteq> 33 then Err (ErrKeySize (int (length k)) 33) else Ok (Secp256k1 (go_copy (replicate 33 0) k)))"
| "PubKeyFromProto (PbSr25519 k) =
     (if length k \<noteq> 32 then Err (ErrKeySize (int (length k)) 32) else Ok (Sr25519 (go_copy (replicate 32 0) k)))"
| "PubKeyFromProto PbNone = Err ErrKeyType"

fun PublicKey_MarshalToSizedBuffer :: "protoPublicKey \<Rightarrow> bytes" where
  "PublicKey_MarshalToSizedBuffer (PbEd25519 k) = 0x0a # encodeVarint k (length k)"
| "PublicKey_MarshalToSizedBuffer (PbSecp256k1 k) = 0x12 # encodeVarint k (length k)"
| "PublicKey_MarshalToSizedBuffer (PbSr25519 k) = 0x1a # encodeVarint k (length k)"
| "PublicKey_MarshalToSizedBuffer PbNone = []"

fun PublicKey_Size :: "protoPublicKey \<Rightarrow> nat" where
  "PublicKey_Size (PbEd25519 k) = 1 + length k + sov (length k)"
| "PublicKey_Size (PbSecp256k1 k) = 1 + length k + sov (length k)"
| "PublicKey_Size (PbSr25519 k) = 1 + length k + sov (length k)"
| "PublicKey_Size PbNone = 0"

section \<open>Lemmas\<close>

text \<open>A key as the validator sets hold it: of the size of its type.\<close>

fun wf_key :: "PubKey \<Rightarrow> bool" where
  "wf_key (Ed25519 k) \<longleftrightarrow> length k = 32"
| "wf_key (Secp256k1 k) \<longleftrightarrow> length k = 33"
| "wf_key (Sr25519 k) \<longleftrightarrow> length k = 32"

lemma PubKey_Equals_iff: "PubKey_Equals a b \<longleftrightarrow> a = b"
  by (cases "(a, b)" rule: PubKey_Equals.cases) auto

lemma PubKey_proto_roundtrip: "wf_key k \<Longrightarrow> PubKeyFromProto (PubKeyToProto k) = Ok k"
  by (cases k) (auto simp: go_copy_def)

lemma PubKeyFromProto_wf: "PubKeyFromProto p = Ok k \<Longrightarrow> wf_key k \<and> PubKeyToProto k = p"
  by (cases p) (auto simp: go_copy_def split: if_splits)

lemma PubKey_Address_Ok: "wf_key k \<Longrightarrow> \<exists>a. PubKey_Address E k = Ok a"
  by (cases k) auto

fun pkFields :: "protoPublicKey \<Rightarrow> wire_field list" where
  "pkFields (PbEd25519 k) = [(0x0a, Delimited k)]"
| "pkFields (PbSecp256k1 k) = [(0x12, Delimited k)]"
| "pkFields (PbSr25519 k) = [(0x1a, Delimited k)]"
| "pkFields PbNone = []"

lemma PublicKey_Marshal_fields: "PublicKey_MarshalToSizedBuffer p = encFields (pkFields p)"
  by (cases p) (auto simp: encFields_def)

lemma PublicKey_Size_exact: "length (PublicKey_MarshalToSizedBuffer p) = PublicKey_Size p"
  by (cases p) (auto simp: sov_putUvarint)

lemma pkFields_tagged: "list_all tagged (pkFields p)"
  by (cases p) auto

lemma pkFields_inj: "pkFields p = pkFields q \<longleftrightarrow> p = q"
  by (cases p; cases q) auto

lemma PublicKey_Marshal_inj:
  "PublicKey_MarshalToSizedBuffer p = PublicKey_MarshalToSizedBuffer q \<longleftrightarrow> p = q"
  by (simp add: PublicKey_Marshal_fields encFields_inj pkFields_tagged pkFields_inj)

text \<open>Adding to a batch keeps what was added; a valid entry counts as its signature does.\<close>

lemma Batch_Add_entries:
  "Batch_Add E bv key msg sig = Ok bv' \<Longrightarrow>
     Batch_entries bv' = Batch_entries bv @ [(PubKey_Bytes key, msg, sig)]"
  by (cases bv; cases key) (auto split: if_splits)

end
