(* ===== verification/BlockId.thy ===== *)
theory BlockId
  imports Crypto
begin

text \<open>
  Block identifiers (\<open>types/block.go\<close>, \<open>types/part_set.go\<close>), their canonical forms
  (\<open>types/canonical.go\<close>) and the marshalled bytes of the canonical messages
  (\<open>proto/tendermint/types/canonical.pb.go\<close>, \<open>types.pb.go\<close>) that votes and proposals sign.

  The protobuf messages \<open>PartSetHeader\<close>, \<open>BlockID\<close> and \<open>CanonicalPartSetHeader\<close> have the fields and types of
  the Go structs and are identified with them. A \<open>MarshalToSizedBuffer\<close> is the bytes it
  writes below the end of its buffer, the last field first, as in the code.
\<close>

datatype basic_error = ErrHashSize int | ErrWrongHash basic_error | ErrWrongPartSetHeader basic_error
  | ErrNilPartSetHeader | ErrNilBlockID

section \<open>Part-set headers and block identifiers\<close>

record PartSetHeader =
  psh_Total :: "32 word"
  psh_Hash :: bytes

record BlockID =
  bid_Hash :: bytes
  bid_PartSetHeader :: PartSetHeader

definition ValidateHash :: "bytes \<Rightarrow> (basic_error, unit) res" where
  "ValidateHash h =
     (if length h > 0 \<and> length h \<noteq> 32 then Err (ErrHashSize (int (length h))) else Ok ())"

definition psh_IsZero :: "PartSetHeader \<Rightarrow> bool" where
  "psh_IsZero psh \<longleftrightarrow> psh_Total psh = 0 \<and> length (psh_Hash psh) = 0"

definition psh_Equals :: "PartSetHeader \<Rightarrow> PartSetHeader \<Rightarrow> bool" where
  "psh_Equals psh oth \<longleftrightarrow> psh_Total psh = psh_Total oth \<and> psh_Hash psh = psh_Hash oth"

definition psh_ValidateBasic :: "PartSetHeader \<Rightarrow> (basic_error, unit) res" where
  "psh_ValidateBasic psh =
     (case ValidateHash (psh_Hash psh) of Err e \<Rightarrow> Err (ErrWrongHash e) | r \<Rightarrow> r)"

definition PartSetHeaderFromProto :: "PartSetHeader option \<Rightarrow> (basic_error, PartSetHeader) res" where
  "PartSetHeaderFromProto ppsh =
     (case ppsh of None \<Rightarrow> Err ErrNilPartSetHeader
      | Some p \<Rightarrow> res_bind (psh_ValidateBasic p) (\<lambda>_. Ok p))"

definition psh_zero :: PartSetHeader where
  "psh_zero = \<lparr>psh_Total = 0, psh_Hash = []\<rparr>"

definition psh_ToProto :: "PartSetHeader option \<Rightarrow> PartSetHeader" where
  "psh_ToProto psh = (case psh of None \<Rightarrow> psh_zero | Some p \<Rightarrow> p)"

text \<open>The zero value of the struct.\<close>

definition bid_zero :: BlockID where
  "bid_zero = \<lparr>bid_Hash = [], bid_PartSetHeader = psh_zero\<rparr>"

definition bid_Equals :: "BlockID \<Rightarrow> BlockID \<Rightarrow> bool" where
  "bid_Equals a b \<longleftrightarrow>
     bid_Hash a = bid_Hash b \<and> psh_Equals (bid_PartSetHeader a) (bid_PartSetHeader b)"

definition bid_ValidateBasic :: "BlockID \<Rightarrow> (basic_error, unit) res" where
  "bid_ValidateBasic b =
     (case ValidateHash (bid_Hash b) of Err e \<Rightarrow> Err (ErrWrongHash e)
      | _ \<Rightarrow> (case psh_ValidateBasic (bid_PartSetHeader b) of
               Err e \<Rightarrow> Err (ErrWrongPartSetHeader e) | r \<Rightarrow> r))"

definition bid_IsZero :: "BlockID \<Rightarrow> bool" where
  "bid_IsZero b \<longleftrightarrow> length (bid_Hash b) = 0 \<and> psh_IsZero (bid_PartSetHeader b)"

definition bid_IsComplete :: "BlockID \<Rightarrow> bool" where
  "bid_IsComplete b \<longleftrightarrow>
     length (bid_Hash b) = 32 \<and> psh_Total (bid_PartSetHeader b) > 0 \<and>
     length (psh_Hash (bid_PartSetHeader b)) = 32"

definition bid_ToProto :: "BlockID option \<Rightarrow> BlockID" where
  "bid_ToProto b =
     (case b of None \<Rightarrow> bid_zero
      | Some x \<Rightarrow> \<lparr>bid_Hash = bid_Hash x, bid_PartSetHeader = psh_ToProto (Some (bid_PartSetHeader x))\<rparr>)"

definition BlockIDFromProto :: "BlockID option \<Rightarrow> (basic_error, BlockID) res" where
  "BlockIDFromProto bID =
     (case bID of None \<Rightarrow> Err ErrNilBlockID
      | Some b \<Rightarrow>
          res_bind (PartSetHeaderFromProto (Some (bid_PartSetHeader b))) (\<lambda>ph.
            (let blockID = \<lparr>bid_Hash = bid_Hash b, bid_PartSetHeader = ph\<rparr>
             in res_bind (bid_ValidateBasic blockID) (\<lambda>_. Ok blockID))))"

section \<open>Marshalled identifiers\<close>

definition PartSetHeader_MarshalToSizedBuffer :: "PartSetHeader \<Rightarrow> bytes" where
  "PartSetHeader_MarshalToSizedBuffer m =
     (let acc = [];
          acc = (if length (psh_Hash m) > 0
                 then 0x12 # encodeVarint (psh_Hash m @ acc) (length (psh_Hash m)) else acc);
          acc = (if psh_Total m \<noteq> 0 then 0x08 # encodeVarint acc (unat (psh_Total m)) else acc)
      in acc)"

definition PartSetHeader_Size :: "PartSetHeader \<Rightarrow> nat" where
  "PartSetHeader_Size m =
     (let n = (if psh_Total m \<noteq> 0 then 1 + sov (unat (psh_Total m)) else 0);
          l = length (psh_Hash m)
      in if l > 0 then n + (1 + l + sov l) else n)"

definition PartSetHeader_Marshal :: "PartSetHeader \<Rightarrow> ('e, bytes) res" where
  "PartSetHeader_Marshal m = marshalSized (PartSetHeader_Size m) (PartSetHeader_MarshalToSizedBuffer m)"

definition bid_Key :: "BlockID \<Rightarrow> ('e, bytes) res" where
  "bid_Key b =
     res_bind (PartSetHeader_Marshal (psh_ToProto (Some (bid_PartSetHeader b)))) (\<lambda>bz. Ok (bid_Hash b @ bz))"

text \<open>The same code is generated for \<open>BlockID\<close> and for \<open>CanonicalBlockID\<close>.\<close>

definition BlockID_MarshalToSizedBuffer :: "BlockID \<Rightarrow> bytes" where
  "BlockID_MarshalToSizedBuffer m =
     (let acc = [];
          sub = PartSetHeader_MarshalToSizedBuffer (bid_PartSetHeader m);
          acc = 0x12 # encodeVarint (sub @ acc) (length sub);
          acc = (if length (bid_Hash m) > 0
                 then 0x0a # encodeVarint (bid_Hash m @ acc) (length (bid_Hash m)) else acc)
      in acc)"

definition BlockID_Size :: "BlockID \<Rightarrow> nat" where
  "BlockID_Size m =
     (let l = length (bid_Hash m);
          n = (if l > 0 then 1 + l + sov l else 0);
          l = PartSetHeader_Size (bid_PartSetHeader m)
      in n + (1 + l + sov l))"

section \<open>Canonical messages\<close>

definition CanonicalizePartSetHeader :: "PartSetHeader \<Rightarrow> PartSetHeader" where
  "CanonicalizePartSetHeader psh = psh"

definition CanonicalizeBlockID :: "BlockID \<Rightarrow> ('e, BlockID option) res" where
  "CanonicalizeBlockID bid =
     (case BlockIDFromProto (Some bid) of
        Ok rbid \<Rightarrow>
          Ok (if bid_IsZero rbid then None
              else Some \<lparr>bid_Hash = bid_Hash bid,
                         bid_PartSetHeader = CanonicalizePartSetHeader (bid_PartSetHeader bid)\<rparr>)
      | Err e \<Rightarrow> Panic ''invalid BlockID''
      | Panic p \<Rightarrow> Panic p)"

definition PrevoteType :: int32 where "PrevoteType = 1"
definition PrecommitType :: int32 where "PrecommitType = 2"
definition ProposalType :: int32 where "ProposalType = 32"

lemmas msg_types = PrevoteType_def PrecommitType_def ProposalType_def

record CanonicalVote =
  cv_Type :: int32
  cv_Height :: int64
  cv_Round :: int64
  cv_BlockID :: "BlockID option"
  cv_Timestamp :: time
  cv_ChainID :: bytes

record CanonicalProposal =
  cp_Type :: int32
  cp_Height :: int64
  cp_Round :: int64
  cp_POLRound :: int64
  cp_BlockID :: "BlockID option"
  cp_Timestamp :: time
  cp_ChainID :: bytes

text \<open>The error of \<open>StdTimeMarshalTo\<close> is the only one; \<open>None\<close>.\<close>

definition CanonicalVote_MarshalToSizedBuffer :: "env \<Rightarrow> CanonicalVote \<Rightarrow> bytes option" where
  "CanonicalVote_MarshalToSizedBuffer E m =
     (let acc = [];
          acc = (if length (cv_ChainID m) > 0
                 then 0x32 # encodeVarint (cv_ChainID m @ acc) (length (cv_ChainID m)) else acc)
      in case StdTimeMarshal E (cv_Timestamp m) of None \<Rightarrow> None
         | Some t \<Rightarrow>
             (let acc = 0x2a # encodeVarint (t @ acc) (length t);
                  acc = (case cv_BlockID m of None \<Rightarrow> acc
                         | Some b \<Rightarrow> (let sub = BlockID_MarshalToSizedBuffer b
                                     in 0x22 # encodeVarint (sub @ acc) (length sub)));
                  acc = (if cv_Round m \<noteq> 0 then 0x19 # putUint64 acc (cv_Round m) else acc);
                  acc = (if cv_Height m \<noteq> 0 then 0x11 # putUint64 acc (cv_Height m) else acc);
                  acc = (if cv_Type m \<noteq> 0 then 0x08 # encodeVarint acc (to_uint64 (cv_Type m)) else acc)
              in Some acc))"

definition SizeOfStdTime :: "env \<Rightarrow> time \<Rightarrow> nat" where
  "SizeOfStdTime E t = (case StdTimeMarshal E t of None \<Rightarrow> 0 | Some b \<Rightarrow> length b)"

definition CanonicalVote_Size :: "env \<Rightarrow> CanonicalVote \<Rightarrow> nat" where
  "CanonicalVote_Size E m =
     (let n = 0;
          n = (if cv_Type m \<noteq> 0 then n + (1 + sov (to_uint64 (cv_Type m))) else n);
          n = (if cv_Height m \<noteq> 0 then n + 9 else n);
          n = (if cv_Round m \<noteq> 0 then n + 9 else n);
          n = (case cv_BlockID m of None \<Rightarrow> n | Some b \<Rightarrow> (let l = BlockID_Size b in n + (1 + l + sov l)));
          l = SizeOfStdTime E (cv_Timestamp m);
          n = n + (1 + l + sov l);
          l = length (cv_ChainID m)
      in if l > 0 then n + (1 + l + sov l) else n)"

definition CanonicalProposal_MarshalToSizedBuffer :: "env \<Rightarrow> CanonicalProposal \<Rightarrow> bytes option" where
  "CanonicalProposal_MarshalToSizedBuffer E m =
     (let acc = [];
          acc = (if length (cp_ChainID m) > 0
                 then 0x3a # encodeVarint (cp_ChainID m @ acc) (length (cp_ChainID m)) else acc)
      in case StdTimeMarshal E (cp_Timestamp m) of None \<Rightarrow> None
         | Some t \<Rightarrow>
             (let acc = 0x32 # encodeVarint (t @ acc) (length t);
                  acc = (case cp_BlockID m of None \<Rightarrow> acc
                         | Some b \<Rightarrow> (let sub = BlockID_MarshalToSizedBuffer b
                                     in 0x2a # encodeVarint (sub @ acc) (length sub)));
                  acc = (if cp_POLRound m \<noteq> 0 then 0x20 # encodeVarint acc (to_uint64 (cp_POLRound m)) else acc);
                  acc = (if cp_Round m \<noteq> 0 then 0x19 # putUint64 acc (cp_Round m) else acc);
                  acc = (if cp_Height m \<noteq> 0 then 0x11 # putUint64 acc (cp_Height m) else acc);
                  acc = (if cp_Type m \<noteq> 0 then 0x08 # encodeVarint acc (to_uint64 (cp_Type m)) else acc)
              in Some acc))"

definition CanonicalProposal_Size :: "env \<Rightarrow> CanonicalProposal \<Rightarrow> nat" where
  "CanonicalProposal_Size E m =
     (let n = 0;
          n = (if cp_Type m \<noteq> 0 then n + (1 + sov (to_uint64 (cp_Type m))) else n);
          n = (if cp_Height m \<noteq> 0 then n + 9 else n);
          n = (if cp_Round m \<noteq> 0 then n + 9 else n);
          n = (if cp_POLRound m \<noteq> 0 then n + (1 + sov (to_uint64 (cp_POLRound m))) else n);
          n = (case cp_BlockID m of None \<Rightarrow> n | Some b \<Rightarrow> (let l = BlockID_Size b in n + (1 + l + sov l)));
          l = SizeOfStdTime E (cp_Timestamp m);
          n = n + (1 + l + sov l);
          l = length (cp_ChainID m)
      in if l > 0 then n + (1 + l + sov l) else n)"

section \<open>The fields written\<close>

definition opt_bytes :: "byte \<Rightarrow> bytes \<Rightarrow> wire_field list" where
  "opt_bytes t bs = (if bs = [] then [] else [(t, Delimited bs)])"

definition opt_varint :: "byte \<Rightarrow> nat \<Rightarrow> wire_field list" where
  "opt_varint t n = (if n = 0 then [] else [(t, Varint n)])"

definition opt_fixed :: "byte \<Rightarrow> int \<Rightarrow> wire_field list" where
  "opt_fixed t n = (if n = 0 then [] else [(t, Fixed64 (word_of_int n))])"

lemmas opt_defs = opt_bytes_def opt_varint_def opt_fixed_def

definition pshFields :: "PartSetHeader \<Rightarrow> wire_field list" where
  "pshFields m = opt_varint 0x08 (unat (psh_Total m)) @ opt_bytes 0x12 (psh_Hash m)"

definition bidFields :: "BlockID \<Rightarrow> wire_field list" where
  "bidFields m = opt_bytes 0x0a (bid_Hash m) @ [(0x12, Delimited (encFields (pshFields (bid_PartSetHeader m))))]"

lemma encFields_simps [simp]:
  "encFields [] = []" "encFields (f # fs) = encField f @ encFields fs"
  "encFields (fs @ gs) = encFields fs @ encFields gs"
  by (simp_all add: encFields_def)

lemma PartSetHeader_Marshal_fields: "PartSetHeader_MarshalToSizedBuffer m = encFields (pshFields m)"
  by (simp add: PartSetHeader_MarshalToSizedBuffer_def pshFields_def opt_defs Let_def unat_eq_zero)

lemma PartSetHeader_Size_exact: "length (PartSetHeader_MarshalToSizedBuffer m) = PartSetHeader_Size m"
  by (simp add: PartSetHeader_MarshalToSizedBuffer_def PartSetHeader_Size_def Let_def sov_putUvarint)

lemma PartSetHeader_Marshal_Ok: "PartSetHeader_Marshal m = Ok (encFields (pshFields m))"
  by (simp add: PartSetHeader_Marshal_def PartSetHeader_Size_exact PartSetHeader_Marshal_fields [symmetric])

lemma BlockID_Marshal_fields: "BlockID_MarshalToSizedBuffer m = encFields (bidFields m)"
  by (simp add: BlockID_MarshalToSizedBuffer_def bidFields_def opt_defs Let_def PartSetHeader_Marshal_fields)

lemma BlockID_Size_exact: "length (BlockID_MarshalToSizedBuffer m) = BlockID_Size m"
  by (simp add: BlockID_MarshalToSizedBuffer_def BlockID_Size_def Let_def sov_putUvarint
      PartSetHeader_Size_exact)

lemma tagged_opt [simp]:
  "list_all tagged (opt_bytes t bs) \<longleftrightarrow> bs = [] \<or> take_bit 3 t = 2"
  "list_all tagged (opt_varint t n) \<longleftrightarrow> n = 0 \<or> take_bit 3 t = 0"
  "list_all tagged (opt_fixed t i) \<longleftrightarrow> i = 0 \<or> take_bit 3 t = 1"
  by (auto simp: opt_defs)

lemma pshFields_tagged: "list_all tagged (pshFields m)" and bidFields_tagged: "list_all tagged (bidFields b)"
  by (simp_all add: pshFields_def bidFields_def)

lemma pshFields_inj: "pshFields a = pshFields b \<longleftrightarrow> a = b"
  by (cases a; cases b) (auto simp: pshFields_def opt_defs unat_eq_zero simp flip: word_unat_eq_iff split: if_splits)

lemma bidFields_inj: "bidFields a = bidFields b \<longleftrightarrow> a = b"
  by (auto simp: bidFields_def opt_defs encFields_inj pshFields_tagged pshFields_inj split: if_splits)

lemma BlockID_Marshal_inj: "BlockID_MarshalToSizedBuffer a = BlockID_MarshalToSizedBuffer b \<longleftrightarrow> a = b"
  by (simp add: BlockID_Marshal_fields encFields_inj bidFields_tagged bidFields_inj)

section \<open>Canonical messages: sizes and injectivity\<close>

definition cvFields :: "CanonicalVote \<Rightarrow> bytes \<Rightarrow> wire_field list" where
  "cvFields m t =
     opt_varint 0x08 (to_uint64 (cv_Type m)) @ opt_fixed 0x11 (cv_Height m) @ opt_fixed 0x19 (cv_Round m) @
     (case cv_BlockID m of None \<Rightarrow> [] | Some b \<Rightarrow> [(0x22, Delimited (encFields (bidFields b)))]) @
     [(0x2a, Delimited t)] @ opt_bytes 0x32 (cv_ChainID m)"

definition cpFields :: "CanonicalProposal \<Rightarrow> bytes \<Rightarrow> wire_field list" where
  "cpFields m t =
     opt_varint 0x08 (to_uint64 (cp_Type m)) @ opt_fixed 0x11 (cp_Height m) @ opt_fixed 0x19 (cp_Round m) @
     opt_varint 0x20 (to_uint64 (cp_POLRound m)) @
     (case cp_BlockID m of None \<Rightarrow> [] | Some b \<Rightarrow> [(0x2a, Delimited (encFields (bidFields b)))]) @
     [(0x32, Delimited t)] @ opt_bytes 0x3a (cp_ChainID m)"

lemma to_uint64_eq_iff: "is_int64 a \<Longrightarrow> is_int64 b \<Longrightarrow> to_uint64 a = to_uint64 b \<longleftrightarrow> a = b"
proof -
  assume ab: "is_int64 a" "is_int64 b"
  have "a = b" if "a mod 2 ^ 64 = b mod 2 ^ 64"
  proof -
    from that have "2 ^ 64 dvd a - b" by (simp only: mod_eq_dvd_iff)
    moreover have "\<bar>a - b\<bar> < 2 ^ 64" using ab by (auto simp: is_int64_def int_limits abs_less_iff)
    ultimately show ?thesis by (metis dvd_imp_le_int not_less eq_iff_diff_eq_0 abs_numeral power_abs)
  qed
  then show ?thesis by (auto simp: to_uint64_def)
qed

lemma to_uint64_zero_iff: "is_int64 a \<Longrightarrow> to_uint64 a = 0 \<longleftrightarrow> a = 0"
  using to_uint64_eq_iff [of a 0] by (simp add: is_int64_def int_limits to_uint64_def)

lemma word_of_int64_eq_iff:
  "is_int64 a \<Longrightarrow> is_int64 b \<Longrightarrow> (word_of_int a :: 64 word) = word_of_int b \<longleftrightarrow> a = b"
  using to_uint64_eq_iff [of a b]
  by (simp add: word_of_int_eq_iff take_bit_eq_mod to_uint64_def eq_nat_nat_iff)

lemma CanonicalVote_Marshal_fields:
  "is_int64 (cv_Type m) \<Longrightarrow> CanonicalVote_MarshalToSizedBuffer E m =
     map_option (\<lambda>t. encFields (cvFields m t)) (StdTimeMarshal E (cv_Timestamp m))"
  by (auto simp: CanonicalVote_MarshalToSizedBuffer_def cvFields_def opt_defs Let_def to_uint64_zero_iff
      BlockID_Marshal_fields putUint64_def split: option.split)

lemma CanonicalVote_Size_exact:
  "CanonicalVote_MarshalToSizedBuffer E m = Some bz \<Longrightarrow> length bz = CanonicalVote_Size E m"
  by (auto simp: CanonicalVote_MarshalToSizedBuffer_def CanonicalVote_Size_def Let_def sov_putUvarint putUint64_def
      BlockID_Size_exact SizeOfStdTime_def split: option.splits)

lemma CanonicalProposal_Marshal_fields:
  "is_int64 (cp_Type m) \<Longrightarrow> is_int64 (cp_POLRound m) \<Longrightarrow> CanonicalProposal_MarshalToSizedBuffer E m =
     map_option (\<lambda>t. encFields (cpFields m t)) (StdTimeMarshal E (cp_Timestamp m))"
  by (auto simp: CanonicalProposal_MarshalToSizedBuffer_def cpFields_def opt_defs Let_def to_uint64_zero_iff
      BlockID_Marshal_fields putUint64_def split: option.split)

lemma CanonicalProposal_Size_exact:
  "CanonicalProposal_MarshalToSizedBuffer E m = Some bz \<Longrightarrow> length bz = CanonicalProposal_Size E m"
  by (auto simp: CanonicalProposal_MarshalToSizedBuffer_def CanonicalProposal_Size_def Let_def sov_putUvarint putUint64_def
      BlockID_Size_exact SizeOfStdTime_def split: option.splits)

lemma fields_tagged: "list_all tagged (cvFields m t)" "list_all tagged (cpFields p t)"
  by (auto simp: cvFields_def cpFields_def split: option.split)

text \<open>A message is read back from its fields by tag.\<close>

lemma map_of_opt [simp]:
  "map_of (opt_bytes t bs) t' = (if t = t' \<and> bs \<noteq> [] then Some (Delimited bs) else None)"
  "map_of (opt_varint t n) t' = (if t = t' \<and> n \<noteq> 0 then Some (Varint n) else None)"
  "map_of (opt_fixed t i) t' = (if t = t' \<and> i \<noteq> 0 then Some (Fixed64 (word_of_int i)) else None)"
  by (auto simp: opt_defs)

lemma map_of_case_opt [simp]:
  "map_of (case x of None \<Rightarrow> [] | Some b \<Rightarrow> [(t, f b)]) t' = (if t = t' then map_option f x else None)"
  by (cases x) auto

lemma map_of_append_case: "map_of (xs @ ys) k = (case map_of xs k of None \<Rightarrow> map_of ys k | Some v \<Rightarrow> Some v)"
  by (simp add: map_add_def split: option.split)

definition cv_ok :: "CanonicalVote \<Rightarrow> bool" where
  "cv_ok m \<longleftrightarrow> is_int64 (cv_Type m) \<and> is_int64 (cv_Height m) \<and> is_int64 (cv_Round m)"

definition cp_ok :: "CanonicalProposal \<Rightarrow> bool" where
  "cp_ok m \<longleftrightarrow> is_int64 (cp_Type m) \<and> is_int64 (cp_Height m) \<and> is_int64 (cp_Round m) \<and> is_int64 (cp_POLRound m)"

lemmas int64_inj = word_of_int64_eq_iff to_uint64_eq_iff to_uint64_zero_iff

lemma cvFields_inj:
  assumes "cvFields m t = cvFields m' t'" "cv_ok m" "cv_ok m'"
  shows "cv_Type m = cv_Type m'" "cv_Height m = cv_Height m'" "cv_Round m = cv_Round m'"
    "cv_BlockID m = cv_BlockID m'" "t = t'" "cv_ChainID m = cv_ChainID m'"
proof -
  have "map_of (cvFields m t) k = map_of (cvFields m' t') k" for k using assms(1) by simp
  note eq = this [unfolded cvFields_def map_of_append_case]
  note ok = assms(2,3) [unfolded cv_ok_def]
  show "cv_Type m = cv_Type m'" using eq [of "0x08"] ok by (simp add: int64_inj split: if_splits option.splits)
  show "cv_Height m = cv_Height m'" using eq [of "0x11"] ok by (simp add: int64_inj split: if_splits option.splits)
  show "cv_Round m = cv_Round m'" using eq [of "0x19"] ok by (simp add: int64_inj split: if_splits option.splits)
  show "cv_BlockID m = cv_BlockID m'" using eq [of "0x22"]
    by (simp add: encFields_inj bidFields_tagged bidFields_inj split: option.splits)
  show "t = t'" using eq [of "0x2a"] by (simp split: option.splits)
  show "cv_ChainID m = cv_ChainID m'" using eq [of "0x32"] by (simp split: if_splits option.splits)
qed

lemma cpFields_inj:
  assumes "cpFields m t = cpFields m' t'" "cp_ok m" "cp_ok m'"
  shows "cp_Type m = cp_Type m'" "cp_Height m = cp_Height m'" "cp_Round m = cp_Round m'"
    "cp_POLRound m = cp_POLRound m'" "cp_BlockID m = cp_BlockID m'" "t = t'" "cp_ChainID m = cp_ChainID m'"
proof -
  have "map_of (cpFields m t) k = map_of (cpFields m' t') k" for k using assms(1) by simp
  note eq = this [unfolded cpFields_def map_of_append_case]
  note ok = assms(2,3) [unfolded cp_ok_def]
  show "cp_Type m = cp_Type m'" using eq [of "0x08"] ok by (simp add: int64_inj split: if_splits option.splits)
  show "cp_Height m = cp_Height m'" using eq [of "0x11"] ok by (simp add: int64_inj split: if_splits option.splits)
  show "cp_Round m = cp_Round m'" using eq [of "0x19"] ok by (simp add: int64_inj split: if_splits option.splits)
  show "cp_POLRound m = cp_POLRound m'" using eq [of "0x20"] ok by (simp add: int64_inj split: if_splits option.splits)
  show "cp_BlockID m = cp_BlockID m'" using eq [of "0x2a"]
    by (simp add: encFields_inj bidFields_tagged bidFields_inj split: option.splits)
  show "t = t'" using eq [of "0x32"] by (simp split: option.splits)
  show "cp_ChainID m = cp_ChainID m'" using eq [of "0x3a"] by (simp split: if_splits option.splits)
qed

text \<open>A proposal and a vote with different types have different fields.\<close>

lemma cv_cp_disjoint:
  assumes "cvFields m t = cpFields m' t'" "cv_ok m" "cp_ok m'"
  shows "cv_Type m = cp_Type m'"
proof -
  have "map_of (cvFields m t) 0x08 = map_of (cpFields m' t') 0x08" using assms(1) by simp
  from this [unfolded cvFields_def cpFields_def map_of_append_case] show ?thesis using assms(2,3)
    by (simp add: cv_ok_def cp_ok_def int64_inj split: if_splits option.splits)
qed

section \<open>Validity and canonical form\<close>

lemma ValidateHash_Ok_iff: "ValidateHash h = Ok () \<longleftrightarrow> h = [] \<or> length h = 32"
  by (auto simp: ValidateHash_def)

lemma psh_ValidateBasic_Ok_iff: "psh_ValidateBasic p = Ok () \<longleftrightarrow> psh_Hash p = [] \<or> length (psh_Hash p) = 32"
  by (auto simp: psh_ValidateBasic_def ValidateHash_def)

lemma bid_ValidateBasic_Ok_iff:
  "bid_ValidateBasic b = Ok () \<longleftrightarrow> (bid_Hash b = [] \<or> length (bid_Hash b) = 32) \<and>
     (psh_Hash (bid_PartSetHeader b) = [] \<or> length (psh_Hash (bid_PartSetHeader b)) = 32)"
  by (auto simp: bid_ValidateBasic_def psh_ValidateBasic_def ValidateHash_def)

lemma bid_IsZero_iff: "bid_IsZero b \<longleftrightarrow> b = bid_zero"
  by (cases b; cases "bid_PartSetHeader b") (auto simp: bid_IsZero_def psh_IsZero_def bid_zero_def psh_zero_def)

lemma bid_Equals_iff: "bid_Equals a b \<longleftrightarrow> a = b"
  by (cases a; cases b; cases "bid_PartSetHeader a"; cases "bid_PartSetHeader b")
    (auto simp: bid_Equals_def psh_Equals_def)

lemma bid_zero_or_complete_valid: "bid_IsZero b \<or> bid_IsComplete b \<Longrightarrow> bid_ValidateBasic b = Ok ()"
  by (auto simp: bid_ValidateBasic_Ok_iff bid_IsZero_def psh_IsZero_def bid_IsComplete_def)

lemma BlockIDFromProto_Ok_iff: "BlockIDFromProto (Some b) = Ok b' \<longleftrightarrow> b' = b \<and> bid_ValidateBasic b = Ok ()"
proof -
  have "bid_ValidateBasic b = Ok () \<Longrightarrow> psh_ValidateBasic (bid_PartSetHeader b) = Ok ()"
    by (simp add: bid_ValidateBasic_Ok_iff psh_ValidateBasic_Ok_iff)
  then show ?thesis
    by (cases b) (auto simp: BlockIDFromProto_def PartSetHeaderFromProto_def res_simps Let_def)
qed

lemma CanonicalizeBlockID_Ok_iff:
  "CanonicalizeBlockID b = Ok c \<longleftrightarrow> bid_ValidateBasic b = Ok () \<and> c = (if b = bid_zero then None else Some b)"
proof (cases "BlockIDFromProto (Some b)")
  case (Ok r)
  then show ?thesis
    using BlockIDFromProto_Ok_iff [of b r] by (auto simp: CanonicalizeBlockID_def bid_IsZero_iff CanonicalizePartSetHeader_def)
next
  case (Err e)
  then show ?thesis using BlockIDFromProto_Ok_iff [of b b] by (auto simp: CanonicalizeBlockID_def)
next
  case (Panic p)
  then show ?thesis using BlockIDFromProto_Ok_iff [of b b] by (auto simp: CanonicalizeBlockID_def)
qed

text \<open>
  \<open>Key\<close> concatenates the hash and the marshalled header without a separator. It separates the
  identifiers that a vote may carry, zero or complete.
\<close>

lemma bid_Key_Ok: "bid_Key b = Ok (bid_Hash b @ encFields (pshFields (bid_PartSetHeader b)))"
  by (simp add: bid_Key_def psh_ToProto_def PartSetHeader_Marshal_Ok)

lemma bid_Key_inj:
  assumes "bid_IsZero a \<or> bid_IsComplete a" "bid_IsZero b \<or> bid_IsComplete b"
    and "bid_Hash a @ encFields (pshFields (bid_PartSetHeader a)) = bid_Hash b @ encFields (pshFields (bid_PartSetHeader b))"
  shows "a = b"
proof -
  have "bid_IsZero a \<longleftrightarrow> bid_IsZero b"
    using assms by (auto simp: bid_IsZero_def psh_IsZero_def bid_IsComplete_def pshFields_def opt_defs)
  with assms(1,2) consider "bid_IsZero a" "bid_IsZero b" | "length (bid_Hash a) = length (bid_Hash b)"
    by (auto simp: bid_IsComplete_def)
  then show ?thesis
  proof cases
    case 2
    with assms(3) show ?thesis
      by (cases a; cases b) (simp add: append_eq_append_conv encFields_inj pshFields_tagged pshFields_inj)
  qed (simp add: bid_IsZero_iff)
qed

end
