(* ===== verification/Votes.thy ===== *)
theory Votes
  imports BlockId
begin

text \<open>
  Votes (\<open>types/vote.go\<close>, \<open>types/signed_msg_type.go\<close>) and proposals (\<open>types/proposal.go\<close>): what is
  signed, what is checked, and the conversions to and from their protobuf messages, which have
  the same fields and are identified with the structs.
\<close>

datatype vote_error =
    ErrVoteUnexpectedStep | ErrVoteInvalidValidatorIndex | ErrVoteInvalidValidatorAddress
  | ErrVoteInvalidSignature | ErrVoteNonDeterministicSignature | ErrVoteNil
  | ErrInvalidType | ErrNegativeHeight | ErrNegativeRound | ErrNegativePOLRound | ErrWrongBlockID basic_error
  | ErrBlockIDNotEmptyOrComplete | ErrBlockIDNotComplete | ErrAddressSize int | ErrNegativeValidatorIndex
  | ErrSignatureMissing | ErrSignatureTooBig | ErrBlockID basic_error | ErrNilProposal

section \<open>Votes\<close>

record Vote =
  v_Type :: int32
  v_Height :: int64
  v_Round :: int32
  v_BlockID :: BlockID
  v_Timestamp :: time
  v_ValidatorAddress :: bytes
  v_ValidatorIndex :: int32
  v_Signature :: bytes

definition IsVoteTypeValid :: "int32 \<Rightarrow> bool" where
  "IsVoteTypeValid t \<longleftrightarrow> t = PrevoteType \<or> t = PrecommitType"

definition MaxSignatureSize :: nat where "MaxSignatureSize = 64"

definition CanonicalizeVote :: "bytes \<Rightarrow> Vote \<Rightarrow> ('e, CanonicalVote) res" where
  "CanonicalizeVote chainID vote =
     res_bind (CanonicalizeBlockID (v_BlockID vote)) (\<lambda>bid.
       Ok \<lparr>cv_Type = v_Type vote, cv_Height = v_Height vote, cv_Round = v_Round vote, cv_BlockID = bid,
           cv_Timestamp = v_Timestamp vote, cv_ChainID = chainID\<rparr>)"

definition VoteSignBytes :: "env \<Rightarrow> bytes \<Rightarrow> Vote \<Rightarrow> ('e, bytes) res" where
  "VoteSignBytes E chainID vote =
     res_bind (CanonicalizeVote chainID vote) (\<lambda>pb.
       case CanonicalVote_MarshalToSizedBuffer E pb of
         None \<Rightarrow> Panic ''timestamp out of range''
       | Some acc \<Rightarrow> varintWrittenBytes (CanonicalVote_Size E pb) acc)"

definition Vote_ToProto :: "Vote option \<Rightarrow> Vote option" where
  "Vote_ToProto v = map_option (\<lambda>vote. vote\<lparr>v_BlockID := bid_ToProto (Some (v_BlockID vote))\<rparr>) v"

definition Vote_Verify :: "env \<Rightarrow> bytes \<Rightarrow> PubKey \<Rightarrow> Vote \<Rightarrow> (vote_error, unit) res" where
  "Vote_Verify E chainID pubKey vote =
     res_bind (PubKey_Address E pubKey) (\<lambda>addr.
       if addr \<noteq> v_ValidatorAddress vote then Err ErrVoteInvalidValidatorAddress
       else res_bind (VoteSignBytes E chainID vote) (\<lambda>sb.
         if \<not> VerifySignature E pubKey sb (v_Signature vote) then Err ErrVoteInvalidSignature
         else Ok ()))"

definition Vote_ValidateBasic :: "Vote \<Rightarrow> (vote_error, unit) res" where
  "Vote_ValidateBasic vote =
     (if \<not> IsVoteTypeValid (v_Type vote) then Err ErrInvalidType
      else if v_Height vote < 0 then Err ErrNegativeHeight
      else if v_Round vote < 0 then Err ErrNegativeRound
      else case bid_ValidateBasic (v_BlockID vote) of
        Err e \<Rightarrow> Err (ErrWrongBlockID e)
      | Panic p \<Rightarrow> Panic p
      | Ok _ \<Rightarrow>
          if \<not> bid_IsZero (v_BlockID vote) \<and> \<not> bid_IsComplete (v_BlockID vote) then Err ErrBlockIDNotEmptyOrComplete
          else if length (v_ValidatorAddress vote) \<noteq> AddressSize
            then Err (ErrAddressSize (int (length (v_ValidatorAddress vote))))
          else if v_ValidatorIndex vote < 0 then Err ErrNegativeValidatorIndex
          else if length (v_Signature vote) = 0 then Err ErrSignatureMissing
          else if length (v_Signature vote) > MaxSignatureSize then Err ErrSignatureTooBig
          else Ok ())"

definition VoteFromProto :: "Vote option \<Rightarrow> (vote_error, Vote) res" where
  "VoteFromProto pv =
     (case pv of None \<Rightarrow> Err ErrVoteNil
      | Some p \<Rightarrow>
          (case BlockIDFromProto (Some (v_BlockID p)) of
             Err e \<Rightarrow> Err (ErrBlockID e)
           | Panic s \<Rightarrow> Panic s
           | Ok b \<Rightarrow>
               (let vote = \<lparr>v_Type = v_Type p, v_Height = v_Height p, v_Round = v_Round p, v_BlockID = b,
                    v_Timestamp = v_Timestamp p, v_ValidatorAddress = v_ValidatorAddress p,
                    v_ValidatorIndex = v_ValidatorIndex p, v_Signature = v_Signature p\<rparr>
                in res_bind (Vote_ValidateBasic vote) (\<lambda>_. Ok vote))))"

section \<open>Proposals\<close>

record Proposal =
  p_Type :: int32
  p_Height :: int64
  p_Round :: int32
  p_POLRound :: int32
  p_BlockID :: BlockID
  p_Timestamp :: time
  p_Signature :: bytes

definition NewProposal :: "time \<Rightarrow> int64 \<Rightarrow> int32 \<Rightarrow> int32 \<Rightarrow> BlockID \<Rightarrow> Proposal" where
  "NewProposal now height round polRound blockID =
     \<lparr>p_Type = ProposalType, p_Height = height, p_Round = round, p_POLRound = polRound,
      p_BlockID = blockID, p_Timestamp = now, p_Signature = []\<rparr>"

definition Proposal_ValidateBasic :: "Proposal \<Rightarrow> (vote_error, unit) res" where
  "Proposal_ValidateBasic p =
     (if p_Type p \<noteq> ProposalType then Err ErrInvalidType
      else if p_Height p < 0 then Err ErrNegativeHeight
      else if p_Round p < 0 then Err ErrNegativeRound
      else if p_POLRound p < -1 then Err ErrNegativePOLRound
      else case bid_ValidateBasic (p_BlockID p) of
        Err e \<Rightarrow> Err (ErrWrongBlockID e)
      | Panic s \<Rightarrow> Panic s
      | Ok _ \<Rightarrow>
          if \<not> bid_IsComplete (p_BlockID p) then Err ErrBlockIDNotComplete
          else if length (p_Signature p) = 0 then Err ErrSignatureMissing
          else if length (p_Signature p) > MaxSignatureSize then Err ErrSignatureTooBig
          else Ok ())"

definition CanonicalizeProposal :: "bytes \<Rightarrow> Proposal \<Rightarrow> ('e, CanonicalProposal) res" where
  "CanonicalizeProposal chainID p =
     res_bind (CanonicalizeBlockID (p_BlockID p)) (\<lambda>bid.
       Ok \<lparr>cp_Type = ProposalType, cp_Height = p_Height p, cp_Round = p_Round p, cp_POLRound = p_POLRound p,
           cp_BlockID = bid, cp_Timestamp = p_Timestamp p, cp_ChainID = chainID\<rparr>)"

definition ProposalSignBytes :: "env \<Rightarrow> bytes \<Rightarrow> Proposal \<Rightarrow> ('e, bytes) res" where
  "ProposalSignBytes E chainID p =
     res_bind (CanonicalizeProposal chainID p) (\<lambda>pb.
       case CanonicalProposal_MarshalToSizedBuffer E pb of
         None \<Rightarrow> Panic ''timestamp out of range''
       | Some acc \<Rightarrow> varintWrittenBytes (CanonicalProposal_Size E pb) acc)"

definition Proposal_ToProto :: "Proposal option \<Rightarrow> Proposal" where
  "Proposal_ToProto op =
     (case op of
        None \<Rightarrow> \<lparr>p_Type = 0, p_Height = 0, p_Round = 0, p_POLRound = 0, p_BlockID = bid_zero, p_Timestamp = zero_time, p_Signature = []\<rparr>
      | Some p \<Rightarrow> p\<lparr>p_BlockID := bid_ToProto (Some (p_BlockID p))\<rparr>)"

definition ProposalFromProto :: "Proposal option \<Rightarrow> (vote_error, Proposal) res" where
  "ProposalFromProto pp =
     (case pp of None \<Rightarrow> Err ErrNilProposal
      | Some q \<Rightarrow>
          (case BlockIDFromProto (Some (p_BlockID q)) of
             Err e \<Rightarrow> Err (ErrBlockID e)
           | Panic s \<Rightarrow> Panic s
           | Ok b \<Rightarrow>
               (let p = \<lparr>p_Type = p_Type q, p_Height = p_Height q, p_Round = p_Round q, p_POLRound = p_POLRound q,
                    p_BlockID = b, p_Timestamp = p_Timestamp q, p_Signature = p_Signature q\<rparr>
                in res_bind (Proposal_ValidateBasic p) (\<lambda>_. Ok p))))"

section \<open>Sign bytes\<close>

text \<open>The fields of a vote and of a proposal are in the ranges of their Go types.\<close>

definition vote_ranges :: "Vote \<Rightarrow> bool" where
  "vote_ranges v \<longleftrightarrow> is_int32 (v_Type v) \<and> is_int64 (v_Height v) \<and> is_int32 (v_Round v)"

definition proposal_ranges :: "Proposal \<Rightarrow> bool" where
  "proposal_ranges p \<longleftrightarrow> is_int64 (p_Height p) \<and> is_int32 (p_Round p) \<and> is_int32 (p_POLRound p)"

definition cv_of :: "bytes \<Rightarrow> Vote \<Rightarrow> CanonicalVote" where
  "cv_of chainID v = \<lparr>cv_Type = v_Type v, cv_Height = v_Height v, cv_Round = v_Round v,
     cv_BlockID = (if v_BlockID v = bid_zero then None else Some (v_BlockID v)),
     cv_Timestamp = v_Timestamp v, cv_ChainID = chainID\<rparr>"

definition cp_of :: "bytes \<Rightarrow> Proposal \<Rightarrow> CanonicalProposal" where
  "cp_of chainID p = \<lparr>cp_Type = ProposalType, cp_Height = p_Height p, cp_Round = p_Round p, cp_POLRound = p_POLRound p,
     cp_BlockID = (if p_BlockID p = bid_zero then None else Some (p_BlockID p)),
     cp_Timestamp = p_Timestamp p, cp_ChainID = chainID\<rparr>"

lemma is_int32_64: "is_int32 a \<Longrightarrow> is_int64 a"
  by (simp add: is_int32_def is_int64_def int_limits)

lemma cv_of_ok: "vote_ranges v \<Longrightarrow> cv_ok (cv_of c v)"
  and cp_of_ok: "proposal_ranges p \<Longrightarrow> cp_ok (cp_of c p)"
  by (auto simp: vote_ranges_def proposal_ranges_def cv_ok_def cp_ok_def cv_of_def cp_of_def is_int32_64)
     (simp add: msg_types is_int64_def int_limits)

lemma VoteSignBytes_Ok:
  assumes "VoteSignBytes E c v = (Ok sb :: ('e, bytes) res)" "vote_ranges v"
  obtains t where "StdTimeMarshal E (v_Timestamp v) = Some t"
    "sb = putUvarint (length (encFields (cvFields (cv_of c v) t))) @ encFields (cvFields (cv_of c v) t)"
proof -
  have cv: "CanonicalizeVote c v = (Ok (cv_of c v) :: ('e, _) res)"
    using assms(1) by (auto simp: VoteSignBytes_def CanonicalizeVote_def res_simps CanonicalizeBlockID_Ok_iff cv_of_def)
  from assms(1) obtain acc where acc: "CanonicalVote_MarshalToSizedBuffer E (cv_of c v) = Some acc"
    "varintWrittenBytes (CanonicalVote_Size E (cv_of c v)) acc = (Ok sb :: ('e, bytes) res)"
    by (auto simp: VoteSignBytes_def cv split: option.splits)
  have "is_int64 (cv_Type (cv_of c v))" using cv_of_ok [OF assms(2)] by (simp add: cv_ok_def)
  from CanonicalVote_Marshal_fields [OF this, of E] acc(1)
  obtain t where t: "StdTimeMarshal E (v_Timestamp v) = Some t" "acc = encFields (cvFields (cv_of c v) t)"
    by (auto simp: cv_of_def)
  with acc(2) CanonicalVote_Size_exact [OF acc(1)] show ?thesis
    by (intro that) (auto simp: varintWrittenBytes_def)
qed

lemma ProposalSignBytes_Ok:
  assumes "ProposalSignBytes E c p = (Ok sb :: ('e, bytes) res)" "proposal_ranges p"
  obtains t where "StdTimeMarshal E (p_Timestamp p) = Some t"
    "sb = putUvarint (length (encFields (cpFields (cp_of c p) t))) @ encFields (cpFields (cp_of c p) t)"
proof -
  have cp: "CanonicalizeProposal c p = (Ok (cp_of c p) :: ('e, _) res)"
    using assms(1) by (auto simp: ProposalSignBytes_def CanonicalizeProposal_def res_simps CanonicalizeBlockID_Ok_iff cp_of_def)
  from assms(1) obtain acc where acc: "CanonicalProposal_MarshalToSizedBuffer E (cp_of c p) = Some acc"
    "varintWrittenBytes (CanonicalProposal_Size E (cp_of c p)) acc = (Ok sb :: ('e, bytes) res)"
    by (auto simp: ProposalSignBytes_def cp split: option.splits)
  have "is_int64 (cp_Type (cp_of c p))" "is_int64 (cp_POLRound (cp_of c p))"
    using cp_of_ok [OF assms(2)] by (simp_all add: cp_ok_def)
  from CanonicalProposal_Marshal_fields [OF this, of E] acc(1)
  obtain t where t: "StdTimeMarshal E (p_Timestamp p) = Some t" "acc = encFields (cpFields (cp_of c p) t)"
    by (auto simp: cp_of_def)
  with acc(2) CanonicalProposal_Size_exact [OF acc(1)] show ?thesis
    by (intro that) (auto simp: varintWrittenBytes_def)
qed

text \<open>The encoding of timestamps is injective where it is defined.\<close>

definition time_inj :: "env \<Rightarrow> bool" where
  "time_inj E \<longleftrightarrow> (\<forall>s t b. StdTimeMarshal E s = Some b \<longrightarrow> StdTimeMarshal E t = Some b \<longrightarrow> s = t)"

lemma VoteSignBytes_inj:
  assumes "VoteSignBytes E c v = Ok sb" "VoteSignBytes E c' v' = Ok sb" "vote_ranges v" "vote_ranges v'" "time_inj E"
  shows "c = c' \<and> v_Type v = v_Type v' \<and> v_Height v = v_Height v' \<and> v_Round v = v_Round v' \<and>
    v_BlockID v = v_BlockID v' \<and> v_Timestamp v = v_Timestamp v'"
proof -
  from assms(1,3) obtain t where t: "StdTimeMarshal E (v_Timestamp v) = Some t"
    "sb = putUvarint (length (encFields (cvFields (cv_of c v) t))) @ encFields (cvFields (cv_of c v) t)"
    by (rule VoteSignBytes_Ok)
  from assms(2,4) obtain t' where t': "StdTimeMarshal E (v_Timestamp v') = Some t'"
    "sb = putUvarint (length (encFields (cvFields (cv_of c' v') t'))) @ encFields (cvFields (cv_of c' v') t')"
    by (rule VoteSignBytes_Ok)
  have "encFields (cvFields (cv_of c v) t) = encFields (cvFields (cv_of c' v') t')"
    using t(2) t'(2) putUvarint_inj by blast
  then have "cvFields (cv_of c v) t = cvFields (cv_of c' v') t'" by (simp add: encFields_inj fields_tagged)
  note inj = cvFields_inj [OF this cv_of_ok [OF assms(3)] cv_of_ok [OF assms(4)]]
  have "v_Timestamp v = v_Timestamp v'" using t(1) t'(1) inj(5) assms(5) by (auto simp: time_inj_def)
  with inj show ?thesis by (auto simp: cv_of_def split: if_splits)
qed

lemma Vote_Proposal_SignBytes_disjoint:
  assumes "VoteSignBytes E c v = Ok sb" "ProposalSignBytes E c' p = Ok sb" "vote_ranges v" "proposal_ranges p"
  shows "v_Type v = ProposalType"
proof -
  from assms(1,3) obtain t where t:
    "sb = putUvarint (length (encFields (cvFields (cv_of c v) t))) @ encFields (cvFields (cv_of c v) t)"
    by (rule VoteSignBytes_Ok)
  from assms(2,4) obtain t' where t':
    "sb = putUvarint (length (encFields (cpFields (cp_of c' p) t'))) @ encFields (cpFields (cp_of c' p) t')"
    by (rule ProposalSignBytes_Ok)
  have "cvFields (cv_of c v) t = cpFields (cp_of c' p) t'"
    using t t' putUvarint_inj encFields_inj fields_tagged by metis
  from cv_cp_disjoint [OF this cv_of_ok [OF assms(3)] cp_of_ok [OF assms(4)]]
  show ?thesis by (simp add: cv_of_def cp_of_def)
qed

section \<open>Validation\<close>

lemma Vote_ValidateBasic_Ok:
  assumes "Vote_ValidateBasic v = Ok ()"
  shows "IsVoteTypeValid (v_Type v)" "0 \<le> v_Height v" "0 \<le> v_Round v" "bid_IsZero (v_BlockID v) \<or> bid_IsComplete (v_BlockID v)"
    "length (v_ValidatorAddress v) = 20" "0 \<le> v_ValidatorIndex v" "v_Signature v \<noteq> []" "length (v_Signature v) \<le> 64"
  using assms
  by (auto simp: Vote_ValidateBasic_def AddressSize_def MaxSignatureSize_def split: if_splits res.splits)

lemma VoteFromProto_ToProto:
  "Vote_ValidateBasic v = Ok () \<Longrightarrow> VoteFromProto (Vote_ToProto (Some v)) = Ok v"
proof -
  assume v: "Vote_ValidateBasic v = Ok ()"
  then have "BlockIDFromProto (Some (v_BlockID v)) = Ok (v_BlockID v)"
    using bid_zero_or_complete_valid Vote_ValidateBasic_Ok(4) by (simp add: BlockIDFromProto_Ok_iff)
  then show ?thesis using v
    by (cases v; cases "v_BlockID v") (auto simp: VoteFromProto_def Vote_ToProto_def bid_ToProto_def psh_ToProto_def Let_def)
qed

lemma VoteFromProto_Ok: "VoteFromProto (Some p) = Ok v \<Longrightarrow> v = p \<and> Vote_ValidateBasic v = Ok ()"
  by (cases p) (auto simp: VoteFromProto_def BlockIDFromProto_Ok_iff Let_def res_simps split: res.splits)

text \<open>A valid vote has sign bytes: signing and verifying it does not panic.\<close>

lemma VoteSignBytes_total:
  assumes "bid_ValidateBasic (v_BlockID v) = Ok ()" "StdTimeMarshal E (v_Timestamp v) \<noteq> None"
  shows "\<exists>sb. VoteSignBytes E c v = (Ok sb :: ('e, bytes) res)"
proof -
  have cv: "CanonicalizeVote c v = (Ok (cv_of c v) :: ('e, _) res)"
    using assms(1) by (auto simp: CanonicalizeBlockID_Ok_iff CanonicalizeVote_def res_simps cv_of_def)
  have "CanonicalVote_MarshalToSizedBuffer E (cv_of c v) \<noteq> None"
    using assms(2) by (auto simp: CanonicalVote_MarshalToSizedBuffer_def cv_of_def Let_def)
  then obtain acc where acc: "CanonicalVote_MarshalToSizedBuffer E (cv_of c v) = Some acc" by auto
  from CanonicalVote_Size_exact [OF this] acc cv show ?thesis
    by (simp add: VoteSignBytes_def varintWrittenBytes_def)
qed

section \<open>Properties\<close>

text \<open>An environment for the witnesses: truncating hashes, signatures that repeat the message's first bytes.\<close>

definition sample_sig :: "bytes \<Rightarrow> bytes \<Rightarrow> bytes" where
  "sample_sig k msg = take 64 (k @ msg @ replicate 64 0)"

definition sample_env :: env where
  "sample_env =
     \<lparr>Sum256 = pad32, ripemd160 = (\<lambda>x. take 20 (pad32 x)),
      ed25519_Verify = (\<lambda>k m s. s = sample_sig k m),
      ed25519_BatchVerify = (\<lambda>es. (list_all (\<lambda>(k, m, s). s = sample_sig k m) es, map (\<lambda>(k, m, s). s = sample_sig k m) es)),
      sr25519_KeyOk = (\<lambda>k. length k = 32), sr25519_SigOk = (\<lambda>s. length s = 64),
      sr25519_Verify = (\<lambda>k m s. s = sample_sig k m),
      sr25519_BatchVerify = (\<lambda>es. (list_all (\<lambda>(k, m, s). s = sample_sig k m) es, map (\<lambda>(k, m, s). s = sample_sig k m) es)),
      secp256k1_KeyOk = (\<lambda>k. length k = 33), secp256k1_halfN = 1,
      secp256k1_Verify = (\<lambda>k d r s. True),
      StdTimeMarshal = (\<lambda>t. Some (if t \<ge> 0 then 0 # putUvarint (nat t) else 1 # putUvarint (nat (- t))))\<rparr>"

lemma sample_env_time_inj: "time_inj sample_env"
proof -
  have "m = n" if "putUvarint m = putUvarint n" for m n using putUvarint_inj [of m "[]" n "[]"] that by simp
  then show ?thesis by (auto simp: time_inj_def sample_env_def split: if_splits) fastforce+
qed

lemma sample_env_batch: "batch_documented sample_env"
  by (simp add: batch_documented_def sample_env_def)

text \<open>
  C16: what a validator signs binds everything that counts. Two votes with the same sign
  bytes agree on the chain, the type, the height, the round, the block and the timestamp, and a proposal never has the sign bytes of a
  prevote or precommit, given that the encoding of timestamps is injective.
\<close>

theorem vote_sign_bytes_binding:
  assumes "VoteSignBytes E c v = (Ok sb :: (vote_error, bytes) res)" "vote_ranges v" "time_inj E"
  shows "(VoteSignBytes E c' v' = (Ok sb :: (vote_error, bytes) res) \<and> vote_ranges v' \<longrightarrow>
      c' = c \<and> v_Type v' = v_Type v \<and> v_Height v' = v_Height v \<and> v_Round v' = v_Round v \<and>
      v_BlockID v' = v_BlockID v \<and> v_Timestamp v' = v_Timestamp v) \<and>
    (IsVoteTypeValid (v_Type v) \<and> proposal_ranges p \<longrightarrow> ProposalSignBytes E c' p \<noteq> (Ok sb :: (vote_error, bytes) res))"
proof -
  have "v_Type v = ProposalType" if "ProposalSignBytes E c' p = (Ok sb :: (vote_error, bytes) res)" "proposal_ranges p"
    using Vote_Proposal_SignBytes_disjoint [OF assms(1) that(1) assms(2) that(2)] .
  then show ?thesis
    using VoteSignBytes_inj [OF assms(1) _ assms(2) _ assms(3), of c' v'] by (auto simp: IsVoteTypeValid_def msg_types)
qed

definition sample_vote :: Vote where
  "sample_vote = \<lparr>v_Type = 1, v_Height = 5, v_Round = 0,
     v_BlockID = \<lparr>bid_Hash = replicate 32 7, bid_PartSetHeader = \<lparr>psh_Total = 1, psh_Hash = replicate 32 9\<rparr>\<rparr>,
     v_Timestamp = 100, v_ValidatorAddress = replicate 20 1, v_ValidatorIndex = 0, v_Signature = [1]\<rparr>"

theorem vote_sign_bytes_binding_witness:
  "\<exists>sb. VoteSignBytes sample_env [65] sample_vote = (Ok sb :: (vote_error, bytes) res) \<and>
     VoteSignBytes sample_env [65] (sample_vote\<lparr>v_Height := 6\<rparr>) \<noteq> (Ok sb :: (vote_error, bytes) res)"
proof -
  have "\<exists>sb. VoteSignBytes sample_env [65] sample_vote = (Ok sb :: (vote_error, bytes) res)"
    by (rule VoteSignBytes_total) (simp_all add: sample_vote_def bid_ValidateBasic_Ok_iff sample_env_def)
  then obtain sb where sb: "VoteSignBytes sample_env [65] sample_vote = (Ok sb :: (vote_error, bytes) res)" by blast
  have "vote_ranges sample_vote" "vote_ranges (sample_vote\<lparr>v_Height := 6\<rparr>)"
    by (simp_all add: vote_ranges_def sample_vote_def is_int32_def is_int64_def int_limits)
  with vote_sign_bytes_binding [OF sb _ sample_env_time_inj, of "[65]" "sample_vote\<lparr>v_Height := 6\<rparr>"] sb
  show ?thesis by (auto simp: sample_vote_def)
qed

text \<open>
  C27: the string key under which votes are tallied identifies the block. On the block
  identifiers that a valid vote can carry, \<open>Key\<close> is injective.
\<close>

theorem block_key_injective:
  assumes "Vote_ValidateBasic v = Ok ()" "Vote_ValidateBasic v' = Ok ()"
  shows "bid_Key (v_BlockID v) = (bid_Key (v_BlockID v') :: (vote_error, bytes) res) \<longleftrightarrow> bid_Equals (v_BlockID v) (v_BlockID v')"
  using bid_Key_inj [of "v_BlockID v" "v_BlockID v'"] assms [THEN Vote_ValidateBasic_Ok(4)]
  by (auto simp: bid_Key_Ok bid_Equals_iff)

theorem block_key_injective_witness:
  "bid_Key (v_BlockID sample_vote) \<noteq> (bid_Key (v_BlockID (sample_vote\<lparr>v_BlockID := bid_zero\<rparr>)) :: (vote_error, bytes) res)"
proof -
  have "Vote_ValidateBasic sample_vote = Ok ()" "Vote_ValidateBasic (sample_vote\<lparr>v_BlockID := bid_zero\<rparr>) = Ok ()"
    by code_simp+
  from block_key_injective [OF this] show ?thesis by (simp add: bid_Equals_iff sample_vote_def bid_zero_def)
qed

end
