(* ===== verification/ValidatorSet.thy ===== *)
theory ValidatorSet
  imports Votes "HOL-Library.Product_Lexorder" "HOL-Library.Multiset"
begin

text \<open>
  Validators (\<open>types/validator.go\<close>) and validator sets (\<open>types/validator_set.go\<close>): proposer
  selection by priorities, and updates of the set.

  A validator pointer that the code compares or mutates inside \<open>Validators\<close> is its index. The
  cached total is the field \<open>vs_total\<close>, zero when it must be recomputed; operations that may
  fill the cache return the set. \<open>Proposer\<close> points at a validator; the model keeps the validator as it was
  when the pointer was set, since the code reads nothing but the address and the key through it
  once the set has moved on. \<open>sort.Sort\<close> is the library's \<open>sort_key\<close>: the orders are total on
  distinct addresses. Where int64 arithmetic is not saturating it wraps (\<open>wrap64\<close>).
\<close>

datatype valset_error =
    ErrNilValidator | ErrNoPubKey | ErrNegativePower | ErrValAddressSize int | ErrEmptySet
  | ErrInvalidValidator nat valset_error | ErrProposer valset_error
  | ErrDuplicateEntry bytes | ErrPowerTooHigh int | ErrTotalVotingPowerOverflow
  | ErrRemoveUnknown bytes | ErrZeroPower | ErrWouldBeEmpty | ErrPubKey crypto_error | ErrNilValidatorSet

definition MaxTotalVotingPower :: int64 where "MaxTotalVotingPower = MaxInt64 div 8"
definition PriorityWindowSizeFactor :: int64 where "PriorityWindowSizeFactor = 2"

section \<open>Validators\<close>

record Validator =
  val_Address :: bytes
  val_PubKey :: PubKey
  VotingPower :: int64
  ProposerPriority :: int64

definition NewValidator :: "env \<Rightarrow> PubKey \<Rightarrow> int64 \<Rightarrow> ('e, Validator) res" where
  "NewValidator E pubKey votingPower =
     res_bind (PubKey_Address E pubKey) (\<lambda>addr.
       Ok \<lparr>val_Address = addr, val_PubKey = pubKey, VotingPower = votingPower, ProposerPriority = 0\<rparr>)"

text \<open>A key is never nil in the model.\<close>

definition Validator_ValidateBasic :: "Validator option \<Rightarrow> (valset_error, unit) res" where
  "Validator_ValidateBasic ov =
     (case ov of None \<Rightarrow> Err ErrNilValidator
      | Some v \<Rightarrow>
          if VotingPower v < 0 then Err ErrNegativePower
          else if length (val_Address v) \<noteq> AddressSize then Err (ErrValAddressSize (int (length (val_Address v))))
          else Ok ())"

text \<open>The comparison picks its first or its second argument.\<close>

definition prioFirst :: "Validator \<Rightarrow> Validator \<Rightarrow> ('e, bool) res" where
  "prioFirst v oth =
     (if ProposerPriority v > ProposerPriority oth then Ok True
      else if ProposerPriority v < ProposerPriority oth then Ok False
      else (let result = bytes_Compare (val_Address v) (val_Address oth)
            in if result < 0 then Ok True
               else if result > 0 then Ok False
               else Panic ''Cannot compare identical validators''))"

definition CompareProposerPriority :: "Validator option \<Rightarrow> Validator \<Rightarrow> ('e, Validator) res" where
  "CompareProposerPriority v oth =
     (case v of None \<Rightarrow> Ok oth
      | Some w \<Rightarrow> res_bind (prioFirst w oth) (\<lambda>b. Ok (if b then w else oth)))"

text \<open>\<open>SimpleValidator\<close>, the form that is hashed.\<close>

definition SimpleValidator_MarshalToSizedBuffer :: "protoPublicKey \<Rightarrow> int64 \<Rightarrow> bytes" where
  "SimpleValidator_MarshalToSizedBuffer pk vp =
     (let acc = [];
          acc = (if vp \<noteq> 0 then 0x10 # encodeVarint acc (to_uint64 vp) else acc);
          sub = PublicKey_MarshalToSizedBuffer pk
      in 0x0a # encodeVarint (sub @ acc) (length sub))"

definition SimpleValidator_Size :: "protoPublicKey \<Rightarrow> int64 \<Rightarrow> nat" where
  "SimpleValidator_Size pk vp =
     (let l = PublicKey_Size pk; n = 1 + l + sov l
      in if vp \<noteq> 0 then n + (1 + sov (to_uint64 vp)) else n)"

definition Validator_Bytes :: "Validator \<Rightarrow> ('e, bytes) res" where
  "Validator_Bytes v =
     (let pk = PubKeyToProto (val_PubKey v)
      in marshalSized (SimpleValidator_Size pk (VotingPower v)) (SimpleValidator_MarshalToSizedBuffer pk (VotingPower v)))"

record protoValidator =
  pv_Address :: bytes
  pv_PubKey :: protoPublicKey
  pv_VotingPower :: int64
  pv_ProposerPriority :: int64

definition Validator_ToProto :: "Validator option \<Rightarrow> (valset_error, protoValidator) res" where
  "Validator_ToProto ov =
     (case ov of None \<Rightarrow> Err ErrNilValidator
      | Some v \<Rightarrow> Ok \<lparr>pv_Address = val_Address v, pv_PubKey = PubKeyToProto (val_PubKey v),
                      pv_VotingPower = VotingPower v, pv_ProposerPriority = ProposerPriority v\<rparr>)"

definition ValidatorFromProto :: "protoValidator option \<Rightarrow> (valset_error, Validator) res" where
  "ValidatorFromProto ovp =
     (case ovp of None \<Rightarrow> Err ErrNilValidator
      | Some vp \<Rightarrow>
          (case PubKeyFromProto (pv_PubKey vp) of
             Err e \<Rightarrow> Err (ErrPubKey e)
           | Panic s \<Rightarrow> Panic s
           | Ok pk \<Rightarrow> Ok \<lparr>val_Address = pv_Address vp, val_PubKey = pk, VotingPower = pv_VotingPower vp,
                         ProposerPriority = pv_ProposerPriority vp\<rparr>))"

section \<open>Validator sets\<close>

record ValidatorSet =
  Validators :: "Validator list"
  Proposer :: "Validator option"
  vs_total :: int64

definition vs_empty :: ValidatorSet where
  "vs_empty = \<lparr>Validators = [], Proposer = None, vs_total = 0\<rparr>"

definition IsNilOrEmpty :: "ValidatorSet option \<Rightarrow> bool" where
  "IsNilOrEmpty vals = (case vals of None \<Rightarrow> True | Some v \<Rightarrow> length (Validators v) = 0)"

fun validateAll :: "nat \<Rightarrow> Validator list \<Rightarrow> (valset_error, unit) res" where
  "validateAll idx [] = Ok ()"
| "validateAll idx (v # vs) =
     (case Validator_ValidateBasic (Some v) of
        Err e \<Rightarrow> Err (ErrInvalidValidator idx e)
      | Panic s \<Rightarrow> Panic s
      | Ok _ \<Rightarrow> validateAll (Suc idx) vs)"

definition ValidatorSet_ValidateBasic :: "ValidatorSet option \<Rightarrow> (valset_error, unit) res" where
  "ValidatorSet_ValidateBasic ov =
     (case ov of None \<Rightarrow> Err ErrEmptySet
      | Some vals \<Rightarrow>
          if IsNilOrEmpty (Some vals) then Err ErrEmptySet
          else res_bind (validateAll 0 (Validators vals)) (\<lambda>_.
            case Validator_ValidateBasic (Proposer vals) of
              Err e \<Rightarrow> Err (ErrProposer e) | r \<Rightarrow> r))"

subsection \<open>Total voting power\<close>

definition updateTotalVotingPower :: "ValidatorSet \<Rightarrow> ('e, ValidatorSet) res" where
  "updateTotalVotingPower vals =
     res_bind
       (res_fold (\<lambda>acc val.
           (let acc' = safeAddClip acc (VotingPower val)
            in if acc' > MaxTotalVotingPower
               then Panic ''Total voting power should be guarded to not exceed MaxTotalVotingPower''
               else Ok acc')) 0 (Validators vals))
       (\<lambda>t. Ok (vals\<lparr>vs_total := t\<rparr>))"

definition TotalVotingPower :: "ValidatorSet \<Rightarrow> ('e, ValidatorSet \<times> int64) res" where
  "TotalVotingPower vals =
     (if vs_total vals = 0
      then res_bind (updateTotalVotingPower vals) (\<lambda>vals'. Ok (vals', vs_total vals'))
      else Ok (vals, vs_total vals))"

subsection \<open>Proposer selection\<close>

definition set_prio :: "int64 \<Rightarrow> Validator \<Rightarrow> Validator" where
  "set_prio p v = v\<lparr>ProposerPriority := p\<rparr>"

definition maxMinPrio :: "Validator list \<Rightarrow> int64 \<times> int64" where
  "maxMinPrio vs =
     fold (\<lambda>v (mx, mn).
        (let mn' = (if ProposerPriority v < mn then ProposerPriority v else mn);
             mx' = (if ProposerPriority v > mx then ProposerPriority v else mx)
         in (mx', mn'))) vs (MinInt64, MaxInt64)"

definition computeMaxMinPriorityDiff :: "ValidatorSet \<Rightarrow> ('e, int64) res" where
  "computeMaxMinPriorityDiff vals =
     (if IsNilOrEmpty (Some vals) then Panic ''empty validator set''
      else (let (mx, mn) = maxMinPrio (Validators vals);
                diff = wrap64 (mx - mn)
            in Ok (if diff < 0 then wrap64 (-1 * diff) else diff)))"

definition RescalePriorities :: "ValidatorSet \<Rightarrow> int64 \<Rightarrow> ('e, ValidatorSet) res" where
  "RescalePriorities vals diffMax =
     (if IsNilOrEmpty (Some vals) then Panic ''empty validator set''
      else if diffMax \<le> 0 then Ok vals
      else res_bind (computeMaxMinPriorityDiff vals) (\<lambda>diff.
        (let ratio = wrap64 (wrap64 (diff + diffMax) - 1) sdiv diffMax
         in if diff > diffMax
            then if ratio = 0 then Panic ''integer divide by zero''
                 else Ok (vals\<lparr>Validators := map (\<lambda>v. set_prio (wrap64 (ProposerPriority v sdiv ratio)) v) (Validators vals)\<rparr>)
            else Ok vals)))"

definition computeAvgProposerPriority :: "ValidatorSet \<Rightarrow> ('e, int64) res" where
  "computeAvgProposerPriority vals =
     (let n = int (length (Validators vals));
          s = fold (\<lambda>v acc. acc + ProposerPriority v) (Validators vals) 0
      in if n = 0 then Panic ''division by zero''
         else (let avg = s div n
               in if is_int64 avg then Ok avg
                  else Panic ''Cannot represent avg ProposerPriority as an int64''))"

definition shiftByAvgProposerPriority :: "ValidatorSet \<Rightarrow> ('e, ValidatorSet) res" where
  "shiftByAvgProposerPriority vals =
     (if IsNilOrEmpty (Some vals) then Panic ''empty validator set''
      else res_bind (computeAvgProposerPriority vals) (\<lambda>avg.
        Ok (vals\<lparr>Validators := map (\<lambda>v. set_prio (safeSubClip (ProposerPriority v) avg) v) (Validators vals)\<rparr>)))"

definition getValWithMostPriority :: "Validator list \<Rightarrow> ('e, nat option) res" where
  "getValWithMostPriority vs =
     res_fold (\<lambda>r i. case r of None \<Rightarrow> Ok (Some i)
                    | Some j \<Rightarrow> res_bind (prioFirst (vs ! j) (vs ! i)) (\<lambda>b. Ok (Some (if b then j else i))))
       None [0..<length vs]"

definition incrementProposerPriority :: "ValidatorSet \<Rightarrow> ('e, ValidatorSet \<times> Validator) res" where
  "incrementProposerPriority vals =
     (let vs = map (\<lambda>v. set_prio (safeAddClip (ProposerPriority v) (VotingPower v)) v) (Validators vals)
      in res_bind (getValWithMostPriority vs) (\<lambda>most.
           case most of None \<Rightarrow> Panic ''nil pointer dereference''
           | Some m \<Rightarrow>
               res_bind (TotalVotingPower (vals\<lparr>Validators := vs\<rparr>)) (\<lambda>(vals', total).
                 (let mostest = set_prio (safeSubClip (ProposerPriority (vs ! m)) total) (vs ! m)
                  in Ok (vals'\<lparr>Validators := vs[m := mostest]\<rparr>, mostest)))))"

fun incrementTimes :: "nat \<Rightarrow> ValidatorSet \<Rightarrow> Validator option \<Rightarrow> ('e, ValidatorSet \<times> Validator option) res" where
  "incrementTimes 0 vals p = Ok (vals, p)"
| "incrementTimes (Suc k) vals p =
     res_bind (incrementProposerPriority vals) (\<lambda>(vals', q). incrementTimes k vals' (Some q))"

definition IncrementProposerPriority :: "ValidatorSet \<Rightarrow> int32 \<Rightarrow> ('e, ValidatorSet) res" where
  "IncrementProposerPriority vals tms =
     (if IsNilOrEmpty (Some vals) then Panic ''empty validator set''
      else if tms \<le> 0 then Panic ''Cannot call IncrementProposerPriority with non-positive times''
      else res_bind (TotalVotingPower vals) (\<lambda>(vals, total).
        (let diffMax = wrap64 (PriorityWindowSizeFactor * total)
         in res_bind (RescalePriorities vals diffMax) (\<lambda>vals.
            res_bind (shiftByAvgProposerPriority vals) (\<lambda>vals.
            res_bind (incrementTimes (nat tms) vals None) (\<lambda>(vals, proposer).
              Ok (vals\<lparr>Proposer := proposer\<rparr>)))))))"

definition vs_Copy :: "ValidatorSet \<Rightarrow> ValidatorSet" where
  "vs_Copy vals = \<lparr>Validators = map id (Validators vals), Proposer = Proposer vals, vs_total = vs_total vals\<rparr>"

definition CopyIncrementProposerPriority :: "ValidatorSet \<Rightarrow> int32 \<Rightarrow> ('e, ValidatorSet) res" where
  "CopyIncrementProposerPriority vals tms = IncrementProposerPriority (vs_Copy vals) tms"

definition findProposer :: "Validator list \<Rightarrow> ('e, Validator option) res" where
  "findProposer vs =
     res_fold (\<lambda>proposer val.
        if (case proposer of None \<Rightarrow> True | Some p \<Rightarrow> val_Address val \<noteq> val_Address p)
        then res_bind (CompareProposerPriority proposer val) (\<lambda>p. Ok (Some p))
        else Ok proposer) None vs"

definition GetProposer :: "ValidatorSet \<Rightarrow> ('e, ValidatorSet \<times> Validator option) res" where
  "GetProposer vals =
     (if length (Validators vals) = 0 then Ok (vals, None)
      else res_bind (case Proposer vals of
                       None \<Rightarrow> res_bind (findProposer (Validators vals)) (\<lambda>p. Ok (vals\<lparr>Proposer := p\<rparr>))
                     | Some p \<Rightarrow> Ok vals)
             (\<lambda>vals'. case Proposer vals' of None \<Rightarrow> Panic ''nil pointer dereference''
                      | Some p \<Rightarrow> Ok (vals', Some p)))"

definition findPreviousProposer :: "Validator list \<Rightarrow> ('e, nat option) res" where
  "findPreviousProposer vs =
     res_fold (\<lambda>r i. case r of None \<Rightarrow> Ok (Some i)
                    | Some j \<Rightarrow> res_bind (prioFirst (vs ! j) (vs ! i)) (\<lambda>b. Ok (Some (if b then i else j))))
       None [0..<length vs]"

subsection \<open>Lookups\<close>

definition HasAddress :: "Validator list \<Rightarrow> bytes \<Rightarrow> bool" where
  "HasAddress vs address = list_ex (\<lambda>v. val_Address v = address) vs"

fun getByAddressFrom :: "nat \<Rightarrow> Validator list \<Rightarrow> bytes \<Rightarrow> int32 \<times> Validator option" where
  "getByAddressFrom idx [] address = (-1, None)"
| "getByAddressFrom idx (v # vs) address =
     (if val_Address v = address then (wrap32 (int idx), Some v) else getByAddressFrom (Suc idx) vs address)"

definition GetByAddress :: "Validator list \<Rightarrow> bytes \<Rightarrow> int32 \<times> Validator option" where
  "GetByAddress vs address = getByAddressFrom 0 vs address"

definition GetByIndex :: "Validator list \<Rightarrow> int32 \<Rightarrow> (bytes \<times> Validator) option" where
  "GetByIndex vs index =
     (if index < 0 \<or> index \<ge> int (length vs) then None
      else (let v = vs ! nat index in Some (val_Address v, v)))"

definition vs_Size :: "ValidatorSet \<Rightarrow> int" where
  "vs_Size vals = int (length (Validators vals))"

definition ValidatorSet_Hash :: "env \<Rightarrow> ValidatorSet \<Rightarrow> ('e, bytes) res" where
  "ValidatorSet_Hash E vals =
     res_bind (res_fold (\<lambda>bzs v. res_bind (Validator_Bytes v) (\<lambda>b. Ok (bzs @ [b]))) [] (Validators vals))
       (\<lambda>bzs. Ok (HashFromByteSlices (Sum256 E) bzs))"

subsection \<open>Updates\<close>

definition sortByAddress :: "Validator list \<Rightarrow> Validator list" where
  "sortByAddress vs = sort_key val_Address vs"

definition sortByVotingPower :: "Validator list \<Rightarrow> Validator list" where
  "sortByVotingPower vs = sort_key (\<lambda>v. (- VotingPower v, val_Address v)) vs"

text \<open>The scan carries the previous address, at first nil, and the two lists.\<close>

fun scanChanges :: "Validator list \<Rightarrow> bytes \<Rightarrow> Validator list \<Rightarrow> Validator list \<Rightarrow>
    (valset_error, Validator list \<times> Validator list) res" where
  "scanChanges [] prevAddr updates removals = Ok (updates, removals)"
| "scanChanges (v # vs) prevAddr updates removals =
     (if val_Address v = prevAddr then Err (ErrDuplicateEntry (val_Address v))
      else if VotingPower v < 0 then Err ErrNegativePower
      else if VotingPower v > MaxTotalVotingPower then Err (ErrPowerTooHigh (VotingPower v))
      else if VotingPower v = 0 then scanChanges vs (val_Address v) updates (removals @ [v])
      else scanChanges vs (val_Address v) (updates @ [v]) removals)"

definition processChanges :: "Validator list \<Rightarrow> (valset_error, Validator list \<times> Validator list) res" where
  "processChanges origChanges = scanChanges (sortByAddress origChanges) [] [] []"

definition delta :: "Validator list \<Rightarrow> Validator \<Rightarrow> int64" where
  "delta vs update =
     (case snd (GetByAddress vs (val_Address update)) of
        Some val \<Rightarrow> wrap64 (VotingPower update - VotingPower val)
      | None \<Rightarrow> VotingPower update)"

definition verifyUpdates :: "Validator list \<Rightarrow> ValidatorSet \<Rightarrow> int64 \<Rightarrow> (valset_error, ValidatorSet \<times> int64) res" where
  "verifyUpdates updates vals removedPower =
     (let updatesCopy = sort_key (delta (Validators vals)) updates
      in res_bind (TotalVotingPower vals) (\<lambda>(vals, total).
           res_bind (res_fold (\<lambda>tvp upd.
                        (let tvp' = wrap64 (tvp + delta (Validators vals) upd)
                         in if tvp' > MaxTotalVotingPower then Err ErrTotalVotingPowerOverflow else Ok tvp'))
                      (wrap64 (total - removedPower)) updatesCopy)
             (\<lambda>tvpAfterRemovals. Ok (vals, wrap64 (tvpAfterRemovals + removedPower)))))"

definition numNewValidators :: "Validator list \<Rightarrow> Validator list \<Rightarrow> nat" where
  "numNewValidators updates vs = fold (\<lambda>u n. if \<not> HasAddress vs (val_Address u) then n + 1 else n) updates 0"

definition computeNewPriorities :: "Validator list \<Rightarrow> Validator list \<Rightarrow> int64 \<Rightarrow> Validator list" where
  "computeNewPriorities updates vs updatedTotalVotingPower =
     map (\<lambda>u. case snd (GetByAddress vs (val_Address u)) of
                None \<Rightarrow> set_prio (wrap64 (- wrap64 (updatedTotalVotingPower + updatedTotalVotingPower div 8))) u
              | Some val \<Rightarrow> set_prio (ProposerPriority val) u) updates"

fun mergeUpdates :: "Validator list \<Rightarrow> Validator list \<Rightarrow> Validator list" where
  "mergeUpdates (e # es) (u # us) =
     (if bytes_Compare (val_Address e) (val_Address u) < 0 then e # mergeUpdates es (u # us)
      else if val_Address e = val_Address u then u # mergeUpdates es us
      else u # mergeUpdates (e # es) us)"
| "mergeUpdates es us = es @ us"

definition applyUpdates :: "ValidatorSet \<Rightarrow> Validator list \<Rightarrow> ValidatorSet" where
  "applyUpdates vals updates = vals\<lparr>Validators := mergeUpdates (sortByAddress (Validators vals)) updates\<rparr>"

definition verifyRemovals :: "Validator list \<Rightarrow> Validator list \<Rightarrow> (valset_error, int64) res" where
  "verifyRemovals deletes vs =
     res_bind (res_fold (\<lambda>acc d.
         case snd (GetByAddress vs (val_Address d)) of
           None \<Rightarrow> Err (ErrRemoveUnknown (val_Address d))
         | Some val \<Rightarrow> Ok (wrap64 (acc + VotingPower val))) 0 deletes)
       (\<lambda>removed. if length deletes > length vs then Panic ''more deletes than validators'' else Ok removed)"

text \<open>
  Reading \<open>existing[0]\<close> past the end panics, and so does writing past the end of \<open>merged\<close>, whose
  length is the difference of the two lengths.
\<close>

fun dropRemovals :: "Validator list \<Rightarrow> Validator list \<Rightarrow> ('e, Validator list) res" where
  "dropRemovals es [] = Ok es"
| "dropRemovals [] (d # ds) = Panic ''index out of range''"
| "dropRemovals (e # es) (d # ds) =
     (if val_Address e = val_Address d then dropRemovals es ds
      else res_bind (dropRemovals es (d # ds)) (\<lambda>r. Ok (e # r)))"

definition applyRemovals :: "ValidatorSet \<Rightarrow> Validator list \<Rightarrow> ('e, ValidatorSet) res" where
  "applyRemovals vals deletes =
     (if length deletes > length (Validators vals) then Panic ''makeslice: len out of range''
      else res_bind (dropRemovals (Validators vals) deletes) (\<lambda>merged. Ok (vals\<lparr>Validators := merged\<rparr>)))"

definition updateWithChangeSet :: "ValidatorSet \<Rightarrow> Validator list \<Rightarrow> bool \<Rightarrow> (valset_error, ValidatorSet) res" where
  "updateWithChangeSet vals changes allowDeletes =
     (if length changes = 0 then Ok vals
      else res_bind (processChanges changes) (\<lambda>(updates, deletes).
        if \<not> allowDeletes \<and> length deletes \<noteq> 0 then Err ErrZeroPower
        else if numNewValidators updates (Validators vals) = 0 \<and> length (Validators vals) = length deletes
          then Err ErrWouldBeEmpty
        else
        res_bind (verifyRemovals deletes (Validators vals)) (\<lambda>removedVotingPower.
        res_bind (verifyUpdates updates vals removedVotingPower) (\<lambda>(vals, tvpAfterUpdatesBeforeRemovals).
        (let updates = computeNewPriorities updates (Validators vals) tvpAfterUpdatesBeforeRemovals;
             vals = applyUpdates vals updates
         in
        res_bind (applyRemovals vals deletes) (\<lambda>vals.
        res_bind (updateTotalVotingPower vals) (\<lambda>vals.
        res_bind (TotalVotingPower vals) (\<lambda>(vals, total).
        res_bind (RescalePriorities vals (wrap64 (PriorityWindowSizeFactor * total))) (\<lambda>vals.
        res_bind (shiftByAvgProposerPriority vals) (\<lambda>vals.
          Ok (vals\<lparr>Validators := sortByVotingPower (Validators vals)\<rparr>)))))))))))"

definition UpdateWithChangeSet :: "ValidatorSet \<Rightarrow> Validator list \<Rightarrow> (valset_error, ValidatorSet) res" where
  "UpdateWithChangeSet vals changes = updateWithChangeSet vals changes True"

definition NewValidatorSet :: "Validator list \<Rightarrow> (valset_error, ValidatorSet) res" where
  "NewValidatorSet valz =
     (case updateWithChangeSet vs_empty valz False of
        Err e \<Rightarrow> Panic ''Cannot create validator set''
      | Panic s \<Rightarrow> Panic s
      | Ok vals \<Rightarrow> if length valz > 0 then IncrementProposerPriority vals 1 else Ok vals)"

subsection \<open>Conversions\<close>

record protoValidatorSet =
  pvs_Validators :: "protoValidator list"
  pvs_Proposer :: "protoValidator option"
  pvs_TotalVotingPower :: int64

definition ValidatorSet_ToProto :: "ValidatorSet option \<Rightarrow> (valset_error, protoValidatorSet) res" where
  "ValidatorSet_ToProto ov =
     (case ov of None \<Rightarrow> Ok \<lparr>pvs_Validators = [], pvs_Proposer = None, pvs_TotalVotingPower = 0\<rparr>
      | Some vals \<Rightarrow>
          if IsNilOrEmpty (Some vals) then Ok \<lparr>pvs_Validators = [], pvs_Proposer = None, pvs_TotalVotingPower = 0\<rparr>
          else res_bind (res_fold (\<lambda>acc v. res_bind (Validator_ToProto (Some v)) (\<lambda>p. Ok (acc @ [p]))) [] (Validators vals))
            (\<lambda>valsProto. case Validator_ToProto (Proposer vals) of
               Err e \<Rightarrow> Err (ErrProposer e)
             | Panic s \<Rightarrow> Panic s
             | Ok p \<Rightarrow> Ok \<lparr>pvs_Validators = valsProto, pvs_Proposer = Some p, pvs_TotalVotingPower = 0\<rparr>))"

definition ValidatorSetFromProto :: "protoValidatorSet option \<Rightarrow> (valset_error, ValidatorSet) res" where
  "ValidatorSetFromProto ovp =
     (case ovp of None \<Rightarrow> Err ErrNilValidatorSet
      | Some vp \<Rightarrow>
          res_bind (res_fold (\<lambda>acc p. res_bind (ValidatorFromProto (Some p)) (\<lambda>v. Ok (acc @ [v]))) [] (pvs_Validators vp))
            (\<lambda>vs. case ValidatorFromProto (pvs_Proposer vp) of
               Err e \<Rightarrow> Err (ErrProposer e)
             | Panic s \<Rightarrow> Panic s
             | Ok p \<Rightarrow>
                 res_bind (TotalVotingPower \<lparr>Validators = vs, Proposer = Some p, vs_total = 0\<rparr>) (\<lambda>(vals, _).
                 res_bind (ValidatorSet_ValidateBasic (Some vals)) (\<lambda>_. Ok vals))))"

definition ValidatorSetFromExistingValidators :: "Validator list \<Rightarrow> (valset_error, ValidatorSet) res" where
  "ValidatorSetFromExistingValidators valz =
     (if length valz = 0 then Err ErrEmptySet
      else res_bind (res_fold (\<lambda>_ v. Validator_ValidateBasic (Some v)) () valz) (\<lambda>_.
           res_bind (findPreviousProposer valz) (\<lambda>prev.
           res_bind (updateTotalVotingPower
                       \<lparr>Validators = valz, Proposer = map_option (\<lambda>i. valz ! i) prev, vs_total = 0\<rparr>) (\<lambda>vals.
             Ok (vals\<lparr>Validators := sortByVotingPower (Validators vals)\<rparr>)))))"

end
