(* ===== verification/Proposer.thy ===== *)
theory Proposer
  imports ValidatorSet
begin

text \<open>
  Proposer selection: the arithmetic of the proposer priorities of \<open>types/validator_set.go\<close> is
  exact (no saturation and no wrap-around) while the total voting power respects its limit,
  rescaling brings the priorities into their window, and an increment keeps the set well formed. That the rotation is fair is
  shown in the theory \<open>Fairness\<close>.
\<close>

section \<open>Total voting power\<close>

abbreviation powers :: "Validator list \<Rightarrow> int" where
  "powers vs \<equiv> sum_list (map VotingPower vs)"

abbreviation prios :: "Validator list \<Rightarrow> int list" where
  "prios vs \<equiv> map ProposerPriority vs"

text \<open>
  What every list of validators in a set satisfies: distinct addresses, positive powers with a
  bounded sum, and priorities so far from the int64 limits that no sum of two of them overflows.
\<close>

definition vals_ok :: "Validator list \<Rightarrow> bool" where
  "vals_ok vs \<longleftrightarrow> distinct (map val_Address vs) \<and> (\<forall>v \<in> set vs. 0 < VotingPower v) \<and>
     powers vs \<le> MaxTotalVotingPower"

definition prio_ok :: "Validator list \<Rightarrow> bool" where
  "prio_ok vs \<longleftrightarrow> (\<forall>v \<in> set vs. \<bar>ProposerPriority v\<bar> \<le> 3 * MaxTotalVotingPower)"

lemma max_power [go_int]: "MaxTotalVotingPower = 1152921504606846975"
  by (simp add: MaxTotalVotingPower_def int_limits)

lemma max_nonneg [simp]: "0 \<le> MaxTotalVotingPower" "0 < MaxTotalVotingPower"
  by (simp_all add: max_power)

lemma powers_nonneg: "vals_ok vs \<Longrightarrow> 0 \<le> powers vs"
  by (rule sum_list_nonneg_int) (auto simp: vals_ok_def less_imp_le)

lemma power_le_powers: "vals_ok vs \<Longrightarrow> v \<in> set vs \<Longrightarrow> VotingPower v \<le> powers vs"
  by (rule member_le_sum_list_int) (auto simp: vals_ok_def less_imp_le)

lemma powers_pos: "vals_ok vs \<Longrightarrow> vs \<noteq> [] \<Longrightarrow> 0 < powers vs"
proof -
  assume vs: "vals_ok vs" "vs \<noteq> []"
  then have "0 < VotingPower (hd vs)" by (auto simp: vals_ok_def)
  also have "\<dots> \<le> powers vs" using vs by (intro power_le_powers) auto
  finally show ?thesis .
qed

lemma total_fold:
  assumes "0 \<le> acc" "\<forall>v \<in> set vs. 0 \<le> VotingPower v \<and> VotingPower v \<le> MaxInt64" "acc \<le> MaxTotalVotingPower"
  shows "res_fold (\<lambda>acc val. let acc' = safeAddClip acc (VotingPower val)
            in if acc' > MaxTotalVotingPower then Panic s else Ok acc') acc vs =
     (if acc + powers vs \<le> MaxTotalVotingPower then Ok (acc + powers vs) else Panic s)"
  using assms
proof (induction vs arbitrary: acc)
  case (Cons v vs)
  have nn: "0 \<le> powers vs" using Cons.prems by (intro sum_list_nonneg_int) auto
  have rng: "is_int64 acc" "is_int64 (VotingPower v)" "0 \<le> VotingPower v"
    using Cons.prems by (auto simp: is_int64_def max_power int_limits)
  show ?case
  proof (cases "acc + VotingPower v \<le> MaxTotalVotingPower")
    case True
    then have "safeAddClip acc (VotingPower v) = acc + VotingPower v"
      using rng Cons.prems by (intro safeAddClip_exact) (auto simp: is_int64_def max_power int_limits)
    then show ?thesis using True Cons.IH [of "acc + VotingPower v"] Cons.prems rng by (simp add: Let_def add.assoc)
  next
    case False
    then have "safeAddClip acc (VotingPower v) > MaxTotalVotingPower"
      using rng by (auto simp: safeAddClip_clamp clamp64_def max_power int_limits)
    then show ?thesis using False nn by (simp add: Let_def)
  qed
qed simp

lemma updateTotalVotingPower_eq:
  assumes "\<forall>v \<in> set (Validators vals). 0 \<le> VotingPower v \<and> VotingPower v \<le> MaxInt64"
  shows "updateTotalVotingPower vals =
    (if powers (Validators vals) \<le> MaxTotalVotingPower then Ok (vals\<lparr>vs_total := powers (Validators vals)\<rparr>)
     else Panic ''Total voting power should be guarded to not exceed MaxTotalVotingPower'')"
  using assms by (simp add: updateTotalVotingPower_def total_fold)

lemma vals_ok_range: "vals_ok vs \<Longrightarrow> \<forall>v \<in> set vs. 0 \<le> VotingPower v \<and> VotingPower v \<le> MaxInt64"
proof
  fix v assume vs: "vals_ok vs" and v: "v \<in> set vs"
  from power_le_powers [OF vs v] vs v show "0 \<le> VotingPower v \<and> VotingPower v \<le> MaxInt64"
    by (auto simp: vals_ok_def max_power int_limits)
qed

text \<open>The cached total is the sum, or zero when it has not been computed.\<close>

definition total_ok :: "ValidatorSet \<Rightarrow> bool" where
  "total_ok vals \<longleftrightarrow> vs_total vals = powers (Validators vals) \<or> vs_total vals = 0"

lemma TotalVotingPower_eq:
  assumes "vals_ok (Validators vals)" "total_ok vals"
  shows "TotalVotingPower vals = Ok (vals\<lparr>vs_total := powers (Validators vals)\<rparr>, powers (Validators vals))"
proof -
  have "powers (Validators vals) \<le> MaxTotalVotingPower" using assms(1) by (simp add: vals_ok_def)
  then show ?thesis
    using assms by (auto simp: TotalVotingPower_def total_ok_def updateTotalVotingPower_eq vals_ok_range)
qed

section \<open>Rescaling and centering\<close>

lemma set_prio_simps [simp]:
  "val_Address (set_prio p v) = val_Address v" "val_PubKey (set_prio p v) = val_PubKey v"
  "VotingPower (set_prio p v) = VotingPower v" "ProposerPriority (set_prio p v) = p"
  "set_prio q (set_prio p v) = set_prio q v" "set_prio (ProposerPriority v) v = v"
  by (simp_all add: set_prio_def)

lemma vals_ok_map_prio [simp]: "vals_ok (map (\<lambda>v. set_prio (f v) v) vs) = vals_ok vs"
  by (simp add: vals_ok_def o_def)

lemma maxMin_fold:
  "fold (\<lambda>v (mx, mn).
      (let mn' = (if ProposerPriority v < mn then ProposerPriority v else mn);
           mx' = (if ProposerPriority v > mx then ProposerPriority v else mx)
       in (mx', mn'))) vs (a, b) = (fold max (prios vs) a, fold min (prios vs) b)"
  by (induction vs arbitrary: a b) (auto simp: Let_def max_def min_def)

lemma fold_max:
  fixes a :: int
  assumes "xs \<noteq> []" "\<forall>x \<in> set xs. a \<le> x"
  shows "fold max xs a = Max (set xs)"
proof -
  have "a \<le> Max (set xs)" using assms by (auto simp: Max_ge_iff neq_Nil_conv)
  moreover have "fold max xs a = max a (Max (set xs))" using assms(1) Max.set_eq_fold [of a xs] by simp
  ultimately show ?thesis by (simp only: max_absorb2)
qed

lemma fold_min:
  fixes a :: int
  assumes "xs \<noteq> []" "\<forall>x \<in> set xs. x \<le> a"
  shows "fold min xs a = Min (set xs)"
proof -
  have "Min (set xs) \<le> a" using assms by (auto simp: Min_le_iff neq_Nil_conv)
  moreover have "fold min xs a = min a (Min (set xs))" using assms(1) Min.set_eq_fold [of a xs] by simp
  ultimately show ?thesis by (simp only: min_absorb2)
qed

definition spread :: "Validator list \<Rightarrow> int" where
  "spread vs = Max (set (prios vs)) - Min (set (prios vs))"

lemma spread_le_iff:
  "vs \<noteq> [] \<Longrightarrow> spread vs \<le> d \<longleftrightarrow> (\<forall>v \<in> set vs. \<forall>w \<in> set vs. ProposerPriority v - ProposerPriority w \<le> d)"
proof -
  assume ne: "vs \<noteq> []"
  let ?S = "set (prios vs)"
  have fin: "finite ?S" "?S \<noteq> {}" using ne by auto
  show ?thesis
  proof
    assume d: "spread vs \<le> d"
    show "\<forall>v \<in> set vs. \<forall>w \<in> set vs. ProposerPriority v - ProposerPriority w \<le> d"
    proof (intro ballI)
      fix v w assume "v \<in> set vs" "w \<in> set vs"
      then have "ProposerPriority v \<le> Max ?S" "Min ?S \<le> ProposerPriority w" by (auto intro: Max_ge Min_le)
      with d show "ProposerPriority v - ProposerPriority w \<le> d" by (simp add: spread_def)
    qed
  next
    assume d: "\<forall>v \<in> set vs. \<forall>w \<in> set vs. ProposerPriority v - ProposerPriority w \<le> d"
    have "Max ?S \<in> ?S" "Min ?S \<in> ?S" using fin by (auto intro: Max_in Min_in)
    with d show "spread vs \<le> d" by (auto simp: spread_def)
  qed
qed

lemma spread_nonneg: "vs \<noteq> [] \<Longrightarrow> 0 \<le> spread vs"
  by (simp add: spread_def Max_ge_iff)

lemma prio_ok_spread:
  assumes "prio_ok vs" "vs \<noteq> []"
  shows "spread vs \<le> 6 * MaxTotalVotingPower"
  unfolding spread_le_iff [OF assms(2)]
proof (intro ballI)
  fix v w assume "v \<in> set vs" "w \<in> set vs"
  then have "\<bar>ProposerPriority v\<bar> \<le> 3 * MaxTotalVotingPower" "\<bar>ProposerPriority w\<bar> \<le> 3 * MaxTotalVotingPower"
    using assms(1) by (auto simp: prio_ok_def)
  then show "ProposerPriority v - ProposerPriority w \<le> 6 * MaxTotalVotingPower" by linarith
qed

lemma computeMaxMinPriorityDiff_eq:
  assumes "Validators vals \<noteq> []" "prio_ok (Validators vals)"
  shows "computeMaxMinPriorityDiff vals = Ok (spread (Validators vals))"
proof -
  let ?vs = "Validators vals"
  have b: "\<forall>x \<in> set (prios ?vs). MinInt64 \<le> x \<and> x \<le> MaxInt64"
    using assms(2) by (auto simp: prio_ok_def max_power int_limits abs_le_iff)
  have "maxMinPrio ?vs = (Max (set (prios ?vs)), Min (set (prios ?vs)))"
    unfolding maxMinPrio_def maxMin_fold using b assms(1) by (subst fold_max fold_min; simp)+
  then obtain mx mn where m: "maxMinPrio ?vs = (mx, mn)" "mx - mn = spread ?vs" by (simp add: spread_def)
  have "wrap64 (spread ?vs) = spread ?vs" "0 \<le> spread ?vs"
    using prio_ok_spread [OF assms(2,1)] spread_nonneg [OF assms(1)]
    by (auto intro!: wrap64_id simp: is_int64_def max_power int_limits)
  then show ?thesis
    using assms(1) by (simp add: computeMaxMinPriorityDiff_def IsNilOrEmpty_def m Let_def)
qed

text \<open>Truncated division by the rounded-up ratio brings any spread into the window.\<close>

lemma ceil_ratio:
  fixes d :: int
  assumes "0 < D" "D < d"
  shows "d \<le> (d + D - 1) div D * D" "2 \<le> (d + D - 1) div D"
proof -
  have "d + D - 1 = (d + D - 1) div D * D + (d + D - 1) mod D" by simp
  moreover have "(d + D - 1) mod D \<le> D - 1" using assms by (simp add: pos_mod_bound)
  ultimately show "d \<le> (d + D - 1) div D * D" by linarith
  have "2 * D \<le> d + D - 1" using assms by linarith
  then have "(2 * D) div D \<le> (d + D - 1) div D" using assms by (intro zdiv_mono1) auto
  then show "2 \<le> (d + D - 1) div D" using assms by simp
qed

lemma div_diff_le:
  fixes x :: int
  assumes "0 < r" "x - y \<le> r * D" "0 \<le> D"
  shows "x div r - y div r \<le> D"
proof -
  have "x div r \<le> (y + r * D) div r" using assms by (intro zdiv_mono1) auto
  also have "\<dots> = y div r + D" using assms by simp
  finally show ?thesis by simp
qed

lemma div_add_le:
  fixes a :: int
  assumes "0 < r"
  shows "a div r + b div r \<le> (a + b) div r"
proof -
  have "(a div r) * r \<le> a" "(b div r) * r \<le> b"
    using assms div_mult_mod_eq [of a r] div_mult_mod_eq [of b r] pos_mod_sign [of r a] pos_mod_sign [of r b] by linarith+
  then have "(a div r + b div r) * r \<le> a + b" by (simp add: distrib_right)
  then have "((a div r + b div r) * r) div r \<le> (a + b) div r" using assms by (intro zdiv_mono1)
  then show ?thesis using assms by simp
qed

lemma sdiv_diff_le:
  fixes x :: int
  assumes "0 < r" "x - y \<le> r * D" "0 \<le> D"
  shows "x sdiv r - y sdiv r \<le> D"
proof -
  consider "0 \<le> x" "0 \<le> y" | "0 \<le> x" "y < 0" | "x < 0" "y < 0" | "x < 0" "0 \<le> y" by linarith
  then show ?thesis
  proof cases
    case 1
    then show ?thesis using assms div_diff_le [of r x y D] by (simp add: sdiv_nonneg)
  next
    case 2
    have "x div r + (- y) div r \<le> (x + - y) div r"
      using assms(1) by (rule div_add_le)
    also have "\<dots> \<le> (r * D) div r" using assms by (intro zdiv_mono1) auto
    finally show ?thesis using 2 assms by (simp add: sdiv_nonneg sdiv_neg)
  next
    case 3
    then show ?thesis using assms div_diff_le [of r "- y" "- x" D] by (simp add: sdiv_neg)
  next
    case 4
    then have "0 \<le> (- x) div r" "0 \<le> y div r" using assms by (simp_all add: pos_imp_zdiv_nonneg_iff)
    then show ?thesis using 4 assms by (simp add: sdiv_nonneg sdiv_neg)
  qed
qed

lemma abs_sdiv_le: "0 < (r::int) \<Longrightarrow> \<bar>x sdiv r\<bar> \<le> \<bar>x\<bar>"
proof -
  assume r: "0 < r"
  have "a div r \<le> a" if "0 \<le> a" for a using r that by (metis div_by_1 int_div_pos_eq zdiv_mono2 zero_less_one add_0 int_one_le_iff_zero_less)
  from this [of x] this [of "- x"] show ?thesis
    using r by (cases "0 \<le> x") (auto simp: sdiv_nonneg sdiv_neg pos_imp_zdiv_nonneg_iff)
qed

definition rescaled :: "int \<Rightarrow> Validator list \<Rightarrow> Validator list" where
  "rescaled D vs =
     (if spread vs > D
      then map (\<lambda>v. set_prio (ProposerPriority v sdiv ((spread vs + D - 1) div D)) v) vs else vs)"

definition centered :: "Validator list \<Rightarrow> Validator list" where
  "centered vs = map (\<lambda>v. set_prio (ProposerPriority v - sum_list (prios vs) div int (length vs)) v) vs"

lemma rescaled_simps [simp]:
  "map val_Address (rescaled D vs) = map val_Address vs" "map VotingPower (rescaled D vs) = map VotingPower vs"
  "length (rescaled D vs) = length vs" "vals_ok (rescaled D vs) = vals_ok vs" "rescaled D vs = [] \<longleftrightarrow> vs = []"
  by (simp_all add: rescaled_def)

lemma centered_simps [simp]:
  "map val_Address (centered vs) = map val_Address vs" "map VotingPower (centered vs) = map VotingPower vs"
  "length (centered vs) = length vs" "vals_ok (centered vs) = vals_ok vs" "centered vs = [] \<longleftrightarrow> vs = []"
  by (simp_all add: centered_def)

lemma rescaled_spread:
  assumes "0 < D" "vs \<noteq> []"
  shows "spread (rescaled D vs) \<le> D"
proof (cases "spread vs > D")
  case True
  let ?r = "(spread vs + D - 1) div D"
  have r: "0 < ?r" "spread vs \<le> ?r * D" using ceil_ratio [OF assms(1) True] by auto
  have "ProposerPriority v - ProposerPriority w \<le> ?r * D" if "v \<in> set vs" "w \<in> set vs" for v w
    using spread_le_iff [OF assms(2), of "spread vs"] that r by force
  then have "ProposerPriority v sdiv ?r - ProposerPriority w sdiv ?r \<le> D" if "v \<in> set vs" "w \<in> set vs" for v w
    using sdiv_diff_le [OF r(1)] that assms(1) by simp
  then show ?thesis using True assms(2) by (simp add: rescaled_def spread_le_iff)
qed (simp add: rescaled_def)

lemma rescaled_prio_ok:
  assumes "0 < D" "prio_ok vs"
  shows "prio_ok (rescaled D vs)"
proof (cases "spread vs > D")
  case True
  let ?r = "(spread vs + D - 1) div D"
  have "0 < ?r" using ceil_ratio [OF assms(1) True] by auto
  with assms(2) abs_sdiv_le [OF this] True show ?thesis
    by (fastforce simp: rescaled_def prio_ok_def intro: order_trans)
qed (use assms in \<open>simp add: rescaled_def\<close>)

lemma RescalePriorities_eq:
  assumes "Validators vals \<noteq> []" "prio_ok (Validators vals)" "0 < D" "D \<le> 2 * MaxTotalVotingPower"
  shows "RescalePriorities vals D = Ok (vals\<lparr>Validators := rescaled D (Validators vals)\<rparr>)"
proof -
  let ?vs = "Validators vals" and ?r = "(spread (Validators vals) + D - 1) div D"
  have sp: "0 \<le> spread ?vs" "spread ?vs \<le> 6 * MaxTotalVotingPower"
    using spread_nonneg prio_ok_spread assms(1,2) by auto
  then have w: "wrap64 (wrap64 (spread ?vs + D) - 1) = spread ?vs + D - 1"
    using assms(3,4) by (simp add: wrap64_id is_int64_def max_power int_limits)
  have s: "(spread ?vs + D - 1) sdiv D = ?r" using sp assms(3) by (intro sdiv_nonneg) auto
  have "?r \<noteq> 0" if "spread ?vs > D" using ceil_ratio(2) [OF assms(3) that] by linarith
  moreover have "map (\<lambda>v. set_prio (wrap64 (ProposerPriority v sdiv ?r)) v) ?vs =
      map (\<lambda>v. set_prio (ProposerPriority v sdiv ?r) v) ?vs" if "spread ?vs > D"
  proof (rule map_cong [OF refl])
    fix v assume v: "v \<in> set ?vs"
    have "0 < ?r" using ceil_ratio [OF assms(3) that] by auto
    then have "\<bar>ProposerPriority v sdiv ?r\<bar> \<le> 3 * MaxTotalVotingPower"
      using abs_sdiv_le [of ?r "ProposerPriority v"] assms(2) v by (force simp: prio_ok_def)
    then show "set_prio (wrap64 (ProposerPriority v sdiv ?r)) v = set_prio (ProposerPriority v sdiv ?r) v"
      by (subst wrap64_id) (auto simp: is_int64_def max_power int_limits abs_le_iff)
  qed
  ultimately show ?thesis
    using assms by (simp add: RescalePriorities_def computeMaxMinPriorityDiff_eq IsNilOrEmpty_def w s Let_def rescaled_def)
qed

text \<open>The average lies between the smallest and the largest priority.\<close>

lemma sum_list_bounds:
  fixes xs :: "int list"
  assumes "\<forall>x \<in> set xs. a \<le> x \<and> x \<le> b"
  shows "int (length xs) * a \<le> sum_list xs \<and> sum_list xs \<le> int (length xs) * b"
  using assms by (induction xs) (auto simp: algebra_simps)

lemma avg_bounds:
  fixes xs :: "int list"
  assumes "xs \<noteq> []" "\<forall>x \<in> set xs. a \<le> x \<and> x \<le> b"
  shows "a \<le> sum_list xs div int (length xs) \<and> sum_list xs div int (length xs) \<le> b"
proof -
  have n: "0 < int (length xs)" using assms(1) by simp
  note sum = sum_list_bounds [OF assms(2)]
  have "a = (int (length xs) * a) div int (length xs)" using n by simp
  also have "\<dots> \<le> sum_list xs div int (length xs)" using sum n by (intro zdiv_mono1) auto
  finally have "a \<le> sum_list xs div int (length xs)" .
  moreover have "sum_list xs div int (length xs) \<le> (int (length xs) * b) div int (length xs)"
    using sum n by (intro zdiv_mono1) auto
  ultimately show ?thesis using n by simp
qed

lemma fold_prio_sum: "fold (\<lambda>v acc. acc + ProposerPriority v) vs a = a + sum_list (prios vs)"
  by (induction vs arbitrary: a) auto

lemma avg_prio_bounds:
  assumes "vs \<noteq> []" "v \<in> set vs"
  shows "\<bar>ProposerPriority v - sum_list (prios vs) div int (length vs)\<bar> \<le> spread vs"
proof -
  have "\<forall>x \<in> set (prios vs). ProposerPriority v - spread vs \<le> x \<and> x \<le> ProposerPriority v + spread vs"
    using spread_le_iff [OF assms(1), of "spread vs"] assms(2) by force
  from avg_bounds [OF _ this] assms(1) show ?thesis by (auto simp: abs_le_iff)
qed

lemma shiftByAvgProposerPriority_eq:
  assumes "Validators vals \<noteq> []" "prio_ok (Validators vals)"
  shows "shiftByAvgProposerPriority vals = Ok (vals\<lparr>Validators := centered (Validators vals)\<rparr>)"
proof -
  let ?vs = "Validators vals" and ?avg = "sum_list (prios (Validators vals)) div int (length (Validators vals))"
  have "\<forall>x \<in> set (prios ?vs). - (3 * MaxTotalVotingPower) \<le> x \<and> x \<le> 3 * MaxTotalVotingPower"
    using assms(2) by (auto simp: prio_ok_def abs_le_iff)
  from avg_bounds [OF _ this] assms(1)
  have avg: "- (3 * MaxTotalVotingPower) \<le> ?avg" "?avg \<le> 3 * MaxTotalVotingPower" by auto
  then have i: "is_int64 ?avg" by (simp add: is_int64_def max_power int_limits)
  have "safeSubClip (ProposerPriority v) ?avg = ProposerPriority v - ?avg" if "v \<in> set ?vs" for v
  proof -
    have "\<bar>ProposerPriority v\<bar> \<le> 3 * MaxTotalVotingPower" using assms(2) that by (auto simp: prio_ok_def)
    then show ?thesis
      using avg by (intro safeSubClip_exact) (auto simp: is_int64_def max_power int_limits abs_le_iff)
  qed
  then show ?thesis
    using assms(1) i by (simp add: shiftByAvgProposerPriority_def computeAvgProposerPriority_def IsNilOrEmpty_def
        fold_prio_sum Let_def centered_def cong: map_cong)
qed

lemma centered_abs:
  "vs \<noteq> [] \<Longrightarrow> v \<in> set (centered vs) \<Longrightarrow> \<bar>ProposerPriority v\<bar> \<le> spread vs"
  using avg_prio_bounds by (auto simp: centered_def)

lemma centered_sum:
  assumes "vs \<noteq> []"
  shows "sum_list (prios (centered vs)) = sum_list (prios vs) mod int (length vs)"
proof -
  have "sum_list (map (\<lambda>v. ProposerPriority v - c) vs) = sum_list (prios vs) - int (length vs) * c" for c
    by (induction vs) (auto simp: algebra_simps)
  then show ?thesis by (simp add: centered_def o_def minus_mult_div_eq_mod)
qed

section \<open>Proposer selection\<close>

definition first :: "Validator \<Rightarrow> Validator \<Rightarrow> bool" where
  "first v w \<longleftrightarrow> ProposerPriority v > ProposerPriority w \<or>
     (ProposerPriority v = ProposerPriority w \<and> val_Address v < val_Address w)"

lemma prioFirst_eq: "val_Address v \<noteq> val_Address w \<Longrightarrow> prioFirst v w = Ok (first v w)"
  by (auto simp: prioFirst_def first_def Let_def)

fun pick :: "Validator list \<Rightarrow> nat \<Rightarrow> nat list \<Rightarrow> nat" where
  "pick vs j [] = j"
| "pick vs j (i # is) = pick vs (if first (vs ! j) (vs ! i) then j else i) is"

definition most :: "Validator list \<Rightarrow> nat" where
  "most vs = pick vs 0 [1..<length vs]"

text \<open>The winner is among the candidates and no candidate comes before it.\<close>

lemma first_total: "val_Address v \<noteq> val_Address w \<Longrightarrow> \<not> first v w \<Longrightarrow> first w v"
  by (auto simp: first_def)

lemma first_trans: "first u v \<Longrightarrow> first v w \<Longrightarrow> first u w"
  by (auto simp: first_def)

lemma pick_in: "pick vs j is \<in> insert j (set is)"
  by (induction vs j "is" rule: pick.induct) (auto split: if_splits)

lemma addr_neq:
  "distinct (map val_Address vs) \<Longrightarrow> i < length vs \<Longrightarrow> j < length vs \<Longrightarrow> i \<noteq> j \<Longrightarrow>
     val_Address (vs ! i) \<noteq> val_Address (vs ! j)"
  by (metis distinct_conv_nth length_map nth_map)

lemma pick_best:
  assumes "distinct (map val_Address vs)" "j < length vs" "set is \<subseteq> {..<length vs}"
  shows "\<forall>i \<in> insert j (set is). i = pick vs j is \<or> first (vs ! pick vs j is) (vs ! i)"
  using assms
proof (induction vs j "is" rule: pick.induct)
  case (2 vs j i "is")
  have ne: "val_Address (vs ! j) \<noteq> val_Address (vs ! i)" if "j \<noteq> i"
    using 2 that by (intro addr_neq) auto
  define k where "k = (if first (vs ! j) (vs ! i) then j else i)"
  have p: "pick vs j (i # is) = pick vs k is" by (simp add: k_def)
  have k: "k < length vs" "j = k \<or> first (vs ! k) (vs ! j)" "i = k \<or> first (vs ! k) (vs ! i)"
    using 2 ne first_total [of "vs ! j" "vs ! i"] by (auto simp: k_def)
  have best: "\<forall>x \<in> insert k (set is). x = pick vs k is \<or> first (vs ! pick vs k is) (vs ! x)"
    using "2.IH" [folded k_def] 2 k(1) by simp
  define q where "q = pick vs k is"
  have "k = q \<or> first (vs ! q) (vs ! k)" using best by (simp add: q_def)
  then have "x = q \<or> first (vs ! q) (vs ! x)" if "x = k \<or> first (vs ! k) (vs ! x)" for x
    using that first_trans by metis
  then show ?case using best k unfolding p by (simp flip: q_def)
qed simp

lemma most_lt: "vs \<noteq> [] \<Longrightarrow> most vs < length vs"
  using pick_in [of vs 0 "[1..<length vs]"] by (auto simp: most_def)

lemma most_best:
  assumes "distinct (map val_Address vs)" "i < length vs"
  shows "i = most vs \<or> first (vs ! most vs) (vs ! i)"
proof -
  have "i \<in> insert 0 (set [1..<length vs])" using assms(2) by auto
  moreover have "0 < length vs" using assms(2) by auto
  moreover have "set [1..<length vs] \<subseteq> {..<length vs}" by auto
  ultimately show ?thesis
    using pick_best [OF assms(1), of 0 "[1..<length vs]"] unfolding most_def by blast
qed

lemma most_max: "distinct (map val_Address vs) \<Longrightarrow> v \<in> set vs \<Longrightarrow> ProposerPriority v \<le> ProposerPriority (vs ! most vs)"
  by (metis first_def in_set_conv_nth less_imp_le most_best order_refl)

lemma getVal_fold:
  assumes "distinct (map val_Address vs)" "j < length vs" "set is \<subseteq> {..<length vs}" "distinct is" "j \<notin> set is"
  shows "res_fold (\<lambda>r i. case r of None \<Rightarrow> Ok (Some i)
             | Some j \<Rightarrow> res_bind (prioFirst (vs ! j) (vs ! i)) (\<lambda>b. Ok (Some (if b then j else i)))) (Some j) is
         = Ok (Some (pick vs j is))"
  using assms
proof (induction "is" arbitrary: j)
  case (Cons i "is")
  then have "val_Address (vs ! j) \<noteq> val_Address (vs ! i)"
    by (intro addr_neq) auto
  with Cons show ?case by (auto simp: prioFirst_eq)
qed simp

lemma getValWithMostPriority_eq:
  assumes "vs \<noteq> []" "distinct (map val_Address vs)"
  shows "getValWithMostPriority vs = Ok (Some (most vs))"
proof -
  have u: "[0..<length vs] = 0 # [1..<length vs]" using assms(1) by (simp add: upt_conv_Cons)
  show ?thesis
    unfolding getValWithMostPriority_def u res_fold.simps option.case res_bind.simps most_def
    using assms by (intro getVal_fold) auto
qed

section \<open>One round\<close>

definition bumped :: "Validator list \<Rightarrow> Validator list" where
  "bumped vs = map (\<lambda>v. set_prio (ProposerPriority v + VotingPower v) v) vs"

definition chosen :: "Validator list \<Rightarrow> nat" where
  "chosen vs = most (bumped vs)"

definition stepped :: "Validator list \<Rightarrow> Validator list" where
  "stepped vs = (let ws = bumped vs; m = chosen vs
     in ws[m := set_prio (ProposerPriority (ws ! m) - powers vs) (ws ! m)])"

text \<open>Priorities with room for one round on both sides of the int64 range.\<close>

definition roomy :: "Validator list \<Rightarrow> bool" where
  "roomy vs \<longleftrightarrow> (\<forall>v \<in> set vs. MinInt64 + powers vs \<le> ProposerPriority v \<and> ProposerPriority v + powers vs \<le> MaxInt64)"

lemma bumped_simps [simp]:
  "map val_Address (bumped vs) = map val_Address vs" "map VotingPower (bumped vs) = map VotingPower vs"
  "length (bumped vs) = length vs" "bumped vs = [] \<longleftrightarrow> vs = []"
  "i < length vs \<Longrightarrow> bumped vs ! i = set_prio (ProposerPriority (vs ! i) + VotingPower (vs ! i)) (vs ! i)"
  by (simp_all add: bumped_def)

lemma chosen_lt: "vs \<noteq> [] \<Longrightarrow> chosen vs < length vs"
  using most_lt [of "bumped vs"] by (simp add: chosen_def)

lemma stepped_nth:
  "i < length vs \<Longrightarrow> stepped vs ! i =
     set_prio (ProposerPriority (vs ! i) + VotingPower (vs ! i) - (if i = chosen vs then powers vs else 0)) (vs ! i)"
  by (simp add: stepped_def Let_def nth_list_update)

lemma length_stepped [simp]: "length (stepped vs) = length vs"
  by (simp add: stepped_def Let_def)

lemma stepped_simps [simp]:
  "map val_Address (stepped vs) = map val_Address vs" "map VotingPower (stepped vs) = map VotingPower vs"
  "stepped vs = [] \<longleftrightarrow> vs = []"
  by (auto intro!: nth_equalityI simp: stepped_nth simp flip: length_0_conv)

lemma vals_ok_cong:
  "map val_Address vs = map val_Address ws \<Longrightarrow> map VotingPower vs = map VotingPower ws \<Longrightarrow> vals_ok vs = vals_ok ws"
proof -
  assume eq: "map val_Address vs = map val_Address ws" "map VotingPower vs = map VotingPower ws"
  have "(\<forall>v \<in> set vs. 0 < VotingPower v) \<longleftrightarrow> (\<forall>p \<in> set (map VotingPower vs). 0 < p)" for vs by simp
  from this [of vs] this [of ws] eq show ?thesis by (simp only: vals_ok_def)
qed

lemma vals_ok_stepped [simp]: "vals_ok (stepped vs) = vals_ok vs"
  by (rule vals_ok_cong) simp_all

lemma incrementProposerPriority_eq:
  assumes "vals_ok (Validators vals)" "total_ok vals" "Validators vals \<noteq> []" "roomy (Validators vals)"
  shows "incrementProposerPriority vals =
    Ok (vals\<lparr>Validators := stepped (Validators vals), vs_total := powers (Validators vals)\<rparr>,
        stepped (Validators vals) ! chosen (Validators vals))"
proof -
  let ?vs = "Validators vals" and ?m = "chosen (Validators vals)"
  have m: "?m < length ?vs" using chosen_lt [OF assms(3)] .
  have rng: "MinInt64 + powers ?vs \<le> ProposerPriority v" "ProposerPriority v + powers ?vs \<le> MaxInt64"
    "0 < VotingPower v" "VotingPower v \<le> powers ?vs" if "v \<in> set ?vs" for v
    using assms(1,4) that power_le_powers by (auto simp: roomy_def vals_ok_def)
  have P: "0 \<le> powers ?vs" "powers ?vs \<le> MaxTotalVotingPower" using assms(1) powers_nonneg by (auto simp: vals_ok_def)
  have "safeAddClip (ProposerPriority v) (VotingPower v) = ProposerPriority v + VotingPower v" if "v \<in> set ?vs" for v
    using rng [OF that] P by (intro safeAddClip_exact) (auto simp: is_int64_def int_limits max_power)
  then have b: "map (\<lambda>v. set_prio (safeAddClip (ProposerPriority v) (VotingPower v)) v) ?vs = bumped ?vs"
    by (auto simp: bumped_def)
  have "distinct (map val_Address (bumped ?vs))" using assms(1) by (simp add: vals_ok_def)
  then have g: "getValWithMostPriority (bumped ?vs) = Ok (Some ?m)"
    using assms(3) by (simp only: getValWithMostPriority_eq chosen_def bumped_simps not_False_eq_True)
  have "vals_ok (bumped ?vs)" using assms(1) by (subst vals_ok_cong [of _ ?vs]) simp_all
  then have t: "TotalVotingPower (vals\<lparr>Validators := bumped ?vs\<rparr>) =
      Ok (vals\<lparr>Validators := bumped ?vs, vs_total := powers ?vs\<rparr>, powers ?vs)"
    using assms(2) by (subst TotalVotingPower_eq) (simp_all add: total_ok_def)
  have s: "safeSubClip (ProposerPriority (bumped ?vs ! ?m)) (powers ?vs) = ProposerPriority (bumped ?vs ! ?m) - powers ?vs"
    using rng [of "?vs ! ?m"] m P by (intro safeSubClip_exact) (auto simp: is_int64_def int_limits max_power)
  have n: "stepped ?vs ! ?m = set_prio (ProposerPriority (bumped ?vs ! ?m) - powers ?vs) (bumped ?vs ! ?m)"
    using m by (simp add: stepped_nth)
  show ?thesis
    unfolding incrementProposerPriority_def b Let_def
    by (simp only: g t s n res_bind.simps option.case prod.case) (simp add: stepped_def Let_def)
qed

section \<open>The exported operation\<close>

lemma res_bind_assoc: "res_bind (res_bind m f) g = res_bind m (\<lambda>x. res_bind (f x) g)"
  by (cases m) auto

definition byPower :: "Validator \<Rightarrow> int \<times> bytes" where
  "byPower v = (- VotingPower v, val_Address v)"

text \<open>The invariant of a validator set: what the updates establish and the rotation keeps.\<close>

definition wf_vals :: "ValidatorSet \<Rightarrow> bool" where
  "wf_vals vals \<longleftrightarrow> Validators vals \<noteq> [] \<and> vals_ok (Validators vals) \<and> prio_ok (Validators vals) \<and>
     total_ok vals \<and> sorted (map byPower (Validators vals))"

text \<open>The state in which the rounds start: rescaled to twice the total, then centered.\<close>

definition normed :: "Validator list \<Rightarrow> Validator list" where
  "normed vs = centered (rescaled (2 * powers vs) vs)"

lemma normed_simps [simp]:
  "map val_Address (normed vs) = map val_Address vs" "map VotingPower (normed vs) = map VotingPower vs"
  "length (normed vs) = length vs" "vals_ok (normed vs) = vals_ok vs" "normed vs = [] \<longleftrightarrow> vs = []"
  by (simp_all add: normed_def)

lemma normed_abs:
  assumes "vals_ok vs" "vs \<noteq> []" "v \<in> set (normed vs)"
  shows "\<bar>ProposerPriority v\<bar> \<le> 2 * powers vs"
proof -
  have "spread (rescaled (2 * powers vs) vs) \<le> 2 * powers vs"
    using powers_pos [OF assms(1,2)] assms(2) by (intro rescaled_spread) auto
  moreover have "\<bar>ProposerPriority v\<bar> \<le> spread (rescaled (2 * powers vs) vs)"
    using assms by (intro centered_abs) (auto simp: normed_def)
  ultimately show ?thesis by linarith
qed

text \<open>Everything up to the rounds, as \<open>IncrementProposerPriority\<close> does it.\<close>

definition normalize :: "ValidatorSet \<Rightarrow> ('e, ValidatorSet) res" where
  "normalize vals =
     res_bind (TotalVotingPower vals) (\<lambda>(vals, total).
       res_bind (RescalePriorities vals (wrap64 (PriorityWindowSizeFactor * total))) shiftByAvgProposerPriority)"

lemma normalize_eq:
  assumes "vals_ok (Validators vals)" "Validators vals \<noteq> []" "prio_ok (Validators vals)" "total_ok vals"
  shows "normalize vals = Ok (vals\<lparr>Validators := normed (Validators vals), vs_total := powers (Validators vals)\<rparr>)"
proof -
  let ?P = "powers (Validators vals)"
  have P: "0 < ?P" "?P \<le> MaxTotalVotingPower" using powers_pos assms by (auto simp: vals_ok_def)
  have w: "wrap64 (PriorityWindowSizeFactor * ?P) = 2 * ?P"
    unfolding PriorityWindowSizeFactor_def using P by (intro wrap64_id) (simp add: is_int64_def max_power int_limits)
  show ?thesis
    unfolding normalize_def TotalVotingPower_eq [OF assms(1,4)] res_bind.simps prod.case w
    using P assms by (subst RescalePriorities_eq)
      (simp_all add: shiftByAvgProposerPriority_eq rescaled_prio_ok normed_def)
qed

lemma IncrementProposerPriority_normalize:
  "IncrementProposerPriority vals tms =
     (if Validators vals = [] then Panic ''empty validator set''
      else if tms \<le> 0 then Panic ''Cannot call IncrementProposerPriority with non-positive times''
      else res_bind (normalize vals) (\<lambda>vals.
           res_bind (incrementTimes (nat tms) vals None) (\<lambda>(vals, proposer). Ok (vals\<lparr>Proposer := proposer\<rparr>))))"
proof -
  show ?thesis
    by (cases "TotalVotingPower vals :: ('a, _) res")
      (auto simp: IncrementProposerPriority_def normalize_def IsNilOrEmpty_def res_bind_assoc Let_def split_def)
qed

lemma sorted_byPower_cong:
  "map val_Address vs = map val_Address ws \<Longrightarrow> map VotingPower vs = map VotingPower ws \<Longrightarrow> map byPower vs = map byPower ws"
proof (rule nth_equalityI)
  assume eq: "map val_Address vs = map val_Address ws" "map VotingPower vs = map VotingPower ws"
  then have len: "length vs = length ws" by (metis length_map)
  then show "length (map byPower vs) = length (map byPower ws)" by simp
  fix i assume "i < length (map byPower vs)"
  then show "map byPower vs ! i = map byPower ws ! i"
    using eq len by (simp add: byPower_def) (metis nth_map)
qed

lemma roomy_normed: "vals_ok vs \<Longrightarrow> vs \<noteq> [] \<Longrightarrow> roomy (normed vs)"
proof -
  assume vs: "vals_ok vs" "vs \<noteq> []"
  have "powers vs \<le> MaxTotalVotingPower" "0 \<le> powers vs" using vs powers_nonneg by (auto simp: vals_ok_def)
  with normed_abs [OF vs] show ?thesis
    unfolding roomy_def by (fastforce simp: abs_le_iff max_power int_limits)
qed

lemma Increment_once_eq:
  assumes "wf_vals vals"
  shows "IncrementProposerPriority vals 1 =
    Ok (vals\<lparr>Validators := stepped (normed (Validators vals)), vs_total := powers (Validators vals),
             Proposer := Some (stepped (normed (Validators vals)) ! chosen (normed (Validators vals)))\<rparr>)"
proof -
  let ?vals = "vals\<lparr>Validators := normed (Validators vals), vs_total := powers (Validators vals)\<rparr>"
  have "vals_ok (Validators ?vals)" "total_ok ?vals" "Validators ?vals \<noteq> []" "roomy (Validators ?vals)"
    using assms roomy_normed by (auto simp: wf_vals_def total_ok_def)
  note inc = incrementProposerPriority_eq [OF this]
  show ?thesis
    using assms by (simp add: IncrementProposerPriority_normalize normalize_eq wf_vals_def inc)
qed

lemma Increment_once_wf:
  assumes "wf_vals vals" "IncrementProposerPriority vals 1 = Ok vals'"
  shows "wf_vals vals'"
proof -
  let ?vs = "Validators vals" and ?n = "normed (Validators vals)"
  have v: "vals_ok ?vs" "?vs \<noteq> []" using assms(1) by (auto simp: wf_vals_def)
  have P: "0 \<le> powers ?vs" "powers ?vs \<le> MaxTotalVotingPower" using v powers_nonneg by (auto simp: vals_ok_def)
  have vals': "Validators vals' = stepped ?n" "vs_total vals' = powers ?vs"
    using assms by (auto simp: Increment_once_eq)
  have "prio_ok (stepped ?n)"
    unfolding prio_ok_def
  proof
    fix v assume "v \<in> set (stepped ?n)"
    then obtain i where i: "i < length ?vs" "v = stepped ?n ! i" by (auto simp: in_set_conv_nth)
    have m: "?n ! i \<in> set ?n" using i by simp
    have "\<bar>ProposerPriority (?n ! i)\<bar> \<le> 2 * powers ?vs" using normed_abs [OF v m] .
    moreover have "0 < VotingPower (?n ! i)" using v m by (auto simp: vals_ok_def dest: vals_ok_map_prio [THEN iffD2]) (metis normed_simps(4) v(1) vals_ok_def)
    moreover have "VotingPower (?n ! i) \<le> powers ?vs" using power_le_powers [of ?n "?n ! i"] v m by simp
    ultimately show "\<bar>ProposerPriority v\<bar> \<le> 3 * MaxTotalVotingPower"
      using i P by (auto simp: stepped_nth abs_le_iff)
  qed
  moreover have "map byPower (stepped ?n) = map byPower ?vs" by (rule sorted_byPower_cong) simp_all
  ultimately show ?thesis
    using assms(1) by (simp add: wf_vals_def vals' total_ok_def)
qed

lemma chosen_normed_member:
  "vs \<noteq> [] \<Longrightarrow> stepped (normed vs) ! chosen (normed vs) \<in> set (stepped (normed vs))"
  using chosen_lt [of "normed vs"] by simp

lemma stepped_top:
  assumes "vals_ok vs" "vs \<noteq> []" "v \<in> set (stepped vs)"
  shows "ProposerPriority v \<le> ProposerPriority (stepped vs ! chosen vs) + powers vs"
proof -
  obtain i where i: "i < length vs" "v = stepped vs ! i" using assms(3) by (metis in_set_conv_nth length_stepped)
  have "bumped vs ! i \<in> set (bumped vs)" "distinct (map val_Address (bumped vs))"
    using i assms(1) by (auto simp del: bumped_simps(5) simp: vals_ok_def)
  from most_max [OF this(2,1)] have "ProposerPriority (bumped vs ! i) \<le> ProposerPriority (bumped vs ! chosen vs)"
    unfolding chosen_def .
  then show ?thesis using i chosen_lt [OF assms(2)] powers_nonneg [OF assms(1)] by (simp add: stepped_nth)
qed

section \<open>Properties\<close>

definition demo_vals :: ValidatorSet where
  "demo_vals = \<lparr>Validators =
     [\<lparr>val_Address = [1], val_PubKey = Ed25519 [1], VotingPower = 5, ProposerPriority = 0\<rparr>,
      \<lparr>val_Address = [2], val_PubKey = Ed25519 [2], VotingPower = 3, ProposerPriority = -2\<rparr>],
     Proposer = None, vs_total = 8\<rparr>"

lemma demo_wf: "wf_vals demo_vals"
  by (simp add: wf_vals_def demo_vals_def vals_ok_def prio_ok_def total_ok_def byPower_def max_power)

text \<open>
  C21: One increment of a well-formed validator set never panics and keeps it well formed: powers and
  addresses stay, the cached total is right, every priority stays within three times the largest
  total power, and the new proposer is a validator of the set whose priority was the largest.
\<close>

theorem increment_keeps_invariant:
  assumes "wf_vals vals"
  shows "\<exists>vals' p. IncrementProposerPriority vals 1 = Ok vals' \<and> wf_vals vals' \<and>
    map val_Address (Validators vals') = map val_Address (Validators vals) \<and>
    map VotingPower (Validators vals') = map VotingPower (Validators vals) \<and>
    vs_total vals' = sum_list (map VotingPower (Validators vals)) \<and>
    Proposer vals' = Some p \<and> p \<in> set (Validators vals') \<and>
    (\<forall>v \<in> set (Validators vals'). ProposerPriority v \<le> ProposerPriority p + vs_total vals')"
proof -
  let ?n = "normed (Validators vals)"
  let ?p = "stepped ?n ! chosen ?n"
  have v: "vals_ok (Validators vals)" "Validators vals \<noteq> []" using assms by (auto simp: wf_vals_def)
  have top: "\<forall>v \<in> set (stepped ?n). ProposerPriority v \<le> ProposerPriority ?p + powers (Validators vals)"
    using stepped_top [of ?n] v by simp
  show ?thesis
    by (intro exI conjI, rule Increment_once_eq [OF assms], rule Increment_once_wf [OF assms Increment_once_eq [OF assms]])
      (use top chosen_normed_member [OF v(2)] in simp_all)
qed

theorem increment_keeps_invariant_witness:
  "\<exists>vals' p. IncrementProposerPriority demo_vals 1 = Ok vals' \<and> wf_vals vals' \<and> Proposer vals' = Some p \<and> p \<in> set (Validators vals')"
  using increment_keeps_invariant [OF demo_wf] by blast

end
