(* ===== verification/Fairness.thy ===== *)
theory Fairness
  imports Complex_Main Proposer
begin

text \<open>
  The fairness of the proposer rotation (\<open>types/validator_set.go\<close>): over the rounds of one call of
  \<open>IncrementProposerPriority\<close>, and over many calls, each of which rescales and centers the priorities. The count of a validator
  differs from its share by what the priorities can move; they are bounded from below because their sum is not negative, and
  from above by an averaging argument that gives a harmonic number.
\<close>

section \<open>Many rounds\<close>

lemma stepped_sum:
  assumes "vs \<noteq> []"
  shows "sum_list (prios (stepped vs)) = sum_list (prios vs)"
proof -
  have "sum_list (prios (bumped vs)) = sum_list (prios vs) + powers vs"
    by (simp add: bumped_def o_def sum_list_addf)
  moreover have "chosen vs < length (bumped vs)" using chosen_lt [OF assms] by simp
  ultimately show ?thesis
    unfolding stepped_def Let_def by (subst sum_list_map_update) simp_all
qed

lemma sum_le_length_times:
  fixes xs :: "int list"
  assumes "\<forall>x \<in> set xs. x \<le> b"
  shows "sum_list xs \<le> int (length xs) * b"
  using assms by (induction xs) (auto simp: algebra_simps)

text \<open>
  With a sum that is not negative, the chosen validator's priority after the round stays above
  the negated total, and nobody else's falls.
\<close>

lemma stepped_lower:
  assumes "vals_ok vs" "vs \<noteq> []" "0 \<le> sum_list (prios vs)" "\<forall>v \<in> set vs. - L \<le> ProposerPriority v" "powers vs \<le> L"
  shows "\<forall>v \<in> set (stepped vs). - L \<le> ProposerPriority v"
proof
  fix v assume "v \<in> set (stepped vs)"
  then obtain i where i: "i < length vs" "v = stepped vs ! i" by (auto simp: in_set_conv_nth)
  show "- L \<le> ProposerPriority v"
  proof (cases "i = chosen vs")
    case False
    have "0 < VotingPower (vs ! i)" "- L \<le> ProposerPriority (vs ! i)" using i assms(1,4) by (auto simp: vals_ok_def)
    then show ?thesis using i False by (simp add: stepped_nth)
  next
    case True
    have "distinct (map val_Address (bumped vs))" using assms(1) by (simp add: vals_ok_def)
    then have "\<forall>x \<in> set (prios (bumped vs)). x \<le> ProposerPriority (bumped vs ! chosen vs)"
      using most_max by (auto simp: chosen_def)
    from sum_le_length_times [OF this]
    have "sum_list (prios (bumped vs)) \<le> int (length vs) * ProposerPriority (bumped vs ! chosen vs)" by simp
    moreover have "sum_list (prios (bumped vs)) = sum_list (prios vs) + powers vs"
      by (simp add: bumped_def o_def sum_list_addf)
    ultimately have "0 < int (length vs) * ProposerPriority (bumped vs ! chosen vs)"
      using assms(3) powers_pos [OF assms(1,2)] by linarith
    then have "0 < ProposerPriority (bumped vs ! chosen vs)"
      using assms(2) by (simp add: zero_less_mult_iff)
    then show ?thesis using i True assms(5) by (simp add: stepped_nth)
  qed
qed

text \<open>
  From above the priorities are bounded through averages: the sum of any \<open>j\<close> priorities stays below \<open>j\<close> times a level that
  rises from a common start to a harmonic multiple of the total power as \<open>j\<close> falls from \<open>n\<close> to 1. A round keeps this: either
  the chosen validator is among the \<open>j\<close>, who then gain no more than they lose, or it has at least their average and
  joins them to \<open>j + 1\<close>.
\<close>

definition harmonic :: "nat \<Rightarrow> real" where
  "harmonic n = (\<Sum>i = 1..n. 1 / real i)"

lemma harmonic_simps [simp]: "harmonic 0 = 0" "harmonic (Suc n) = harmonic n + 1 / real (Suc n)"
  by (simp_all add: harmonic_def)

lemma harmonic_mono: "m \<le> n \<Longrightarrow> harmonic m \<le> harmonic n"
  unfolding harmonic_def by (rule sum_mono2) auto

definition level :: "int \<Rightarrow> Validator list \<Rightarrow> nat \<Rightarrow> real" where
  "level A vs j = real_of_int A + real_of_int (powers vs) * (harmonic (length vs) - harmonic j)"

definition levelled :: "int \<Rightarrow> Validator list \<Rightarrow> bool" where
  "levelled A vs \<longleftrightarrow> (\<forall>J. J \<subseteq> {..<length vs} \<longrightarrow>
     real_of_int (\<Sum>i \<in> J. ProposerPriority (vs ! i)) \<le> real (card J) * level A vs (card J))"

lemma levelledI:
  assumes "vals_ok vs" "\<forall>v \<in> set vs. ProposerPriority v \<le> A"
  shows "levelled A vs"
  unfolding levelled_def
proof (intro allI impI)
  fix J assume J: "J \<subseteq> {..<length vs}"
  then have "card J \<le> length vs" using card_mono [of "{..<length vs}" J] by simp
  then have "real_of_int A \<le> level A vs (card J)"
    using harmonic_mono powers_nonneg [OF assms(1)] by (simp add: level_def)
  moreover have "(\<Sum>i \<in> J. ProposerPriority (vs ! i)) \<le> (\<Sum>i \<in> J. A)"
  proof (rule sum_mono)
    fix i assume "i \<in> J"
    then have "i < length vs" using J by auto
    then show "ProposerPriority (vs ! i) \<le> A" using assms(2) by simp
  qed
  then have "real_of_int (\<Sum>i \<in> J. ProposerPriority (vs ! i)) \<le> real (card J) * real_of_int A"
    by (metis of_int_le_iff of_int_mult of_int_of_nat_eq sum_constant)
  ultimately show "real_of_int (\<Sum>i \<in> J. ProposerPriority (vs ! i)) \<le> real (card J) * level A vs (card J)"
    by (meson mult_left_mono of_nat_0_le_iff order_trans)
qed

lemma sum_powers_le:
  assumes "vals_ok vs" "J \<subseteq> {..<length vs}"
  shows "(\<Sum>i \<in> J. VotingPower (vs ! i)) \<le> powers vs"
proof -
  have "(\<Sum>i \<in> J. VotingPower (vs ! i)) \<le> (\<Sum>i \<in> {..<length vs}. VotingPower (vs ! i))"
  proof (rule sum_mono2)
    fix i assume "i \<in> {..<length vs} - J"
    then have "0 < VotingPower (vs ! i)" using assms(1) by (simp add: vals_ok_def)
    then show "0 \<le> VotingPower (vs ! i)" by simp
  qed (use assms(2) in simp_all)
  also have "\<dots> = powers vs" by (simp add: sum_list_sum_nth atLeast0LessThan)
  finally show ?thesis .
qed

lemma chosen_top:
  assumes "vals_ok vs" "i < length vs"
  shows "ProposerPriority (vs ! i) + VotingPower (vs ! i) \<le> ProposerPriority (vs ! chosen vs) + VotingPower (vs ! chosen vs)"
proof -
  have "vs \<noteq> []" "bumped vs ! i \<in> set (bumped vs)" "distinct (map val_Address (bumped vs))"
    using assms by (auto simp del: bumped_simps(5) simp: vals_ok_def)
  from most_max [OF this(3,2)] chosen_lt [OF this(1)] assms(2) show ?thesis by (simp flip: chosen_def)
qed

lemma level_step:
  "real j * (real (Suc j) * level A vs (Suc j) + real_of_int (powers vs)) = real (Suc j) * (real j * level A vs j)"
proof -
  have "real (Suc j) * (1 / real (Suc j)) = 1" by simp
  then have "real (Suc j) * level A vs (Suc j) + real_of_int (powers vs) = real (Suc j) * level A vs j"
    unfolding level_def harmonic_simps by (simp only: algebra_simps) simp
  then show ?thesis by (simp only: mult.left_commute)
qed

lemma levelled_stepped:
  assumes "vals_ok vs" "vs \<noteq> []" "levelled A vs"
  shows "levelled A (stepped vs)"
  unfolding levelled_def
proof (intro allI impI)
  fix J assume J: "J \<subseteq> {..<length (stepped vs)}"
  let ?m = "chosen vs" and ?b = "\<lambda>i. ProposerPriority (vs ! i) + VotingPower (vs ! i)"
  have JV: "J \<subseteq> {..<length vs}" "finite J" using J finite_subset by auto
  have m: "?m < length vs" using chosen_lt [OF assms(2)] .
  have lv: "level A (stepped vs) = level A vs" by (intro ext) (simp add: level_def)
  have new: "(\<Sum>i \<in> J. ProposerPriority (stepped vs ! i)) = (\<Sum>i \<in> J. ?b i) - (if ?m \<in> J then powers vs else 0)"
  proof -
    have "(\<Sum>i \<in> J. ProposerPriority (stepped vs ! i)) = (\<Sum>i \<in> J. ?b i - (if i = ?m then powers vs else 0))"
      using JV by (intro sum.cong) (auto simp: stepped_nth)
    also have "\<dots> = (\<Sum>i \<in> J. ?b i) - (if ?m \<in> J then powers vs else 0)"
      using JV(2) by (simp only: sum_subtractf sum.delta)
    finally show ?thesis .
  qed
  show "real_of_int (\<Sum>i \<in> J. ProposerPriority (stepped vs ! i)) \<le> real (card J) * level A (stepped vs) (card J)"
  proof (cases "?m \<in> J")
    case True
    then have "(\<Sum>i \<in> J. ProposerPriority (stepped vs ! i)) \<le> (\<Sum>i \<in> J. ProposerPriority (vs ! i))"
      using sum_powers_le [OF assms(1) JV(1)] by (simp add: new sum.distrib)
    then show ?thesis using assms(3) JV(1) unfolding lv levelled_def by (meson of_int_le_iff order_trans)
  next
    case False
    let ?j = "card J"
    have "(\<Sum>i \<in> J. ?b i) \<le> (\<Sum>i \<in> J. ?b ?m)" using JV chosen_top [OF assms(1)] by (intro sum_mono) auto
    then have "int (Suc ?j) * (\<Sum>i \<in> J. ?b i) \<le> int ?j * (\<Sum>i \<in> insert ?m J. ?b i)"
      using False JV(2) by (simp add: algebra_simps)
    also have "\<dots> \<le> int ?j * ((\<Sum>i \<in> insert ?m J. ProposerPriority (vs ! i)) + powers vs)"
    proof (intro mult_left_mono)
      have "(\<Sum>i \<in> insert ?m J. VotingPower (vs ! i)) \<le> powers vs" using sum_powers_le [OF assms(1), of "insert ?m J"] JV(1) m by simp
      then show "(\<Sum>i \<in> insert ?m J. ?b i) \<le> (\<Sum>i \<in> insert ?m J. ProposerPriority (vs ! i)) + powers vs"
        unfolding sum.distrib by linarith
    qed simp
    finally have "real_of_int (int (Suc ?j) * (\<Sum>i \<in> J. ?b i)) \<le>
        real_of_int (int ?j * ((\<Sum>i \<in> insert ?m J. ProposerPriority (vs ! i)) + powers vs))" by (simp only: of_int_le_iff)
    then have "real (Suc ?j) * real_of_int (\<Sum>i \<in> J. ?b i) \<le>
        real ?j * (real_of_int (\<Sum>i \<in> insert ?m J. ProposerPriority (vs ! i)) + real_of_int (powers vs))"
      by (simp only: of_int_mult of_int_add of_int_of_nat_eq)
    also have "\<dots> \<le> real ?j * (real (Suc ?j) * level A vs (Suc ?j) + real_of_int (powers vs))"
    proof -
      have "insert ?m J \<subseteq> {..<length vs}" "card (insert ?m J) = Suc ?j" using JV m False by auto
      then have "real_of_int (\<Sum>i \<in> insert ?m J. ProposerPriority (vs ! i)) \<le> real (Suc ?j) * level A vs (Suc ?j)"
        using assms(3) unfolding levelled_def by metis
      then show ?thesis by (intro mult_left_mono) simp_all
    qed
    also have "\<dots> = real (Suc ?j) * (real ?j * level A vs ?j)" by (rule level_step)
    finally have "real_of_int (\<Sum>i \<in> J. ?b i) \<le> real ?j * level A vs ?j" by (simp only: mult_le_cancel_left_pos of_nat_0_less_iff zero_less_Suc)
    then show ?thesis using False unfolding lv new by simp
  qed
qed

lemma levelled_upper:
  assumes "levelled A vs" "v \<in> set vs"
  shows "real_of_int (ProposerPriority v) \<le> real_of_int A + real_of_int (powers vs) * (harmonic (length vs) - 1)"
proof -
  obtain i where i: "i < length vs" "v = vs ! i" using assms(2) by (auto simp: in_set_conv_nth)
  with assms(1) have "real_of_int (\<Sum>i \<in> {i}. ProposerPriority (vs ! i)) \<le> real (card {i}) * level A vs (card {i})"
    unfolding levelled_def by blast
  then show ?thesis using i by (simp add: level_def)
qed

text \<open>The validators chosen in \<open>k\<close> rounds, each with its priority after its round.\<close>

fun picks :: "nat \<Rightarrow> Validator list \<Rightarrow> Validator list" where
  "picks 0 vs = []"
| "picks (Suc k) vs = stepped vs ! chosen vs # picks k (stepped vs)"

lemma length_picks [simp]: "length (picks k vs) = k"
  by (induction k arbitrary: vs) auto

text \<open>
  Balanced priorities: a sum that is not negative, no priority below twice the negated total power, and levels that start
  at twice the total power. Centering establishes this and every round keeps it.
\<close>

definition balanced :: "Validator list \<Rightarrow> bool" where
  "balanced vs \<longleftrightarrow> vals_ok vs \<and> vs \<noteq> [] \<and> 0 \<le> sum_list (prios vs) \<and> levelled (2 * powers vs) vs \<and>
     (\<forall>v \<in> set vs. - (2 * powers vs) \<le> ProposerPriority v)"

lemma balanced_stepped: "balanced vs \<Longrightarrow> balanced (stepped vs)"
proof -
  assume b: "balanced vs"
  then have P: "0 \<le> powers vs" using powers_nonneg by (simp add: balanced_def)
  then show ?thesis
    using b stepped_lower [of vs "2 * powers vs"] levelled_stepped [of vs "2 * powers vs"] by (simp add: balanced_def stepped_sum)
qed

lemma balanced_upper:
  assumes "balanced vs" "v \<in> set vs"
  shows "real_of_int (ProposerPriority v) \<le> real_of_int (powers vs) * (1 + harmonic (length vs))"
  using levelled_upper [of "2 * powers vs" vs v] assms by (simp add: balanced_def algebra_simps)

text \<open>
  The largest priority that many rounds in a row can lead to, and one more round, fit an int64. The limit of the total
  power gives this for every set of up to 200 validators.
\<close>

definition fits :: "Validator list \<Rightarrow> bool" where
  "fits vs \<longleftrightarrow> real_of_int (powers vs) * (2 + harmonic (length vs)) \<le> real_of_int MaxInt64"

lemma balanced_roomy: "balanced vs \<Longrightarrow> fits vs \<Longrightarrow> roomy vs"
  unfolding roomy_def
proof
  fix v assume b: "balanced vs" "fits vs" and v: "v \<in> set vs"
  then have "powers vs \<le> MaxTotalVotingPower" "- (2 * powers vs) \<le> ProposerPriority v" by (auto simp: balanced_def vals_ok_def)
  moreover have "real_of_int (ProposerPriority v + powers vs) \<le> real_of_int MaxInt64"
    using balanced_upper [OF b(1) v] b(2) by (simp add: fits_def algebra_simps)
  ultimately show "MinInt64 + powers vs \<le> ProposerPriority v \<and> ProposerPriority v + powers vs \<le> MaxInt64"
    unfolding of_int_le_iff by (simp add: max_power int_limits)
qed

lemma fits_stepped [simp]: "fits (stepped vs) = fits vs"
  by (simp add: fits_def)

lemma harmonic_scaled:
  "real (N::nat) * harmonic n \<le> real (\<Sum>i \<leftarrow> [1..<Suc n]. N div i + 1)"
proof (induction n)
  case (Suc n)
  have "real N / real (Suc n) \<le> real (N div Suc n + 1)"
  proof -
    have "N < Suc n + Suc n * (N div Suc n)" by (rule dividend_less_times_div) simp
    also have "\<dots> = (N div Suc n + 1) * Suc n" by (simp add: algebra_simps)
    finally have "N < (N div Suc n + 1) * Suc n" .
    then have "real N \<le> real (N div Suc n + 1) * real (Suc n)" by (metis less_imp_le of_nat_le_iff of_nat_mult)
    then show ?thesis by (simp only: pos_divide_le_eq of_nat_0_less_iff zero_less_Suc)
  qed
  with Suc show ?case by (simp add: algebra_simps)
qed simp

lemma harmonic_200: "harmonic 200 \<le> 6"
proof -
  have "(\<Sum>i \<leftarrow> [1..<Suc 200]. (10000::nat) div i + 1) \<le> 60000" by (simp add: upt_conv_Cons flip: numeral_2_eq_2)
  then have "real 10000 * harmonic 200 \<le> 60000" using harmonic_scaled [of 10000 200] by linarith
  then show ?thesis by simp
qed

lemma fits_small: "vals_ok vs \<Longrightarrow> length vs \<le> 200 \<Longrightarrow> fits vs"
proof -
  assume vs: "vals_ok vs" "length vs \<le> 200"
  then have "2 + harmonic (length vs) \<le> 8" using harmonic_mono [of "length vs" 200] harmonic_200 by simp
  then have "real_of_int (powers vs) * (2 + harmonic (length vs)) \<le> real_of_int (powers vs) * 8"
    using powers_nonneg [OF vs(1)] by (intro mult_left_mono) auto
  moreover have "powers vs * 8 \<le> MaxInt64" using vs(1) by (simp add: vals_ok_def max_power int_limits)
  then have "real_of_int (powers vs) * 8 \<le> real_of_int MaxInt64"
    by (metis of_int_le_iff of_int_mult of_int_numeral)
  ultimately show ?thesis by (simp add: fits_def)
qed

lemma incrementTimes_eq:
  assumes "balanced (Validators vals)" "fits (Validators vals)" "total_ok vals"
  shows "incrementTimes (Suc k) vals q =
      Ok (vals\<lparr>Validators := (stepped ^^ Suc k) (Validators vals), vs_total := powers (Validators vals)\<rparr>,
          Some (last (picks (Suc k) (Validators vals))))"
  using assms
proof (induction k arbitrary: vals q)
  case 0
  then show ?case by (simp add: incrementProposerPriority_eq balanced_roomy balanced_def)
next
  case (Suc k)
  define vals' where "vals' = vals\<lparr>Validators := stepped (Validators vals), vs_total := powers (Validators vals)\<rparr>"
  have "balanced (Validators vals')" "fits (Validators vals')" "total_ok vals'"
    using Suc.prems by (simp_all add: vals'_def balanced_stepped total_ok_def)
  note ih = Suc.IH [OF this, of "Some (stepped (Validators vals) ! chosen (Validators vals))"]
  have "incrementTimes (Suc (Suc k)) vals q =
      incrementTimes (Suc k) vals' (Some (stepped (Validators vals) ! chosen (Validators vals)))"
    using Suc.prems by (subst incrementTimes.simps) (simp add: incrementProposerPriority_eq balanced_roomy balanced_def vals'_def del: incrementTimes.simps)
  also note ih
  finally show ?case by (simp add: vals'_def funpow_swap1 del: incrementTimes.simps)
qed

lemma last_picks: "j < k \<Longrightarrow> last (picks (Suc j) vs) = picks k vs ! j"
proof (induction k arbitrary: j vs)
  case (Suc k)
  then show ?case by (cases j) auto
qed simp

text \<open>A priority records what its validator was due and what it got.\<close>

lemma picks_count:
  assumes "vals_ok vs" "vs \<noteq> []" "i < length vs"
  shows "ProposerPriority ((stepped ^^ k) vs ! i) =
    ProposerPriority (vs ! i) + int k * VotingPower (vs ! i)
      - powers vs * int (count_list (map val_Address (picks k vs)) (val_Address (vs ! i)))"
  using assms
proof (induction k arbitrary: vs)
  case (Suc k)
  let ?c = "count_list (map val_Address (picks k (stepped vs))) (val_Address (vs ! i))"
  have nth: "val_Address (stepped vs ! i) = val_Address (vs ! i)" "VotingPower (stepped vs ! i) = VotingPower (vs ! i)"
    using Suc.prems by (simp_all add: stepped_nth)
  have c: "chosen vs < length vs" using chosen_lt Suc.prems by simp
  have iff: "val_Address (vs ! chosen vs) = val_Address (vs ! i) \<longleftrightarrow> i = chosen vs"
    using Suc.prems c addr_neq [of vs i "chosen vs"] by (metis vals_ok_def)
  have e1: "ProposerPriority ((stepped ^^ Suc k) vs ! i) =
      ProposerPriority (stepped vs ! i) + int k * VotingPower (vs ! i) - powers vs * int ?c"
    using Suc.IH [of "stepped vs"] Suc.prems nth by (simp add: funpow_swap1)
  have e2: "count_list (map val_Address (picks (Suc k) vs)) (val_Address (vs ! i)) = (if i = chosen vs then Suc ?c else ?c)"
    using c iff by (simp add: stepped_nth)
  show ?case unfolding e1 e2 using Suc.prems by (simp add: stepped_nth algebra_simps)
qed simp

lemma balanced_funpow: "balanced vs \<Longrightarrow> balanced ((stepped ^^ k) vs)"
  by (induction k) (auto intro: balanced_stepped)

lemma funpow_stepped_simps [simp]:
  "map val_Address ((stepped ^^ k) vs) = map val_Address vs"
  "map VotingPower ((stepped ^^ k) vs) = map VotingPower vs" "length ((stepped ^^ k) vs) = length vs"
  by (induction k) simp_all

text \<open>How far the count is from the share, in terms of the priorities before and after.\<close>

lemma count_bounds:
  assumes "vals_ok vs" "vs \<noteq> []" "i < length vs"
    and "\<bar>ProposerPriority (vs ! i)\<bar> \<le> 2 * powers vs" "- (2 * powers vs) \<le> ProposerPriority ((stepped ^^ k) vs ! i)"
    and "real_of_int (ProposerPriority ((stepped ^^ k) vs ! i)) \<le> u"
  defines "c \<equiv> int (count_list (map val_Address (picks k vs)) (val_Address (vs ! i)))"
  shows "powers vs * c \<le> int k * VotingPower (vs ! i) + 4 * powers vs"
    "real_of_int (int k * VotingPower (vs ! i)) \<le> real_of_int (powers vs * c) + real_of_int (2 * powers vs) + u"
proof -
  have e: "ProposerPriority ((stepped ^^ k) vs ! i) = ProposerPriority (vs ! i) + int k * VotingPower (vs ! i) - powers vs * c"
    unfolding c_def using assms(1-3) by (rule picks_count)
  show "powers vs * c \<le> int k * VotingPower (vs ! i) + 4 * powers vs" using e assms(4,5) by linarith
  have "real_of_int (int k * VotingPower (vs ! i)) \<le> real_of_int (powers vs * c + 2 * powers vs + ProposerPriority ((stepped ^^ k) vs ! i))"
    unfolding of_int_le_iff using e assms(4) by linarith
  then show "real_of_int (int k * VotingPower (vs ! i)) \<le> real_of_int (powers vs * c) + real_of_int (2 * powers vs) + u"
    using assms(6) by (simp only: of_int_add)
qed

section \<open>One call\<close>

lemma normed_balanced:
  assumes "vals_ok vs" "vs \<noteq> []"
  shows "balanced (normed vs)"
proof -
  have "0 < int (length vs)" using assms(2) by simp
  then have "0 \<le> sum_list (prios (normed vs))" using assms(2) by (simp add: normed_def centered_sum)
  moreover have "levelled (2 * powers vs) (normed vs)"
    using normed_abs [OF assms] assms by (intro levelledI) (fastforce simp: abs_le_iff)+
  moreover have "\<forall>v \<in> set (normed vs). - (2 * powers vs) \<le> ProposerPriority v"
    using normed_abs [OF assms] by (fastforce simp: abs_le_iff)
  ultimately show ?thesis using assms by (simp add: balanced_def)
qed

lemma Increment_eq:
  assumes "wf_vals vals" "0 < tms" "fits (Validators vals)"
  shows "IncrementProposerPriority vals tms =
    Ok (vals\<lparr>Validators := (stepped ^^ nat tms) (normed (Validators vals)), vs_total := powers (Validators vals),
             Proposer := Some (last (picks (nat tms) (normed (Validators vals))))\<rparr>)"
proof -
  let ?vals = "vals\<lparr>Validators := normed (Validators vals), vs_total := powers (Validators vals)\<rparr>"
  obtain k where k: "nat tms = Suc k" using assms(2) by (metis nat_0_iff not0_implies_Suc not_less)
  have "balanced (Validators ?vals)" "fits (Validators ?vals)" "total_ok ?vals"
    using assms normed_balanced by (auto simp: wf_vals_def fits_def total_ok_def)
  note inc = incrementTimes_eq [OF this, of k None]
  show ?thesis
    using assms by (simp add: IncrementProposerPriority_normalize normalize_eq wf_vals_def k inc del: incrementTimes.simps picks.simps)
qed

lemma same_powers:
  "map val_Address vs = map val_Address ws \<Longrightarrow> map VotingPower vs = map VotingPower ws \<Longrightarrow> i < length vs \<Longrightarrow>
    val_Address (ws ! i) = val_Address (vs ! i) \<and> VotingPower (ws ! i) = VotingPower (vs ! i)"
  by (metis length_map nth_map)

lemma fair_normed:
  fixes k :: nat
  assumes "wf_vals vals" "v \<in> set (Validators vals)"
    and u: "\<And>w. w \<in> set ((stepped ^^ k) (normed (Validators vals))) \<Longrightarrow> real_of_int (ProposerPriority w) \<le> u"
  defines "vs \<equiv> Validators vals" and "c \<equiv> int (count_list (map val_Address (picks k (normed (Validators vals)))) (val_Address v))"
  shows "powers vs * c \<le> int k * VotingPower v + 4 * powers vs"
    "real_of_int (int k * VotingPower v) \<le> real_of_int (powers vs * c) + real_of_int (2 * powers vs) + u"
proof -
  have ok: "vals_ok vs" "vs \<noteq> []" using assms(1) by (auto simp: wf_vals_def vs_def)
  obtain i where i: "i < length vs" "v = vs ! i" using assms(2) by (auto simp: in_set_conv_nth vs_def)
  have eq: "val_Address (normed vs ! i) = val_Address v" "VotingPower (normed vs ! i) = VotingPower v"
    using same_powers [of vs "normed vs" i] i by auto
  have in_k: "(stepped ^^ k) (normed vs) ! i \<in> set ((stepped ^^ k) (normed vs))" using i(1) by simp
  have "- (2 * powers (normed vs)) \<le> ProposerPriority ((stepped ^^ k) (normed vs) ! i)"
    using balanced_funpow [OF normed_balanced [OF ok], of k] in_k by (auto simp: balanced_def)
  moreover have "\<bar>ProposerPriority (normed vs ! i)\<bar> \<le> 2 * powers (normed vs)" using normed_abs [OF ok, of "normed vs ! i"] i by simp
  moreover have "real_of_int (ProposerPriority ((stepped ^^ k) (normed vs) ! i)) \<le> u" using u in_k by (simp add: vs_def)
  ultimately show "powers vs * c \<le> int k * VotingPower v + 4 * powers vs"
    "real_of_int (int k * VotingPower v) \<le> real_of_int (powers vs * c) + real_of_int (2 * powers vs) + u"
    using count_bounds [of "normed vs" i k u] ok i(1) by (simp_all add: eq c_def vs_def [symmetric])
qed

section \<open>Repeated calls\<close>

text \<open>
  Consensus calls \<open>IncrementProposerPriority(1)\<close> once for each height. Every call rescales and centers before its round; here
  are the sets after each of \<open>k\<close> calls.
\<close>

fun heights :: "nat \<Rightarrow> ValidatorSet \<Rightarrow> ('e, ValidatorSet list) res" where
  "heights 0 vals = Ok []"
| "heights (Suc k) vals =
     res_bind (IncrementProposerPriority vals 1) (\<lambda>vals'.
       res_bind (heights k vals') (\<lambda>sets. Ok (vals' # sets)))"

text \<open>Whether the next call finds the priorities outside the window and divides them.\<close>

definition rescales :: "ValidatorSet \<Rightarrow> bool" where
  "rescales vals \<longleftrightarrow> (case computeMaxMinPriorityDiff vals :: (valset_error, int64) res of
     Ok diff \<Rightarrow> PriorityWindowSizeFactor * powers (Validators vals) < diff | _ \<Rightarrow> False)"

lemma rescales_iff: "wf_vals vals \<Longrightarrow> rescales vals \<longleftrightarrow> 2 * powers (Validators vals) < spread (Validators vals)"
  by (simp add: rescales_def wf_vals_def computeMaxMinPriorityDiff_eq PriorityWindowSizeFactor_def)

lemma set_prio_id: "(\<And>v. v \<in> set vs \<Longrightarrow> f v = ProposerPriority v) \<Longrightarrow> map (\<lambda>v. set_prio (f v) v) vs = vs"
  by (rule map_idI) simp

lemma normed_id:
  assumes "spread vs \<le> 2 * powers vs" "0 \<le> sum_list (prios vs)" "sum_list (prios vs) < int (length vs)"
  shows "normed vs = vs"
proof -
  have "rescaled (2 * powers vs) vs = vs" using assms(1) by (simp add: rescaled_def)
  moreover have "sum_list (prios vs) div int (length vs) = 0" using assms(2,3) by (rule div_pos_pos_trivial)
  ultimately show ?thesis by (simp add: normed_def centered_def set_prio_id)
qed

lemma normed_sum:
  assumes "vs \<noteq> []"
  shows "0 \<le> sum_list (prios (normed vs))" "sum_list (prios (normed vs)) < int (length vs)"
proof -
  have "0 < int (length vs)" using assms by simp
  then show "0 \<le> sum_list (prios (normed vs))" "sum_list (prios (normed vs)) < int (length vs)"
    using assms by (simp_all add: normed_def centered_sum)
qed

lemma heights_Ok:
  assumes "wf_vals vals"
  shows "\<exists>sets ps. heights k vals = (Ok sets :: ('e, _) res) \<and> map Proposer sets = map Some ps \<and> length ps = k \<and> (\<forall>s \<in> set sets. wf_vals s)"
  using assms
proof (induction k arbitrary: vals)
  case (Suc k)
  define p where "p = stepped (normed (Validators vals)) ! chosen (normed (Validators vals))"
  define vals' where "vals' = vals\<lparr>Validators := stepped (normed (Validators vals)), vs_total := powers (Validators vals), Proposer := Some p\<rparr>"
  note inc = Increment_once_eq [OF Suc.prems, folded p_def, folded vals'_def]
  note wf' = Increment_once_wf [OF Suc.prems inc]
  from Suc.IH [OF wf'] obtain sets ps where "heights k vals' = (Ok sets :: ('e, _) res)" "map Proposer sets = map Some ps"
    "length ps = k" "\<forall>s \<in> set sets. wf_vals s" by blast
  then show ?case using wf' by (intro exI [of _ "vals' # sets"] exI [of _ "p # ps"]) (simp add: inc, simp add: vals'_def)
qed simp

text \<open>While no call rescales, the calls are rounds in a row.\<close>

lemma heights_rounds:
  assumes "wf_vals vals" "heights k vals = (Ok sets :: ('e, _) res)" "\<forall>s \<in> set (butlast sets). \<not> rescales s"
  shows "map Proposer sets = map Some (picks k (normed (Validators vals))) \<and>
    (\<forall>v \<in> set ((stepped ^^ (k - 1)) (normed (Validators vals))). \<bar>ProposerPriority v\<bar> \<le> 2 * powers (Validators vals))"
  using assms
proof (induction k arbitrary: vals sets)
  case 0
  then show ?case using normed_abs by (simp add: wf_vals_def)
next
  case (Suc k)
  let ?n = "normed (Validators vals)"
  define vals' where "vals' = vals\<lparr>Validators := stepped ?n, vs_total := powers (Validators vals), Proposer := Some (stepped ?n ! chosen ?n)\<rparr>"
  note inc = Increment_once_eq [OF Suc.prems(1), folded vals'_def]
  obtain rest where v: "heights k vals' = (Ok rest :: ('e, _) res)" "sets = vals' # rest"
    using Suc.prems(2) by (auto simp: inc res_simps)
  note wf' = Increment_once_wf [OF Suc.prems(1) inc]
  have vs: "vals_ok (Validators vals)" "Validators vals \<noteq> []" using Suc.prems(1) by (auto simp: wf_vals_def)
  have v': "Validators vals' = stepped ?n" "Proposer vals' = Some (stepped ?n ! chosen ?n)" by (simp_all add: vals'_def)
  show ?case
  proof (cases k)
    case 0
    then show ?thesis using v v' normed_abs [OF vs] by auto
  next
    case (Suc j)
    then have "rest \<noteq> []" using v(1) heights_Ok [OF wf', of k, where 'e = 'e] by auto
    then have no: "\<not> rescales vals'" "\<forall>s \<in> set (butlast rest). \<not> rescales s" using Suc.prems(3) v(2) by auto
    have "normed (stepped ?n) = stepped ?n"
      using no(1) normed_sum [OF vs(2)] vs(2) by (intro normed_id) (simp_all add: rescales_iff [OF wf'] v' stepped_sum)
    then show ?thesis using Suc.IH [OF wf' v(1) no(2)] v(2) v' Suc by (simp add: funpow_swap1)
  qed
qed

lemma last_round_upper:
  assumes "vals_ok vs" "vs \<noteq> []" "\<forall>v \<in> set ((stepped ^^ (k - 1)) (normed vs)). \<bar>ProposerPriority v\<bar> \<le> 2 * powers vs"
    "w \<in> set ((stepped ^^ k) (normed vs))"
  shows "ProposerPriority w \<le> 3 * powers vs"
proof (cases k)
  case 0
  then show ?thesis using assms powers_nonneg [OF assms(1)] by (auto simp: abs_le_iff)
next
  case (Suc j)
  let ?ws = "(stepped ^^ j) (normed vs)"
  have ok: "vals_ok ?ws" using assms(1) balanced_funpow [OF normed_balanced [OF assms(1,2)], of j] by (simp add: balanced_def)
  obtain i where i: "i < length ?ws" "w = stepped ?ws ! i" using assms(4) Suc by (auto simp: in_set_conv_nth)
  have "ProposerPriority (?ws ! i) \<le> 2 * powers vs" "VotingPower (?ws ! i) \<le> powers vs"
    using assms(3) Suc i(1) power_le_powers [OF ok nth_mem [OF i(1)]] by (auto simp: abs_le_iff)
  then show ?thesis using i powers_nonneg [OF assms(1)] by (auto simp: stepped_nth)
qed

text \<open>With equal powers a round does not widen the priorities beyond the total power.\<close>

lemma equal_powers_stepped:
  assumes "vals_ok vs" "vs \<noteq> []" "\<forall>v \<in> set vs. \<forall>w \<in> set vs. VotingPower v = VotingPower w"
    and "spread vs \<le> d" "powers vs \<le> d"
  shows "spread (stepped vs) \<le> d"
proof -
  let ?p = "\<lambda>i. ProposerPriority (vs ! i)" and ?m = "chosen vs"
  have m: "?m < length vs" using chosen_lt [OF assms(2)] .
  have eq: "VotingPower (vs ! i) = VotingPower (vs ! ?m)" if "i < length vs" for i
    using assms(3) that m nth_mem by blast
  have P: "0 \<le> powers vs" using powers_nonneg [OF assms(1)] .
  have d: "?p i - ?p j \<le> d" "?p i \<le> ?p ?m" if "i < length vs" "j < length vs" for i j
    using assms(4) that chosen_top [OF assms(1) that(1)] eq [OF that(1)] unfolding spread_le_iff [OF assms(2)] by auto
  have "ProposerPriority (stepped vs ! i) - ProposerPriority (stepped vs ! j) \<le> d" if "i < length vs" "j < length vs" for i j
    using d [OF that] d [OF m that(2)] d [OF that(1) m] eq [OF that(1)] eq [OF that(2)] P assms(5) that
    by (auto simp: stepped_nth)
  then have "\<forall>v \<in> set (stepped vs). \<forall>w \<in> set (stepped vs). ProposerPriority v - ProposerPriority w \<le> d"
    by (metis in_set_conv_nth length_stepped)
  then show ?thesis using spread_le_iff [of "stepped vs" d] assms(2) by simp
qed

lemma equal_powers_cong:
  assumes "map VotingPower vs = map VotingPower ws" "\<forall>v \<in> set vs. \<forall>w \<in> set vs. VotingPower v = VotingPower w"
  shows "\<forall>v \<in> set ws. \<forall>w \<in> set ws. VotingPower v = VotingPower w"
proof (intro ballI)
  fix v w assume "v \<in> set ws" "w \<in> set ws"
  then have "VotingPower v \<in> set (map VotingPower vs)" "VotingPower w \<in> set (map VotingPower vs)" unfolding assms(1) by simp_all
  then obtain a b where "a \<in> set vs" "b \<in> set vs" "VotingPower v = VotingPower a" "VotingPower w = VotingPower b" by auto
  then show "VotingPower v = VotingPower w" using assms(2) by metis
qed

lemma spread_centered: "vs \<noteq> [] \<Longrightarrow> spread vs \<le> d \<Longrightarrow> spread (centered vs) \<le> d"
  using spread_le_iff [of "centered vs" d] by (simp add: spread_le_iff) (simp add: centered_def)

lemma equal_powers_never:
  assumes "wf_vals vals" "\<forall>v \<in> set (Validators vals). \<forall>w \<in> set (Validators vals). VotingPower v = VotingPower w"
    and "heights k vals = (Ok sets :: ('e, _) res)"
  shows "\<forall>s \<in> set sets. \<not> rescales s"
  using assms
proof (induction k arbitrary: vals sets)
  case (Suc k)
  let ?vs = "Validators vals" and ?n = "normed (Validators vals)"
  define vals' where "vals' = vals\<lparr>Validators := stepped ?n, vs_total := powers ?vs, Proposer := Some (stepped ?n ! chosen ?n)\<rparr>"
  note inc = Increment_once_eq [OF Suc.prems(1), folded vals'_def]
  obtain rest where v: "heights k vals' = (Ok rest :: ('e, _) res)" "sets = vals' # rest"
    using Suc.prems(3) by (auto simp: inc res_simps)
  note wf' = Increment_once_wf [OF Suc.prems(1) inc]
  have vs: "vals_ok ?vs" "?vs \<noteq> []" using Suc.prems(1) by (auto simp: wf_vals_def)
  have v': "Validators vals' = stepped ?n" by (simp add: vals'_def)
  have eq: "\<forall>v \<in> set ?n. \<forall>w \<in> set ?n. VotingPower v = VotingPower w"
    "\<forall>v \<in> set (stepped ?n). \<forall>w \<in> set (stepped ?n). VotingPower v = VotingPower w"
    by (rule equal_powers_cong [OF _ Suc.prems(2)], simp)+
  have "spread ?n \<le> 2 * powers ?n"
    using spread_centered [OF _ rescaled_spread [of "2 * powers ?vs" ?vs]] powers_pos [OF vs] vs(2) by (simp add: normed_def)
  then have "spread (stepped ?n) \<le> 2 * powers ?n"
    by (intro equal_powers_stepped eq(1)) (use vs powers_nonneg [OF vs(1)] in simp_all)
  then have "\<not> rescales vals'" using rescales_iff [OF wf'] by (simp add: v')
  then show ?case using Suc.IH [OF wf' eq(2) [folded v'] v(1)] v(2) by simp
qed simp

section \<open>Properties\<close>

text \<open>
  C17: The rotation within one call is fair. For a well-formed set, and up to any \<open>int32\<close> number \<open>k\<close> of rounds, take the
  proposers that \<open>IncrementProposerPriority(1)\<close>, \<open>\<dots>\<close>, \<open>IncrementProposerPriority(k)\<close> give to the set: a validator is among
  them in proportion to its share of the voting power. Its count times the total power exceeds \<open>k\<close> times its power by at most four
  times the total power, and falls short of it by at most \<open>3 + H\<close> times the total power, where \<open>H\<close> is the harmonic number of the
  size of the set. The condition is that the total power times \<open>2 + H\<close> fits an int64; every set of up to 200 validators
  satisfies it.
\<close>

theorem proposer_selection_fair:
  assumes "wf_vals vals" "length (Validators vals) \<le> 200 \<or> fits (Validators vals)" "int k \<le> MaxInt32"
  shows "\<exists>ps. length ps = k \<and>
    (\<forall>j < k. \<exists>vals'. IncrementProposerPriority vals (int j + 1) = (Ok vals' :: ('e, _) res) \<and> Proposer vals' = Some (ps ! j)) \<and>
    (\<forall>v \<in> set (Validators vals).
       let total = sum_list (map VotingPower (Validators vals));
           chosen = int (count_list (map val_Address ps) (val_Address v))
       in total * chosen \<le> int k * VotingPower v + 4 * total \<and>
          real_of_int (int k * VotingPower v) \<le> real_of_int (total * chosen) + real_of_int total * (3 + harmonic (length (Validators vals))))"
proof -
  let ?vs = "Validators vals" and ?ps = "picks k (normed (Validators vals))"
  have vs: "vals_ok ?vs" "?vs \<noteq> []" using assms(1) by (auto simp: wf_vals_def)
  have f: "fits ?vs" using assms(2) fits_small [OF vs(1)] by blast
  have stored: "\<exists>vals'. IncrementProposerPriority vals (int j + 1) = (Ok vals' :: ('e, _) res) \<and> Proposer vals' = Some (?ps ! j)" if "j < k" for j
  proof -
    have "nat (int j + 1) = Suc j" by simp
    then show ?thesis
      by (intro exI conjI, subst Increment_eq [OF assms(1) _ f]) (simp_all only: last_picks [OF that], simp_all)
  qed
  have up: "real_of_int (ProposerPriority w) \<le> real_of_int (powers ?vs) * (1 + harmonic (length ?vs))"
    if "w \<in> set ((stepped ^^ k) (normed ?vs))" for w
    using balanced_upper [OF balanced_funpow [OF normed_balanced [OF vs]] that] by simp
  have "let total = powers ?vs; chosen = int (count_list (map val_Address ?ps) (val_Address v))
       in total * chosen \<le> int k * VotingPower v + 4 * total \<and>
          real_of_int (int k * VotingPower v) \<le> real_of_int (total * chosen) + real_of_int total * (3 + harmonic (length ?vs))"
    if "v \<in> set ?vs" for v
    using fair_normed [OF assms(1) that up] by (simp add: Let_def algebra_simps)
  with stored show ?thesis by (intro exI [of _ ?ps] conjI allI impI ballI) simp_all
qed

theorem proposer_selection_fair_witness:
  "\<exists>ps :: Validator list. length ps = 100 \<and> 58 \<le> count_list (map val_Address ps) [1] \<and> count_list (map val_Address ps) [2] \<le> 41"
proof -
  have "int 100 \<le> MaxInt32" "length (Validators demo_vals) \<le> 200 \<or> fits (Validators demo_vals)"
    by (simp_all add: int_limits demo_vals_def)
  from proposer_selection_fair [OF demo_wf this(2,1), where 'e = valset_error] show ?thesis
  proof (elim exE conjE)
    fix ps :: "Validator list"
    assume l: "length ps = 100" and c: "\<forall>v \<in> set (Validators demo_vals).
       let total = sum_list (map VotingPower (Validators demo_vals));
           chosen = int (count_list (map val_Address ps) (val_Address v))
       in total * chosen \<le> int 100 * VotingPower v + 4 * total \<and>
          real_of_int (int 100 * VotingPower v) \<le> real_of_int (total * chosen) + real_of_int total * (3 + harmonic (length (Validators demo_vals)))"
    have "harmonic (length (Validators demo_vals)) = 3 / 2" by (simp add: demo_vals_def numeral_2_eq_2)
    with c have "58 \<le> count_list (map val_Address ps) [1]" "count_list (map val_Address ps) [2] \<le> 41"
      by (auto simp: demo_vals_def)
    with l show ?thesis by blast
  qed
qed

text \<open>
  C18: No validator is starved over the heights. However often \<open>IncrementProposerPriority(1)\<close> is called on a well-formed
  set, each call rescaling and centering, no call panics and each set has a proposer. Unless a call after the first finds the
  priorities outside the window and divides them, a validator is proposer in proportion to its share of the power: its
  count times the total power is at most four total powers above and five below the number of calls times its power, so
  that it has been proposer once this product exceeds five times the total power. With equal powers no call after
  the first divides the priorities.
\<close>

theorem proposer_not_starved:
  assumes "wf_vals vals"
  shows "\<exists>sets ps. heights k vals = (Ok sets :: ('e, _) res) \<and> map Proposer sets = map Some ps \<and> length ps = k \<and>
    (\<forall>v \<in> set (Validators vals). (\<exists>s \<in> set (butlast sets). rescales s) \<or>
       (let total = sum_list (map VotingPower (Validators vals));
            chosen = int (count_list (map val_Address ps) (val_Address v))
        in total * chosen \<le> int k * VotingPower v + 4 * total \<and> int k * VotingPower v \<le> total * chosen + 5 * total \<and>
           (5 * total < int k * VotingPower v \<longrightarrow> val_Address v \<in> val_Address ` set ps))) \<and>
    ((\<forall>v \<in> set (Validators vals). \<forall>w \<in> set (Validators vals). VotingPower v = VotingPower w) \<longrightarrow>
       (\<forall>s \<in> set sets. \<not> rescales s))"
proof -
  let ?vs = "Validators vals" and ?ps = "picks k (normed (Validators vals))"
  have vs: "vals_ok ?vs" "?vs \<noteq> []" using assms by (auto simp: wf_vals_def)
  obtain sets ps where sets: "heights k vals = (Ok sets :: ('e, _) res)" "map Proposer sets = map Some ps" "length ps = k"
    using heights_Ok [OF assms, of k, where 'e = 'e] by blast
  have bounds: "let total = powers ?vs; chosen = int (count_list (map val_Address ps) (val_Address v))
        in total * chosen \<le> int k * VotingPower v + 4 * total \<and> int k * VotingPower v \<le> total * chosen + 5 * total \<and>
           (5 * total < int k * VotingPower v \<longrightarrow> val_Address v \<in> val_Address ` set ps)"
    if v: "v \<in> set ?vs" and no: "\<forall>s \<in> set (butlast sets). \<not> rescales s" for v
  proof -
    let ?c = "int (count_list (map val_Address ps) (val_Address v))"
    note rounds = heights_rounds [OF assms sets(1) no]
    have "map Some ps = map Some ?ps" using conjunct1 [OF rounds] sets(2) by simp
    then have "ps = ?ps" by (simp add: inj_map_eq_map)
    moreover have "real_of_int (ProposerPriority w) \<le> real_of_int (3 * powers ?vs)" if "w \<in> set ((stepped ^^ k) (normed ?vs))" for w
      unfolding of_int_le_iff using last_round_upper [OF vs conjunct2 [OF rounds] that] .
    ultimately have c: "powers ?vs * ?c \<le> int k * VotingPower v + 4 * powers ?vs"
      "int k * VotingPower v \<le> powers ?vs * ?c + 2 * powers ?vs + 3 * powers ?vs"
      using fair_normed [OF assms v, of k "real_of_int (3 * powers ?vs)"] unfolding of_int_add [symmetric] of_int_le_iff by blast+
    then have "powers ?vs * ?c \<le> int k * VotingPower v + 4 * powers ?vs" "int k * VotingPower v \<le> powers ?vs * ?c + 5 * powers ?vs" by linarith+
    moreover have "val_Address v \<in> val_Address ` set ps" if "5 * powers ?vs < int k * VotingPower v"
    proof (rule ccontr)
      assume "\<not> ?thesis"
      then have "?c = 0" by (simp add: count_list_0_iff)
      with c(2) that show False by simp
    qed
    ultimately show ?thesis by (simp add: Let_def)
  qed
  show ?thesis
    using sets bounds equal_powers_never [OF assms _ sets(1)] by (intro exI [of _ sets] exI [of _ ps] conjI ballI impI) blast+
qed

definition equal_vals :: ValidatorSet where
  "equal_vals = \<lparr>Validators =
     [\<lparr>val_Address = [1], val_PubKey = Ed25519 [1], VotingPower = 5, ProposerPriority = 9\<rparr>,
      \<lparr>val_Address = [2], val_PubKey = Ed25519 [2], VotingPower = 5, ProposerPriority = -20\<rparr>],
     Proposer = None, vs_total = 0\<rparr>"

theorem proposer_not_starved_witness:
  "\<exists>sets ps. heights 11 equal_vals = (Ok sets :: (valset_error, _) res) \<and> map Proposer sets = map Some ps \<and>
     [1] \<in> val_Address ` set ps \<and> [2] \<in> val_Address ` set ps"
proof -
  have wf: "wf_vals equal_vals"
    by (simp add: wf_vals_def equal_vals_def vals_ok_def prio_ok_def total_ok_def byPower_def max_power)
  from proposer_not_starved [OF this, of 11, where 'e = valset_error] show ?thesis
    by (auto simp: equal_vals_def Let_def dest: in_set_butlastD)
qed


end
