(* ===== verification/ValUpdate.thy ===== *)
theory ValUpdate imports Proposer begin

text \<open>
  Change sets. A change set applied to a well-formed validator set either is rejected with an error,
  exactly when it is not acceptable, or gives the well-formed set with the updated validators in
  place of the old ones and without the removed ones. The refinement goes through the helper
  functions of \<open>types/validator_set.go\<close> in the order in which \<open>updateWithChangeSet\<close> calls them.
\<close>

section \<open>Lookups\<close>

abbreviation addrs :: "Validator list \<Rightarrow> bytes list" where
  "addrs vs \<equiv> map val_Address vs"

abbreviation lookup :: "Validator list \<Rightarrow> bytes \<Rightarrow> Validator option" where
  "lookup vs a \<equiv> snd (GetByAddress vs a)"

lemma getByAddressFrom_find: "snd (getByAddressFrom i vs a) = find (\<lambda>v. val_Address v = a) vs"
  by (induction i vs a rule: getByAddressFrom.induct) auto

lemma lookup_find: "lookup vs a = find (\<lambda>v. val_Address v = a) vs"
  by (simp add: GetByAddress_def getByAddressFrom_find)

lemma lookup_None: "lookup vs a = None \<longleftrightarrow> a \<notin> set (addrs vs)"
  by (auto simp: lookup_find find_None_iff)

lemma lookup_Some:
  assumes "distinct (addrs vs)"
  shows "lookup vs a = Some v \<longleftrightarrow> v \<in> set vs \<and> val_Address v = a"
proof -
  have "find (\<lambda>v. val_Address v = a) vs = Some v \<longleftrightarrow> v \<in> set vs \<and> val_Address v = a"
    using assms by (induction vs) force+
  then show ?thesis by (simp add: lookup_find)
qed

lemma HasAddress_iff: "HasAddress vs a \<longleftrightarrow> a \<in> set (addrs vs)"
  by (auto simp: HasAddress_def list_ex_iff)

definition old_power :: "Validator list \<Rightarrow> bytes \<Rightarrow> int" where
  "old_power vs a = (case lookup vs a of None \<Rightarrow> 0 | Some v \<Rightarrow> VotingPower v)"

lemma old_power_nonneg: "vals_ok vs \<Longrightarrow> 0 \<le> old_power vs a"
  by (auto simp: old_power_def vals_ok_def lookup_Some split: option.splits dest: less_imp_le)

lemma old_powers_nonneg: "vals_ok vs \<Longrightarrow> 0 \<le> sum_list (map (old_power vs) as)"
  by (induction as) (auto simp: old_power_nonneg)

lemma powers_sum: "distinct (addrs vs) \<Longrightarrow> powers vs = sum VotingPower (set vs)"
  by (simp add: sum_list_distinct_conv_sum_set distinct_map)

lemma old_power_sum:
  assumes "distinct as" "distinct (addrs vs)"
  shows "sum_list (map (old_power vs) as) = sum VotingPower {v \<in> set vs. val_Address v \<in> set as}"
  using assms(1)
proof (induction as)
  case (Cons a as)
  let ?S = "{v \<in> set vs. val_Address v \<in> set as}"
  have "{v \<in> set vs. val_Address v \<in> set (a # as)} = set_option (lookup vs a) \<union> ?S"
    using lookup_Some [OF assms(2), of a] by (auto simp: elem_set)
  moreover have "set_option (lookup vs a) \<inter> ?S = {}"
    using Cons.prems by (auto simp: lookup_Some [OF assms(2)] elem_set)
  moreover have "sum VotingPower (set_option (lookup vs a)) = old_power vs a"
    by (simp add: old_power_def split: option.splits)
  ultimately show ?case using Cons by (simp add: sum.union_disjoint)
qed simp

lemma old_power_le:
  assumes "vals_ok vs" "distinct as"
  shows "sum_list (map (old_power vs) as) \<le> powers vs"
proof -
  have d: "distinct (addrs vs)" using assms(1) by (simp add: vals_ok_def)
  show ?thesis unfolding old_power_sum [OF assms(2) d] powers_sum [OF d]
    using assms(1) by (intro sum_mono2) (auto simp: vals_ok_def less_imp_le)
qed

section \<open>Scanning the changes\<close>

abbreviation updatesOf :: "Validator list \<Rightarrow> Validator list" where
  "updatesOf cs \<equiv> filter (\<lambda>c. VotingPower c \<noteq> 0) (sortByAddress cs)"

abbreviation deletesOf :: "Validator list \<Rightarrow> Validator list" where
  "deletesOf cs \<equiv> filter (\<lambda>c. VotingPower c = 0) (sortByAddress cs)"

definition changes_ok :: "Validator list \<Rightarrow> bool" where
  "changes_ok cs \<longleftrightarrow> distinct (addrs cs) \<and> [] \<notin> set (addrs cs) \<and>
     (\<forall>c \<in> set cs. 0 \<le> VotingPower c \<and> VotingPower c \<le> MaxTotalVotingPower)"

lemma sorted_distinct_adj: "sorted xs \<Longrightarrow> distinct_adj xs \<longleftrightarrow> distinct xs"
proof (induction xs rule: induct_list012)
  case (3 x y zs)
  then show ?case by (auto simp: distinct_adj_Cons)
qed simp_all

lemma scanChanges_eq:
  "scanChanges cs prev us rs = Ok r \<longleftrightarrow>
     distinct_adj (prev # addrs cs) \<and> (\<forall>c \<in> set cs. 0 \<le> VotingPower c \<and> VotingPower c \<le> MaxTotalVotingPower) \<and>
     r = (us @ filter (\<lambda>c. VotingPower c \<noteq> 0) cs, rs @ filter (\<lambda>c. VotingPower c = 0) cs)"
  by (induction cs prev us rs rule: scanChanges.induct) (auto simp: distinct_adj_Cons)

lemma scanChanges_no_panic: "\<not> is_panic (scanChanges cs prev us rs)"
  by (induction cs prev us rs rule: scanChanges.induct) auto

lemma sortByAddress_simps [simp]:
  "set (sortByAddress cs) = set cs" "length (sortByAddress cs) = length cs" "sorted (addrs (sortByAddress cs))"
  by (simp_all add: sortByAddress_def)

lemma sortByAddress_distinct [simp]: "distinct (addrs (sortByAddress cs)) = distinct (addrs cs)"
  by (simp add: sortByAddress_def distinct_map)

lemma processChanges_Ok:
  "processChanges cs = Ok r \<longleftrightarrow> changes_ok cs \<and> r = (updatesOf cs, deletesOf cs)"
proof -
  have "sorted ([] # addrs (sortByAddress cs))" by simp
  then have "distinct_adj ([] # addrs (sortByAddress cs)) \<longleftrightarrow> distinct ([] # addrs (sortByAddress cs))"
    by (rule sorted_distinct_adj)
  then show ?thesis by (auto simp: processChanges_def scanChanges_eq changes_ok_def simp del: distinct_adj_Cons)
qed

lemma processChanges_cases:
  "(if changes_ok cs then processChanges cs = Ok (updatesOf cs, deletesOf cs) else \<exists>e. processChanges cs = Err e)"
proof (cases "processChanges cs")
  case (Panic s)
  then show ?thesis using scanChanges_no_panic [of "sortByAddress cs" "[]" "[]" "[]"] by (simp add: processChanges_def)
qed (use processChanges_Ok [of cs] in auto)

section \<open>Verifying removals and updates\<close>

lemma removals_fold:
  assumes "vals_ok vs" "0 \<le> acc" "acc + sum_list (map (old_power vs) (addrs ds)) \<le> MaxInt64"
  shows "if set (addrs ds) \<subseteq> set (addrs vs)
    then res_fold (\<lambda>acc d. case lookup vs (val_Address d) of
           None \<Rightarrow> Err (ErrRemoveUnknown (val_Address d))
         | Some val \<Rightarrow> Ok (wrap64 (acc + VotingPower val))) acc ds = Ok (acc + sum_list (map (old_power vs) (addrs ds)))
    else \<exists>e. res_fold (\<lambda>acc d. case lookup vs (val_Address d) of
           None \<Rightarrow> Err (ErrRemoveUnknown (val_Address d))
         | Some val \<Rightarrow> Ok (wrap64 (acc + VotingPower val))) acc ds = Err e"
  using assms(2,3)
proof (induction ds arbitrary: acc)
  case (Cons d ds)
  have nn: "0 \<le> old_power vs a" for a using old_power_nonneg [OF assms(1)] .
  have nns: "0 \<le> sum_list (map (old_power vs) (addrs ds))" using old_powers_nonneg [OF assms(1)] .
  show ?case
  proof (cases "lookup vs (val_Address d)")
    case None
    then have "val_Address d \<notin> set (addrs vs)" using lookup_None [of vs "val_Address d"] by blast
    with None show ?thesis by simp
  next
    case (Some v)
    then have v: "old_power vs (val_Address d) = VotingPower v" by (simp add: old_power_def)
    have "val_Address d \<in> set (addrs vs)" using Some lookup_None [of vs "val_Address d"] by auto
    moreover have "wrap64 (acc + VotingPower v) = acc + VotingPower v"
      using Cons.prems nn [of "val_Address d"] nns v by (intro wrap64_id) (simp add: is_int64_def int_limits)
    ultimately show ?thesis
      using Cons.IH [of "acc + VotingPower v"] Cons.prems nn [of "val_Address d"] Some v by (simp add: add.assoc)
  qed
qed simp

lemma verifyRemovals_cases:
  assumes "vals_ok vs" "distinct (addrs ds)"
  shows "if set (addrs ds) \<subseteq> set (addrs vs) then verifyRemovals ds vs = Ok (sum_list (map (old_power vs) (addrs ds)))
    else \<exists>e. verifyRemovals ds vs = Err e"
proof -
  have "sum_list (map (old_power vs) (addrs ds)) \<le> MaxInt64"
    using old_power_le [OF assms] assms(1) by (simp add: vals_ok_def max_power int_limits)
  note fold = removals_fold [OF assms(1), of 0 ds, simplified, OF this [simplified]]
  have "length ds \<le> length vs" if "set (addrs ds) \<subseteq> set (addrs vs)"
    using card_mono [OF _ that] assms by (simp add: vals_ok_def distinct_card [OF assms(2), simplified] distinct_card [of "addrs vs", simplified])
  with fold show ?thesis by (cases "set (addrs ds) \<subseteq> set (addrs vs)") (auto simp: verifyRemovals_def)
qed

definition net :: "Validator list \<Rightarrow> Validator \<Rightarrow> int" where
  "net vs u = VotingPower u - old_power vs (val_Address u)"

lemma delta_net:
  assumes "vals_ok vs" "0 \<le> VotingPower u" "VotingPower u \<le> MaxTotalVotingPower"
  shows "delta vs u = net vs u"
proof (cases "lookup vs (val_Address u)")
  case (Some v)
  then have "v \<in> set vs" using lookup_Some assms(1) by (simp add: vals_ok_def)
  then have "0 < VotingPower v" "VotingPower v \<le> MaxTotalVotingPower"
    using power_le_powers [OF assms(1)] assms(1) by (fastforce simp: vals_ok_def)+
  then have "wrap64 (VotingPower u - VotingPower v) = VotingPower u - VotingPower v"
    using assms by (intro wrap64_id) (simp add: is_int64_def max_power int_limits)
  then show ?thesis using Some by (simp add: delta_def net_def old_power_def)
qed (simp add: delta_def net_def old_power_def)

text \<open>
  The running total over the updates, sorted by their difference, first falls and then rises: it
  stays within the limit exactly when it ends there.
\<close>

lemma running_total:
  assumes "sorted (map f us)" "s \<le> M" "\<forall>k. 0 \<le> s + sum_list (map f (take k us))" "M \<le> MaxTotalVotingPower"
    "\<forall>u \<in> set us. g u = f u" "\<forall>u \<in> set us. f u \<le> MaxTotalVotingPower"
  shows "res_fold (\<lambda>tvp u. let tvp' = wrap64 (tvp + g u) in if tvp' > M then Err e else Ok tvp') s us =
    (if s + sum_list (map f us) \<le> M then Ok (s + sum_list (map f us)) else Err e)"
  using assms
proof (induction us arbitrary: s)
  case (Cons u us)
  have "0 \<le> s + f u" using Cons.prems(3) by (auto dest: spec [of _ "Suc 0"])
  then have w: "wrap64 (s + f u) = s + f u" "g u = f u"
    using Cons.prems by (simp_all add: wrap64_id is_int64_def max_power int_limits)
  show ?case
  proof (cases "s + f u \<le> M")
    case True
    have "0 \<le> (s + f u) + sum_list (map f (take k us))" for k
      using Cons.prems(3) by (auto simp: add.assoc dest: spec [of _ "Suc k"])
    with True Cons.IH [of "s + f u"] Cons.prems show ?thesis by (simp add: w Let_def add.assoc)
  next
    case False
    then have "0 \<le> f u" using Cons.prems(2) by linarith
    then have "0 \<le> sum_list (map f us)" using Cons.prems(1) by (intro sum_list_nonneg_int) fastforce
    with False show ?thesis by (simp add: w Let_def)
  qed
qed simp

lemma sum_take_net:
  "sum_list (map (net vs) us) = powers us - sum_list (map (old_power vs) (addrs us))"
  by (induction us) (auto simp: net_def)

lemma verifyUpdates_cases:
  assumes "vals_ok (Validators vals)" "total_ok vals" "distinct (addrs (us @ ds))"
    "\<forall>u \<in> set us. 0 \<le> VotingPower u \<and> VotingPower u \<le> MaxTotalVotingPower"
  defines "rem \<equiv> sum_list (map (old_power (Validators vals)) (addrs ds))"
    and "after \<equiv> powers (Validators vals) - sum_list (map (old_power (Validators vals)) (addrs (us @ ds))) + powers us"
  shows "verifyUpdates us vals rem =
    (if after \<le> MaxTotalVotingPower
     then Ok (vals\<lparr>vs_total := powers (Validators vals)\<rparr>, after + rem) else Err ErrTotalVotingPowerOverflow)"
proof -
  let ?vs = "Validators vals" and ?P = "powers (Validators vals)"
  let ?us = "sort_key (delta ?vs) us"
  have dn: "\<forall>u \<in> set us. delta ?vs u = net ?vs u" using delta_net assms(1,4) by blast
  have us: "distinct (addrs ?us)" "set (addrs ?us) = set (addrs us)" using assms(3) by (auto simp: distinct_map)
  have rem: "0 \<le> rem" "rem \<le> ?P" "?P \<le> MaxTotalVotingPower"
    using assms(1,3) old_power_le [OF assms(1), of "addrs ds"] old_powers_nonneg [OF assms(1), of "addrs ds"]
    by (simp_all add: rem_def vals_ok_def)
  have prefix: "0 \<le> ?P - rem + sum_list (map (net ?vs) (take k ?us))" for k
  proof -
    have sub: "set (take k ?us) \<subseteq> set us" using set_take_subset [of k ?us] by simp
    have "distinct (addrs (take k ?us @ ds))"
    proof -
      have "distinct (addrs (take k ?us))" using us(1) by (metis distinct_take take_map)
      moreover have "val_Address ` set (take k ?us) \<inter> val_Address ` set ds = {}" using assms(3) image_mono [OF sub, of val_Address] by (simp add: disjoint_iff subset_iff)
      ultimately show ?thesis using assms(3) by simp
    qed
    from old_power_le [OF assms(1) this] have "sum_list (map (old_power ?vs) (addrs (take k ?us))) + rem \<le> ?P" by (simp add: rem_def)
    moreover have "0 \<le> powers (take k ?us)" using assms(4) sub by (intro sum_list_nonneg_int) auto
    ultimately show ?thesis unfolding sum_take_net by linarith
  qed
  have sorted: "sorted (map (net ?vs) ?us)"
  proof -
    have eq: "map (net ?vs) ?us = map (delta ?vs) ?us" using dn by simp
    show ?thesis unfolding eq by (rule sorted_sort_key)
  qed
  have dn': "\<forall>u \<in> set ?us. delta ?vs u = net ?vs u" using dn by simp
  have top: "\<forall>u \<in> set ?us. net ?vs u \<le> MaxTotalVotingPower"
  proof
    fix u assume "u \<in> set ?us"
    then have "VotingPower u \<le> MaxTotalVotingPower" using assms(4) by simp
    then show "net ?vs u \<le> MaxTotalVotingPower" unfolding net_def using old_power_nonneg [OF assms(1), of "val_Address u"] by linarith
  qed
  have "?P - rem \<le> MaxTotalVotingPower" using rem by linarith
  note run = running_total [OF sorted this _ order_refl dn' top, of ErrTotalVotingPowerOverflow]
  have "sum_list (map (net ?vs) ?us) = sum_list (map (net ?vs) us)"
    by (metis mset_map mset_sort sum_mset_sum_list)
  then have after: "?P - rem + sum_list (map (net ?vs) ?us) = after"
    unfolding sum_take_net by (simp add: after_def rem_def)
  have "0 \<le> after" using prefix [of "length us"] after by simp
  then have w: "wrap64 (?P - rem) = ?P - rem" "after \<le> MaxTotalVotingPower \<Longrightarrow> wrap64 (after + rem) = after + rem"
    using rem by (simp_all add: wrap64_id is_int64_def max_power int_limits)
  have "res_fold (\<lambda>tvp u. let tvp' = wrap64 (tvp + delta ?vs u) in if tvp' > MaxTotalVotingPower then Err ErrTotalVotingPowerOverflow else Ok tvp')
      (?P - rem) ?us = (if after \<le> MaxTotalVotingPower then Ok after else Err ErrTotalVotingPowerOverflow)"
    unfolding after [symmetric] using prefix by (intro run) blast
  then show ?thesis
    using w by (simp add: verifyUpdates_def TotalVotingPower_eq [OF assms(1,2)])
qed

section \<open>Merging\<close>

lemma mergeUpdates_set:
  "sorted_wrt (<) (addrs es) \<Longrightarrow> sorted_wrt (<) (addrs us) \<Longrightarrow>
     set (mergeUpdates es us) = {e \<in> set es. val_Address e \<notin> set (addrs us)} \<union> set us"
proof (induction es us rule: mergeUpdates.induct)
  case (1 e es u us)
  have e: "\<forall>x \<in> set es. val_Address e < val_Address x" and u: "\<forall>x \<in> set us. val_Address u < val_Address x"
    using "1.prems" by auto
  consider "val_Address e < val_Address u" | "val_Address e = val_Address u" | "val_Address u < val_Address e" by fastforce
  then show ?case
  proof cases
    case 1
    have "val_Address e \<notin> set (addrs (u # us))"
    proof
      assume "val_Address e \<in> set (addrs (u # us))"
      then obtain x where "x \<in> set (u # us)" "val_Address x = val_Address e" by (metis in_set_conv_nth length_map nth_map)
      then show False using 1 u by (metis less_trans less_irrefl set_ConsD)
    qed
    then have "{x \<in> set (e # es). val_Address x \<notin> set (addrs (u # us))} =
        insert e {x \<in> set es. val_Address x \<notin> set (addrs (u # us))}" by auto
    moreover have "set (mergeUpdates es (u # us)) = {x \<in> set es. val_Address x \<notin> set (addrs (u # us))} \<union> set (u # us)"
      using "1.IH"(1) "1.prems" 1 by simp
    ultimately show ?thesis using 1 by (simp add: insert_commute)
  next
    case 2
    have "{x \<in> set (e # es). val_Address x \<notin> set (addrs (u # us))} = {x \<in> set es. val_Address x \<notin> set (addrs us)}"
      using 2 e by (auto simp del: less_irrefl)
    moreover have "set (mergeUpdates es us) = {x \<in> set es. val_Address x \<notin> set (addrs us)} \<union> set us"
      using "1.IH"(2) "1.prems" 2 by simp
    ultimately show ?thesis using 2 by simp
  next
    case 3
    have "val_Address u \<notin> set (addrs (e # es))"
    proof
      assume "val_Address u \<in> set (addrs (e # es))"
      then obtain x where "x \<in> set (e # es)" "val_Address x = val_Address u" by (metis in_set_conv_nth length_map nth_map)
      then show False using 3 e by (metis less_trans less_irrefl set_ConsD)
    qed
    then have "{x \<in> set (e # es). val_Address x \<notin> set (addrs (u # us))} = {x \<in> set (e # es). val_Address x \<notin> set (addrs us)}"
      by (auto simp: image_iff)
    moreover have "set (mergeUpdates (e # es) us) = {x \<in> set (e # es). val_Address x \<notin> set (addrs us)} \<union> set us"
      using "1.IH"(3) "1.prems" 3 by simp
    moreover have "mergeUpdates (e # es) (u # us) = u # mergeUpdates (e # es) us" using 3 by auto
    ultimately show ?thesis by simp
  qed
qed auto

lemma mergeUpdates_sorted:
  "sorted_wrt (<) (addrs es) \<Longrightarrow> sorted_wrt (<) (addrs us) \<Longrightarrow> sorted_wrt (<) (addrs (mergeUpdates es us))"
proof (induction es us rule: mergeUpdates.induct)
  case (1 e es u us)
  have e: "\<forall>x \<in> set es. val_Address e < val_Address x" and u: "\<forall>x \<in> set us. val_Address u < val_Address x"
    using "1.prems" by auto
  have set: "set (mergeUpdates es us) \<subseteq> set es \<union> set us" "set (mergeUpdates es (u # us)) \<subseteq> set es \<union> set (u # us)"
    "set (mergeUpdates (e # es) us) \<subseteq> set (e # es) \<union> set us"
    using mergeUpdates_set "1.prems" by auto
  consider "val_Address e < val_Address u" | "val_Address e = val_Address u" | "val_Address u < val_Address e" by fastforce
  then show ?case
  proof cases
    case 1
    have "\<forall>x \<in> set (mergeUpdates es (u # us)). val_Address e < val_Address x"
      using set(2) e u 1 by (metis Un_iff less_trans set_ConsD subsetD)
    then show ?thesis using "1.IH"(1) "1.prems" 1 by simp
  next
    case 2
    have "\<forall>x \<in> set (mergeUpdates es us). val_Address u < val_Address x"
      using set(1) e u 2 by (metis Un_iff subsetD)
    then show ?thesis using "1.IH"(2) "1.prems" 2 by simp
  next
    case 3
    have "\<forall>x \<in> set (mergeUpdates (e # es) us). val_Address u < val_Address x"
      using set(3) e u 3 by (metis Un_iff less_trans set_ConsD subsetD)
    moreover have "mergeUpdates (e # es) (u # us) = u # mergeUpdates (e # es) us" using 3 by auto
    ultimately show ?thesis using "1.IH"(3) "1.prems" 3 by simp
  qed
qed auto

lemma dropRemovals_eq:
  "sorted_wrt (<) (addrs es) \<Longrightarrow> sorted_wrt (<) (addrs ds) \<Longrightarrow> set (addrs ds) \<subseteq> set (addrs es) \<Longrightarrow>
     dropRemovals es ds = Ok (filter (\<lambda>e. val_Address e \<notin> set (addrs ds)) es)"
proof (induction es ds rule: dropRemovals.induct)
  case (3 e es d ds)
  have e: "\<forall>a \<in> set (addrs es). val_Address e < a" and d: "\<forall>a \<in> set (addrs ds). val_Address d < a"
    using "3.prems"(1,2) by (simp_all only: sorted_wrt.simps list.map) blast+
  have sub: "insert (val_Address d) (set (addrs ds)) \<subseteq> insert (val_Address e) (set (addrs es))"
    using "3.prems"(3) by (simp only: list.map list.set)
  have sorted: "sorted_wrt (<) (addrs es)" "sorted_wrt (<) (addrs ds)"
    using "3.prems"(1,2) by (simp_all only: sorted_wrt.simps list.map)
  show ?case
  proof (cases "val_Address e = val_Address d")
    case True
    have "set (addrs ds) \<subseteq> set (addrs es)"
    proof
      fix a assume a: "a \<in> set (addrs ds)"
      then have "val_Address e < a" using d True by auto
      moreover have "a \<in> insert (val_Address e) (set (addrs es))" using sub a by blast
      ultimately show "a \<in> set (addrs es)" by fastforce
    qed
    moreover have "val_Address x \<noteq> val_Address d" if "x \<in> set es" for x using e True that by (metis imageI less_irrefl set_map)
    then have "filter (\<lambda>e. val_Address e \<notin> set (addrs (d # ds))) es = filter (\<lambda>e. val_Address e \<notin> set (addrs ds)) es"
      by (intro filter_cong) (simp_all add: image_iff)
    ultimately show ?thesis using "3.IH"(1) [OF True sorted] True by simp
  next
    case False
    have "val_Address d \<in> set (addrs es)" using sub False by (metis insert_iff insert_subset)
    then have lt: "val_Address e < val_Address d" using e by blast
    then have ne: "val_Address e \<notin> insert (val_Address d) (set (addrs ds))" 
      using d by (metis insertE less_asym less_irrefl)
    have "set (addrs (d # ds)) \<subseteq> set (addrs es)"
      using sub unfolding subset_insert [OF ne] by (simp only: list.map list.set)
    from "3.IH"(2) [OF False sorted(1) "3.prems"(2) this] show ?thesis using False ne by simp
  qed
qed auto

section \<open>The whole update\<close>

text \<open>
  What a change set promises: the untouched validators and the updates. The parts that identify a
  validator are its address, key and power; priorities are not part of the promise.
\<close>

definition untouched :: "Validator list \<Rightarrow> Validator list \<Rightarrow> Validator list" where
  "untouched vs cs = filter (\<lambda>v. val_Address v \<notin> set (addrs cs)) vs"

definition applied :: "Validator list \<Rightarrow> Validator list \<Rightarrow> Validator list" where
  "applied vs cs = untouched vs cs @ filter (\<lambda>c. VotingPower c \<noteq> 0) cs"

definition ident :: "Validator \<Rightarrow> bytes \<times> PubKey \<times> int" where
  "ident v = (val_Address v, val_PubKey v, VotingPower v)"

text \<open>
  The change sets that are accepted: no address twice and none empty, powers in range, removals only
  where they are allowed and of known validators, a result that is not empty and whose total power
  is within the limit.
\<close>

definition acceptable :: "Validator list \<Rightarrow> Validator list \<Rightarrow> bool \<Rightarrow> bool" where
  "acceptable vs cs allowDeletes \<longleftrightarrow> changes_ok cs \<and>
     (\<forall>c \<in> set cs. VotingPower c = 0 \<longrightarrow> allowDeletes \<and> val_Address c \<in> set (addrs vs)) \<and>
     applied vs cs \<noteq> [] \<and> powers (applied vs cs) \<le> MaxTotalVotingPower"

lemma numNewValidators_eq: "numNewValidators us vs = length (filter (\<lambda>u. val_Address u \<notin> set (addrs vs)) us)"
proof -
  have "fold (\<lambda>u n. if \<not> HasAddress vs (val_Address u) then n + 1 else n) us k =
      k + length (filter (\<lambda>u. val_Address u \<notin> set (addrs vs)) us)" for k
    by (induction us arbitrary: k) (auto simp: HasAddress_iff)
  then show ?thesis by (simp add: numNewValidators_def)
qed

lemma computeNew_simps [simp]:
  "addrs (computeNewPriorities us vs t) = addrs us"
  "map VotingPower (computeNewPriorities us vs t) = map VotingPower us"
  "ident ` set (computeNewPriorities us vs t) = ident ` set us"
  by (auto simp: computeNewPriorities_def ident_def image_image split: option.splits intro!: image_cong)

lemma computeNew_prio:
  assumes "vals_ok vs" "prio_ok vs" "0 \<le> t" "t \<le> 2 * MaxTotalVotingPower"
  shows "prio_ok (computeNewPriorities us vs t)"
proof -
  have t: "t + t div 8 \<le> 3 * MaxTotalVotingPower" "0 \<le> t + t div 8" using assms by (simp_all add: max_power)
  then have "wrap64 (t + t div 8) = t + t div 8" "wrap64 (- (t + t div 8)) = - (t + t div 8)"
    by (intro wrap64_id; simp add: is_int64_def max_power int_limits)+
  with t have "wrap64 (- wrap64 (t + t div 8)) = - (t + t div 8)" "\<bar>- (t + t div 8)\<bar> \<le> 3 * MaxTotalVotingPower" by simp_all
  then show ?thesis
    using assms(1,2) by (auto simp: prio_ok_def computeNewPriorities_def vals_ok_def lookup_Some split: option.splits)
qed

lemma strict_sorted_filter: "sorted_wrt (<) (addrs vs) \<Longrightarrow> sorted_wrt (<) (addrs (filter P vs))"
  by (simp add: sorted_wrt_map sorted_wrt_filter)

lemma powers_untouched:
  assumes "distinct (addrs vs)" "distinct (addrs cs)"
  shows "powers (untouched vs cs) = powers vs - sum_list (map (old_power vs) (addrs cs))"
proof -
  have "distinct (addrs (untouched vs cs))" using assms(1) by (auto simp: untouched_def distinct_map_filter)
  moreover have "set (untouched vs cs) = set vs - {v \<in> set vs. val_Address v \<in> set (addrs cs)}"
    by (auto simp: untouched_def)
  ultimately have "powers (untouched vs cs) = sum VotingPower (set vs - {v \<in> set vs. val_Address v \<in> set (addrs cs)})"
    by (simp only: powers_sum)
  also have "\<dots> = powers vs - sum_list (map (old_power vs) (addrs cs))"
    using assms by (subst sum_diff) (auto simp only: old_power_sum powers_sum finite_set finite_Collect_conjI)
  finally show ?thesis .
qed

lemma powers_ident:
  assumes "distinct (addrs vs)"
  shows "powers vs = sum (\<lambda>(a, k, p). p) (ident ` set vs)"
proof -
  have "inj_on ident (set vs)" using assms by (auto simp: inj_on_def ident_def distinct_map)
  then show ?thesis unfolding powers_sum [OF assms] by (subst sum.reindex) (simp_all add: o_def ident_def)
qed

definition merged :: "Validator list \<Rightarrow> Validator list \<Rightarrow> int \<Rightarrow> Validator list" where
  "merged vs cs t = filter (\<lambda>e. val_Address e \<notin> set (addrs (deletesOf cs)))
     (mergeUpdates (sortByAddress vs) (computeNewPriorities (updatesOf cs) vs t))"

lemma sorted_changes:
  assumes "changes_ok cs"
  shows "sorted_wrt (<) (addrs (updatesOf cs))" "sorted_wrt (<) (addrs (deletesOf cs))"
    "distinct (addrs (updatesOf cs @ deletesOf cs))"
proof -
  have "sorted_wrt (<) (addrs (sortByAddress cs))" using assms by (simp add: strict_sorted_iff changes_ok_def)
  then show "sorted_wrt (<) (addrs (updatesOf cs))" "sorted_wrt (<) (addrs (deletesOf cs))"
    by (rule strict_sorted_filter)+
  have "inj_on val_Address (set cs)" "distinct (addrs cs)" using assms by (auto simp: changes_ok_def distinct_map)
  then have "distinct (addrs (updatesOf cs))" "distinct (addrs (deletesOf cs))"
    "set (addrs (updatesOf cs)) \<inter> set (addrs (deletesOf cs)) = {}"
    by (auto simp: distinct_map_filter inj_on_def)
  then show "distinct (addrs (updatesOf cs @ deletesOf cs))" by simp
qed

lemma merge_facts:
  fixes t :: int
  assumes "vals_ok vs" "changes_ok cs"
  defines "new \<equiv> computeNewPriorities (updatesOf cs) vs t" and "es \<equiv> sortByAddress vs"
  shows "set (mergeUpdates es new) = {v \<in> set vs. val_Address v \<notin> set (addrs (updatesOf cs))} \<union> set new"
    "sorted_wrt (<) (addrs (mergeUpdates es new))"
proof -
  have es: "sorted_wrt (<) (addrs es)" using assms(1) by (simp add: es_def strict_sorted_iff vals_ok_def)
  have new: "sorted_wrt (<) (addrs new)" using sorted_changes(1) [OF assms(2)] by (simp add: new_def)
  show "set (mergeUpdates es new) = {v \<in> set vs. val_Address v \<notin> set (addrs (updatesOf cs))} \<union> set new"
    unfolding mergeUpdates_set [OF es new] by (simp add: es_def new_def)
  show "sorted_wrt (<) (addrs (mergeUpdates es new))" using mergeUpdates_sorted [OF es new] .
qed

lemma applyRemovals_merged:
  assumes "vals_ok vs" "changes_ok cs" "\<forall>c \<in> set cs. VotingPower c = 0 \<longrightarrow> val_Address c \<in> set (addrs vs)" "Validators vals = vs"
  shows "applyRemovals (applyUpdates vals (computeNewPriorities (updatesOf cs) vs t)) (deletesOf cs) =
    Ok (vals\<lparr>Validators := merged vs cs t\<rparr>)"
proof -
  let ?m = "mergeUpdates (sortByAddress vs) (computeNewPriorities (updatesOf cs) vs t)"
  note m = merge_facts [OF assms(1,2), of t]
  have sub: "set (addrs (deletesOf cs)) \<subseteq> set (addrs ?m)"
  proof
    fix a assume a: "a \<in> set (addrs (deletesOf cs))"
    then obtain v where "v \<in> set vs" "val_Address v = a" using assms(3) by auto
    moreover have "a \<notin> set (addrs (updatesOf cs))" using a sorted_changes(3) [OF assms(2)] by auto
    ultimately have "v \<in> set ?m" using m(1) by simp
    then show "a \<in> set (addrs ?m)" using \<open>val_Address v = a\<close> by auto
  qed
  have "length (deletesOf cs) \<le> length ?m"
    using card_mono [OF _ sub] sorted_changes(3) [OF assms(2)] m(2)
    by (simp add: distinct_card [of "addrs (deletesOf cs)", simplified] distinct_card [of "addrs ?m", simplified] strict_sorted_iff)
  then show ?thesis
    using assms(4)
    by (simp add: applyRemovals_def applyUpdates_def merged_def dropRemovals_eq [OF m(2) sorted_changes(2) [OF assms(2)] sub])
qed

lemma merged_facts:
  assumes "vals_ok vs" "prio_ok vs" "changes_ok cs" "0 \<le> t" "t \<le> 2 * MaxTotalVotingPower"
  shows "ident ` set (merged vs cs t) = ident ` set (applied vs cs)" "distinct (addrs (merged vs cs t))"
    "powers (merged vs cs t) = powers (applied vs cs)" "prio_ok (merged vs cs t)"
proof -
  let ?new = "computeNewPriorities (updatesOf cs) vs t"
  have new: "set (addrs ?new) = set (addrs (updatesOf cs))" by simp
  have disj: "set (addrs ?new) \<inter> set (addrs (deletesOf cs)) = {}"
    using sorted_changes(3) [OF assms(3)] unfolding new by simp
  have del: "val_Address v \<notin> set (addrs (deletesOf cs))" if "v \<in> set ?new" for v
  proof -
    have "val_Address v \<in> set (addrs ?new)" using imageI [OF that, of val_Address] by (simp only: set_map)
    with disj show ?thesis by blast
  qed
  have un: "set (addrs cs) = set (addrs (updatesOf cs)) \<union> set (addrs (deletesOf cs))" by auto
  have set: "set (merged vs cs t) = set (untouched vs cs) \<union> set ?new"
    unfolding merged_def set_filter merge_facts(1) [OF assms(1,3)] untouched_def un using del by blast
  then have "ident ` set (merged vs cs t) = ident ` set (untouched vs cs) \<union> ident ` set (updatesOf cs)"
    by (simp only: set image_Un computeNew_simps)
  then show ident: "ident ` set (merged vs cs t) = ident ` set (applied vs cs)"
    by (simp add: applied_def image_Un)
  show dm: "distinct (addrs (merged vs cs t))"
    using strict_sorted_filter [OF merge_facts(2) [OF assms(1,3)]] by (simp add: merged_def strict_sorted_iff)
  have "distinct (addrs (applied vs cs))"
    using assms(1,3) by (auto simp: applied_def untouched_def vals_ok_def changes_ok_def distinct_map_filter)
  then show "powers (merged vs cs t) = powers (applied vs cs)"
    unfolding powers_ident [OF dm] ident by (simp add: powers_ident)
  show "prio_ok (merged vs cs t)"
    using computeNew_prio [OF assms(1,2,4,5), of "updatesOf cs"] assms(2) unfolding prio_ok_def set by (auto simp: untouched_def)
qed

lemma sortByVotingPower_facts:
  "set (sortByVotingPower vs) = set vs" "vals_ok (sortByVotingPower vs) = vals_ok vs"
  "prio_ok (sortByVotingPower vs) = prio_ok vs" "powers (sortByVotingPower vs) = powers vs"
  "sorted (map byPower (sortByVotingPower vs))" "sortByVotingPower vs = [] \<longleftrightarrow> vs = []"
proof -
  have m: "mset (sortByVotingPower vs) = mset vs" by (simp add: sortByVotingPower_def)
  show set: "set (sortByVotingPower vs) = set vs" by (simp add: sortByVotingPower_def)
  show p: "powers (sortByVotingPower vs) = powers vs" using m by (metis mset_map sum_mset_sum_list)
  have "distinct (addrs (sortByVotingPower vs)) = distinct (addrs vs)" using m by (metis mset_eq_imp_distinct_iff mset_map)
  then show "vals_ok (sortByVotingPower vs) = vals_ok vs" by (simp add: vals_ok_def set p)
  show "prio_ok (sortByVotingPower vs) = prio_ok vs" by (simp add: prio_ok_def set)
  show "sorted (map byPower (sortByVotingPower vs))" unfolding sortByVotingPower_def byPower_def by simp
  show "sortByVotingPower vs = [] \<longleftrightarrow> vs = []" using m by (metis mset_zero_iff)
qed

lemma sum_mset_cong: "mset xs = mset ys \<Longrightarrow> sum_list (map f xs) = (sum_list (map f ys) :: int)"
  by (metis mset_map sum_mset_sum_list)

lemma split_changes_sum: "sum_list (map f (addrs (updatesOf cs @ deletesOf cs))) = (sum_list (map f (addrs cs)) :: int)"
proof -
  have "filter_mset P M + filter_mset (\<lambda>c. \<not> P c) M = M" for P and M :: "Validator multiset"
    by (rule multiset_partition [symmetric])
  from this [of "\<lambda>c. VotingPower c \<noteq> 0" "mset cs"]
  have "mset (updatesOf cs @ deletesOf cs) = mset cs" by (simp add: sortByAddress_def)
  from sum_mset_cong [OF this, of "\<lambda>c. f (val_Address c)"] show ?thesis by (simp add: o_def)
qed

lemma powers_applied:
  assumes "vals_ok vs" "changes_ok cs"
  shows "powers vs - sum_list (map (old_power vs) (addrs (updatesOf cs @ deletesOf cs))) + powers (updatesOf cs) = powers (applied vs cs)"
proof -
  have "mset (updatesOf cs) = mset (filter (\<lambda>c. VotingPower c \<noteq> 0) cs)" by (simp add: sortByAddress_def)
  from sum_mset_cong [OF this] have "powers (updatesOf cs) = powers (filter (\<lambda>c. VotingPower c \<noteq> 0) cs)" .
  then show ?thesis
    using assms by (simp only: split_changes_sum) (simp add: applied_def powers_untouched vals_ok_def changes_ok_def)
qed

lemma would_be_empty:
  assumes "vals_ok vs" "changes_ok cs" "set (addrs (deletesOf cs)) \<subseteq> set (addrs vs)"
  shows "numNewValidators (updatesOf cs) vs = 0 \<and> length vs = length (deletesOf cs) \<longleftrightarrow> applied vs cs = []"
proof -
  let ?us = "updatesOf cs" and ?ds = "deletesOf cs"
  have d: "distinct (addrs vs)" "distinct (addrs ?ds)" "set (addrs ?us) \<inter> set (addrs ?ds) = {}"
    using assms(1) sorted_changes(3) [OF assms(2)] by (auto simp: vals_ok_def)
  have cards: "card (set (addrs vs)) = length vs" "card (set (addrs ?ds)) = length ?ds"
    using d distinct_card [of "addrs vs"] distinct_card [of "addrs ?ds"] by simp_all
  have eq: "length vs = length ?ds \<longleftrightarrow> set (addrs vs) \<subseteq> set (addrs ?ds)"
    using card_subset_eq [OF finite_set assms(3)] assms(3) cards by (metis subset_antisym subset_refl)
  have un: "set (addrs cs) = set (addrs ?us) \<union> set (addrs ?ds)" by auto
  have "applied vs cs = [] \<longleftrightarrow> set (addrs vs) \<subseteq> set (addrs cs) \<and> ?us = []"
    by (auto simp: applied_def untouched_def filter_empty_conv)
  also have "\<dots> \<longleftrightarrow> set (addrs vs) \<subseteq> set (addrs ?ds) \<and> ?us = []"
    unfolding un by (cases "?us = []") (simp_all only: list.map list.set Un_empty_left simp_thms)
  also have "\<dots> \<longleftrightarrow> set (addrs vs) \<subseteq> set (addrs ?ds) \<and> set (addrs ?us) \<subseteq> set (addrs vs)"
    using d(3) by (metis (no_types, lifting) empty_set inf.absorb_iff1 list.map_disc_iff order_trans set_empty empty_subsetI)
  also have "set (addrs ?us) \<subseteq> set (addrs vs) \<longleftrightarrow> numNewValidators ?us vs = 0"
    by (auto simp: numNewValidators_eq filter_empty_conv)
  finally show ?thesis using eq by blast
qed

lemma renormalize:
  fixes f :: "ValidatorSet \<Rightarrow> ('e, 'b) res"
  assumes "vals_ok (Validators vals)" "Validators vals \<noteq> []" "prio_ok (Validators vals)"
  shows "res_bind (updateTotalVotingPower vals) (\<lambda>vals. res_bind (TotalVotingPower vals) (\<lambda>(vals, total).
      res_bind (RescalePriorities vals (wrap64 (PriorityWindowSizeFactor * total))) (\<lambda>vals.
      res_bind (shiftByAvgProposerPriority vals) f))) =
    f (vals\<lparr>Validators := normed (Validators vals), vs_total := powers (Validators vals)\<rparr>)"
proof -
  let ?v = "vals\<lparr>vs_total := powers (Validators vals)\<rparr>"
  have n: "res_bind (normalize ?v) f = f (vals\<lparr>Validators := normed (Validators vals), vs_total := powers (Validators vals)\<rparr>)"
    using assms by (simp add: normalize_eq total_ok_def)
  have "updateTotalVotingPower vals = (Ok ?v :: ('e, _) res)"
    using assms(1) updateTotalVotingPower_eq [OF vals_ok_range [OF assms(1)]] by (simp add: vals_ok_def)
  then show ?thesis
    unfolding n [symmetric] by (simp add: normalize_def res_bind_assoc split_def)
qed

lemma merged_ok:
  assumes "vals_ok vs" "prio_ok vs" "changes_ok cs" "0 \<le> t" "t \<le> 2 * MaxTotalVotingPower"
    "applied vs cs \<noteq> []" "powers (applied vs cs) \<le> MaxTotalVotingPower"
  shows "vals_ok (merged vs cs t)" "merged vs cs t \<noteq> []"
proof -
  note m = merged_facts [OF assms(1-5)]
  show "merged vs cs t \<noteq> []" using m(1) assms(6) by (metis image_is_empty set_empty)
  have "\<forall>i \<in> ident ` set (applied vs cs). 0 < snd (snd i)"
    using assms(1,3) by (fastforce simp: applied_def untouched_def vals_ok_def changes_ok_def ident_def less_le)
  then have "\<forall>v \<in> set (merged vs cs t). 0 < VotingPower v"
    unfolding m(1) [symmetric] by (simp add: ident_def)
  then show "vals_ok (merged vs cs t)" using m assms(7) by (simp add: vals_ok_def)
qed

lemma update_total_bounds:
  assumes "vals_ok vs" "changes_ok cs" "powers (applied vs cs) \<le> MaxTotalVotingPower"
  shows "0 \<le> powers (applied vs cs) + sum_list (map (old_power vs) (addrs (deletesOf cs)))"
    "powers (applied vs cs) + sum_list (map (old_power vs) (addrs (deletesOf cs))) \<le> 2 * MaxTotalVotingPower"
proof -
  have "0 \<le> powers (applied vs cs)"
    using assms(1,2) by (intro sum_list_nonneg_int) (auto simp: applied_def untouched_def vals_ok_def changes_ok_def less_imp_le)
  moreover have "sum_list (map (old_power vs) (addrs (deletesOf cs))) \<le> powers vs"
    using sorted_changes(3) [OF assms(2)] by (intro old_power_le [OF assms(1)]) simp
  moreover have "powers vs \<le> MaxTotalVotingPower" using assms(1) by (simp add: vals_ok_def)
  ultimately show "0 \<le> powers (applied vs cs) + sum_list (map (old_power vs) (addrs (deletesOf cs)))"
    "powers (applied vs cs) + sum_list (map (old_power vs) (addrs (deletesOf cs))) \<le> 2 * MaxTotalVotingPower"
    using assms(3) old_powers_nonneg [OF assms(1), of "addrs (deletesOf cs)"] by linarith+
qed

lemma update_known:
  assumes "vals_ok (Validators vals)" "prio_ok (Validators vals)" "total_ok vals" "changes_ok cs" "cs \<noteq> []"
    "set (addrs (deletesOf cs)) \<subseteq> set (addrs (Validators vals))"
  defines "t \<equiv> powers (applied (Validators vals) cs) + sum_list (map (old_power (Validators vals)) (addrs (deletesOf cs)))"
  shows "updateWithChangeSet vals cs allow =
    (if \<not> allow \<and> length (deletesOf cs) \<noteq> 0 then Err ErrZeroPower
     else if applied (Validators vals) cs = [] then Err ErrWouldBeEmpty
     else if powers (applied (Validators vals) cs) \<le> MaxTotalVotingPower
       then Ok (vals\<lparr>Validators := sortByVotingPower (normed (merged (Validators vals) cs t)),
                     vs_total := powers (applied (Validators vals) cs)\<rparr>)
     else Err ErrTotalVotingPowerOverflow)"
proof -
  let ?vs = "Validators vals" and ?us = "updatesOf cs" and ?ds = "deletesOf cs"
  note sc = sorted_changes [OF assms(4)]
  have d: "distinct (addrs ?ds)" using sc(3) by simp
  have pc: "processChanges cs = Ok (?us, ?ds)" using processChanges_cases [of cs] assms(4) by simp
  have rng: "\<forall>u \<in> set ?us. 0 \<le> VotingPower u \<and> VotingPower u \<le> MaxTotalVotingPower" using assms(4) by (simp add: changes_ok_def)
  have vr: "verifyRemovals ?ds ?vs = Ok (sum_list (map (old_power ?vs) (addrs ?ds)))"
    using verifyRemovals_cases [OF assms(1) d] assms(6) by simp
  note vu = verifyUpdates_cases [OF assms(1,3) sc(3) rng, unfolded powers_applied [OF assms(1,4)], folded t_def]
  have known: "\<forall>c \<in> set cs. VotingPower c = 0 \<longrightarrow> val_Address c \<in> set (addrs ?vs)" using assms(6) by auto
  let ?v = "vals\<lparr>vs_total := powers ?vs\<rparr>"
  have ar: "applyRemovals (applyUpdates ?v (computeNewPriorities ?us ?vs t)) ?ds = (Ok (?v\<lparr>Validators := merged ?vs cs t\<rparr>) :: (valset_error, _) res)"
    by (rule applyRemovals_merged) (use assms known in simp_all)
  have rn: "res_bind (updateTotalVotingPower (?v\<lparr>Validators := merged ?vs cs t\<rparr>)) (\<lambda>vals. res_bind (TotalVotingPower vals) (\<lambda>(vals, total).
        res_bind (RescalePriorities vals (wrap64 (PriorityWindowSizeFactor * total))) (\<lambda>vals.
        res_bind (shiftByAvgProposerPriority vals) (\<lambda>vals. Ok (vals\<lparr>Validators := sortByVotingPower (Validators vals)\<rparr>))))) =
      (Ok (vals\<lparr>Validators := sortByVotingPower (normed (merged ?vs cs t)), vs_total := powers (applied ?vs cs)\<rparr>) :: (valset_error, _) res)"
    if "applied ?vs cs \<noteq> []" "powers (applied ?vs cs) \<le> MaxTotalVotingPower"
  proof -
    note t = update_total_bounds [OF assms(1,4) that(2), folded t_def]
    note m = merged_ok [OF assms(1,2,4) t that] merged_facts(3,4) [OF assms(1,2,4) t]
    show ?thesis by (subst renormalize) (simp_all add: m)
  qed
  define bad where "bad \<longleftrightarrow> \<not> allow \<and> length ?ds \<noteq> 0"
  have ne: "length cs \<noteq> 0" using assms(5) by simp
  show ?thesis
    unfolding updateWithChangeSet_def pc res_bind.simps prod.case bad_def [symmetric] would_be_empty [OF assms(1,4,6)] vr vu if_not_P [OF ne]
    by (cases bad; cases "applied ?vs cs = []"; cases "powers (applied ?vs cs) \<le> MaxTotalVotingPower")
      (simp_all add: ar rn Let_def)
qed

lemma update_accepted:
  assumes "vals_ok (Validators vals)" "prio_ok (Validators vals)" "total_ok vals"
    "acceptable (Validators vals) cs allow" "cs \<noteq> []"
  shows "\<exists>t. 0 \<le> t \<and> t \<le> 2 * MaxTotalVotingPower \<and> updateWithChangeSet vals cs allow =
    Ok (vals\<lparr>Validators := sortByVotingPower (normed (merged (Validators vals) cs t)),
             vs_total := powers (applied (Validators vals) cs)\<rparr>)"
proof (intro exI conjI)
  have c: "changes_ok cs" "powers (applied (Validators vals) cs) \<le> MaxTotalVotingPower" "applied (Validators vals) cs \<noteq> []"
    "set (addrs (deletesOf cs)) \<subseteq> set (addrs (Validators vals))" "\<not> (\<not> allow \<and> length (deletesOf cs) \<noteq> 0)"
    using assms(4) by (auto simp: acceptable_def filter_empty_conv)
  show "updateWithChangeSet vals cs allow = Ok (vals\<lparr>Validators := sortByVotingPower (normed (merged (Validators vals) cs
        (powers (applied (Validators vals) cs) + sum_list (map (old_power (Validators vals)) (addrs (deletesOf cs)))))),
      vs_total := powers (applied (Validators vals) cs)\<rparr>)"
    unfolding update_known [OF assms(1-3) c(1) assms(5) c(4)] using c(2,3,5) by simp
  show "0 \<le> powers (applied (Validators vals) cs) + sum_list (map (old_power (Validators vals)) (addrs (deletesOf cs)))"
    "powers (applied (Validators vals) cs) + sum_list (map (old_power (Validators vals)) (addrs (deletesOf cs))) \<le> 2 * MaxTotalVotingPower"
    by (rule update_total_bounds [OF assms(1) c(1,2)])+
qed

lemma update_rejected:
  assumes "vals_ok (Validators vals)" "prio_ok (Validators vals)" "total_ok vals"
    "\<not> acceptable (Validators vals) cs allow" "cs \<noteq> []"
  shows "\<exists>e. updateWithChangeSet vals cs allow = Err e"
proof -
  let ?vs = "Validators vals" and ?ds = "deletesOf cs"
  consider "\<not> changes_ok cs" | "changes_ok cs" "\<not> set (addrs ?ds) \<subseteq> set (addrs ?vs)"
    | "changes_ok cs" "set (addrs ?ds) \<subseteq> set (addrs ?vs)" by blast
  then show ?thesis
  proof cases
    case 1
    with processChanges_cases [of cs] show ?thesis using assms(5) by (auto simp: updateWithChangeSet_def)
  next
    case 2
    obtain e where e: "verifyRemovals ?ds ?vs = Err e"
      using verifyRemovals_cases [OF assms(1), of ?ds] sorted_changes(3) [OF 2(1)] 2(2) by auto
    have pc: "processChanges cs = Ok (updatesOf cs, ?ds)" using processChanges_cases [of cs] 2(1) by simp
    show ?thesis unfolding updateWithChangeSet_def pc res_bind.simps prod.case e using assms(5) by auto
  next
    case 3
    have "\<forall>c \<in> set cs. VotingPower c = 0 \<longrightarrow> val_Address c \<in> set (addrs ?vs)" using 3(2) by auto
    then have "(\<not> allow \<and> length ?ds \<noteq> 0) \<or> applied ?vs cs = [] \<or> \<not> powers (applied ?vs cs) \<le> MaxTotalVotingPower"
      using assms(4) 3(1) by (auto simp: acceptable_def filter_empty_conv)
    then show ?thesis unfolding update_known [OF assms(1-3) 3(1) assms(5) 3(2)] by auto
  qed
qed

section \<open>Properties\<close>

lemma normed_ident: "ident ` set (normed vs) = ident ` set vs"
  by (auto simp: normed_def centered_def rescaled_def ident_def image_image)

lemma stepped_ident: "ident ` set (stepped vs) = ident ` set vs"
proof -
  have "map ident (stepped vs) = map ident vs" by (rule nth_equalityI) (simp_all add: stepped_nth ident_def)
  then show ?thesis by (metis set_map)
qed

lemma normed_prio_ok: "vals_ok vs \<Longrightarrow> vs \<noteq> [] \<Longrightarrow> prio_ok (normed vs)"
proof -
  assume vs: "vals_ok vs" "vs \<noteq> []"
  have "powers vs \<le> MaxTotalVotingPower" using vs by (simp add: vals_ok_def)
  then show ?thesis using normed_abs [OF vs] max_nonneg(1) unfolding prio_ok_def by (smt (verit))
qed

lemma update_wf:
  assumes "vals_ok (Validators vals)" "prio_ok (Validators vals)" "total_ok vals"
    "acceptable (Validators vals) cs allow" "cs \<noteq> []" "updateWithChangeSet vals cs allow = Ok vals'"
  shows "wf_vals vals' \<and> ident ` set (Validators vals') = ident ` set (applied (Validators vals) cs) \<and>
    Proposer vals' = Proposer vals \<and> vs_total vals' = powers (Validators vals')"
proof -
  let ?vs = "Validators vals"
  have c: "changes_ok cs" "powers (applied ?vs cs) \<le> MaxTotalVotingPower" "applied ?vs cs \<noteq> []"
    using assms(4) by (auto simp: acceptable_def)
  from update_accepted [OF assms(1-5)] obtain t where t: "0 \<le> t" "t \<le> 2 * MaxTotalVotingPower"
    and vals': "vals' = vals\<lparr>Validators := sortByVotingPower (normed (merged ?vs cs t)), vs_total := powers (applied ?vs cs)\<rparr>"
    using assms(6) by auto
  note m = merged_ok [OF assms(1,2) c(1) t c(3,2)] merged_facts [OF assms(1,2) c(1) t]
  show ?thesis
    using m normed_prio_ok [OF m(1,2)]
    by (simp add: vals' wf_vals_def sortByVotingPower_facts normed_ident total_ok_def)
qed

text \<open>
  C22: Applying a change set to a validator set with distinct addresses, positive powers and bounded
  priorities refines its abstract meaning on the set of validators. An acceptable change set is
  applied: the result is well formed and holds exactly the untouched validators and the updates, and
  the cached total is right. Any other change set gives an error, never a panic.
\<close>

theorem change_set_refinement:
  assumes "vals_ok (Validators vals)" "prio_ok (Validators vals)" "total_ok vals" "cs \<noteq> []"
  shows "if acceptable (Validators vals) cs True
    then \<exists>vals'. UpdateWithChangeSet vals cs = Ok vals' \<and> wf_vals vals' \<and> vs_total vals' = powers (Validators vals') \<and>
           ident ` set (Validators vals') = ident ` set (applied (Validators vals) cs)
    else \<exists>e. UpdateWithChangeSet vals cs = Err e"
proof (cases "acceptable (Validators vals) cs True")
  case True
  then obtain vals' where "UpdateWithChangeSet vals cs = Ok vals'"
    using update_accepted [OF assms(1-3) _ assms(4)] by (auto simp: UpdateWithChangeSet_def)
  with True update_wf [OF assms(1-3) True assms(4)] show ?thesis by (auto simp: UpdateWithChangeSet_def)
next
  case False
  then show ?thesis using update_rejected [OF assms(1-3) False assms(4)] by (simp add: UpdateWithChangeSet_def)
qed

definition demo_changes :: "Validator list" where
  "demo_changes =
     [\<lparr>val_Address = [2], val_PubKey = Ed25519 [2], VotingPower = 0, ProposerPriority = 0\<rparr>,
      \<lparr>val_Address = [3], val_PubKey = Ed25519 [3], VotingPower = 9, ProposerPriority = 0\<rparr>]"

theorem change_set_refinement_witness:
  "\<exists>vals'. UpdateWithChangeSet demo_vals demo_changes = Ok vals' \<and> wf_vals vals' \<and>
     ident ` set (Validators vals') = {([1], Ed25519 [1], 5), ([3], Ed25519 [3], 9)}"
proof -
  have "acceptable (Validators demo_vals) demo_changes True" "demo_changes \<noteq> []"
    "ident ` set (applied (Validators demo_vals) demo_changes) = {([1], Ed25519 [1], 5), ([3], Ed25519 [3], 9)}"
    by (simp_all add: acceptable_def demo_vals_def demo_changes_def changes_ok_def applied_def untouched_def max_power ident_def)
  then show ?thesis using demo_wf change_set_refinement [of demo_vals demo_changes] by (auto simp: wf_vals_def)
qed



end
