(* ===== verification/Commits.thy ===== *)
theory Commits
  imports ValUpdate
begin

text \<open>
  Commits (\<open>types/block.go\<close>, \<open>Vote.CommitSig\<close> of \<open>types/vote.go\<close>): commit signatures, commits, what a
  commit signature stands for as a vote, their validation, hash and protobuf conversions. The two
  memoized fields of a commit are part of its state: \<open>Hash\<close> and \<open>BitArray\<close> return the commit with
  the memo filled.
\<close>

datatype commit_error =
    ErrUnknownFlag byte | ErrAddressPresent | ErrTimePresent | ErrSignaturePresent
  | ErrSigAddressSize int | ErrSigMissing | ErrSigTooBig
  | ErrCommitHeight | ErrCommitRound | ErrCommitForNil | ErrNoSignatures | ErrWrongCommitSig nat commit_error
  | ErrNilCommit | ErrCommitBlockID basic_error

section \<open>Commit signatures\<close>

definition BlockIDFlagAbsent :: byte where "BlockIDFlagAbsent = 1"
definition BlockIDFlagCommit :: byte where "BlockIDFlagCommit = 2"
definition BlockIDFlagNil :: byte where "BlockIDFlagNil = 3"

lemmas block_flags = BlockIDFlagAbsent_def BlockIDFlagCommit_def BlockIDFlagNil_def

record CommitSig =
  cs_BlockIDFlag :: byte
  cs_ValidatorAddress :: bytes
  cs_Timestamp :: time
  cs_Signature :: bytes

definition NewCommitSigForBlock :: "bytes \<Rightarrow> bytes \<Rightarrow> time \<Rightarrow> CommitSig" where
  "NewCommitSigForBlock signature valAddr ts =
     \<lparr>cs_BlockIDFlag = BlockIDFlagCommit, cs_ValidatorAddress = valAddr, cs_Timestamp = ts, cs_Signature = signature\<rparr>"

definition NewCommitSigAbsent :: CommitSig where
  "NewCommitSigAbsent =
     \<lparr>cs_BlockIDFlag = BlockIDFlagAbsent, cs_ValidatorAddress = [], cs_Timestamp = zero_time, cs_Signature = []\<rparr>"

definition MaxCommitOverheadBytes :: int64 where "MaxCommitOverheadBytes = 94"
definition MaxCommitSigBytes :: int64 where "MaxCommitSigBytes = 109"

definition MaxCommitBytes :: "int \<Rightarrow> int64" where
  "MaxCommitBytes valCount =
     (let protoEncodingOverhead = 2
      in wrap64 (MaxCommitOverheadBytes + wrap64 ((MaxCommitSigBytes + protoEncodingOverhead) * valCount)))"

definition ForBlock :: "CommitSig \<Rightarrow> bool" where
  "ForBlock cs \<longleftrightarrow> cs_BlockIDFlag cs = BlockIDFlagCommit"

definition Absent :: "CommitSig \<Rightarrow> bool" where
  "Absent cs \<longleftrightarrow> cs_BlockIDFlag cs = BlockIDFlagAbsent"

definition CommitSig_BlockID :: "CommitSig \<Rightarrow> BlockID \<Rightarrow> ('e, BlockID) res" where
  "CommitSig_BlockID cs commitBlockID =
     (if cs_BlockIDFlag cs = BlockIDFlagAbsent then Ok bid_zero
      else if cs_BlockIDFlag cs = BlockIDFlagCommit then Ok commitBlockID
      else if cs_BlockIDFlag cs = BlockIDFlagNil then Ok bid_zero
      else Panic ''Unknown BlockIDFlag'')"

definition CommitSig_ValidateBasic :: "CommitSig \<Rightarrow> (commit_error, unit) res" where
  "CommitSig_ValidateBasic cs =
     (if cs_BlockIDFlag cs \<notin> {BlockIDFlagAbsent, BlockIDFlagCommit, BlockIDFlagNil}
      then Err (ErrUnknownFlag (cs_BlockIDFlag cs))
      else if cs_BlockIDFlag cs = BlockIDFlagAbsent then
        (if length (cs_ValidatorAddress cs) \<noteq> 0 then Err ErrAddressPresent
         else if cs_Timestamp cs \<noteq> zero_time then Err ErrTimePresent
         else if length (cs_Signature cs) \<noteq> 0 then Err ErrSignaturePresent
         else Ok ())
      else
        (if length (cs_ValidatorAddress cs) \<noteq> AddressSize
         then Err (ErrSigAddressSize (int (length (cs_ValidatorAddress cs))))
         else if length (cs_Signature cs) = 0 then Err ErrSigMissing
         else if length (cs_Signature cs) > MaxSignatureSize then Err ErrSigTooBig
         else Ok ()))"

text \<open>
  The protobuf message has an \<open>int32\<close> for the flag, so reading it back keeps the low byte only.
\<close>

record protoCommitSig =
  pcs_BlockIdFlag :: int32
  pcs_ValidatorAddress :: bytes
  pcs_Timestamp :: time
  pcs_Signature :: bytes

definition CommitSig_ToProto :: "CommitSig \<Rightarrow> protoCommitSig" where
  "CommitSig_ToProto cs =
     \<lparr>pcs_BlockIdFlag = uint (cs_BlockIDFlag cs), pcs_ValidatorAddress = cs_ValidatorAddress cs,
      pcs_Timestamp = cs_Timestamp cs, pcs_Signature = cs_Signature cs\<rparr>"

definition CommitSig_FromProto :: "protoCommitSig \<Rightarrow> (commit_error, CommitSig) res" where
  "CommitSig_FromProto csp =
     (let cs = \<lparr>cs_BlockIDFlag = word_of_int (pcs_BlockIdFlag csp), cs_ValidatorAddress = pcs_ValidatorAddress csp,
                cs_Timestamp = pcs_Timestamp csp, cs_Signature = pcs_Signature csp\<rparr>
      in res_bind (CommitSig_ValidateBasic cs) (\<lambda>_. Ok cs))"

definition CommitSig_MarshalToSizedBuffer :: "env \<Rightarrow> protoCommitSig \<Rightarrow> bytes option" where
  "CommitSig_MarshalToSizedBuffer E m =
     (let acc = [];
          acc = (if length (pcs_Signature m) > 0
                 then 0x22 # encodeVarint (pcs_Signature m @ acc) (length (pcs_Signature m)) else acc)
      in case StdTimeMarshal E (pcs_Timestamp m) of None \<Rightarrow> None
         | Some t \<Rightarrow>
             (let acc = 0x1a # encodeVarint (t @ acc) (length t);
                  acc = (if length (pcs_ValidatorAddress m) > 0
                         then 0x12 # encodeVarint (pcs_ValidatorAddress m @ acc) (length (pcs_ValidatorAddress m)) else acc);
                  acc = (if pcs_BlockIdFlag m \<noteq> 0 then 0x08 # encodeVarint acc (to_uint64 (pcs_BlockIdFlag m)) else acc)
              in Some acc))"

definition CommitSig_Size :: "env \<Rightarrow> protoCommitSig \<Rightarrow> nat" where
  "CommitSig_Size E m =
     (let n = 0;
          n = (if pcs_BlockIdFlag m \<noteq> 0 then n + (1 + sov (to_uint64 (pcs_BlockIdFlag m))) else n);
          l = length (pcs_ValidatorAddress m);
          n = (if l > 0 then n + (1 + l + sov l) else n);
          l = SizeOfStdTime E (pcs_Timestamp m);
          n = n + (1 + l + sov l);
          l = length (pcs_Signature m)
      in if l > 0 then n + (1 + l + sov l) else n)"

definition Vote_CommitSig :: "Vote option \<Rightarrow> ('e, CommitSig) res" where
  "Vote_CommitSig ov =
     (case ov of None \<Rightarrow> Ok NewCommitSigAbsent
      | Some vote \<Rightarrow>
          if bid_IsComplete (v_BlockID vote) then
            Ok \<lparr>cs_BlockIDFlag = BlockIDFlagCommit, cs_ValidatorAddress = v_ValidatorAddress vote,
                cs_Timestamp = v_Timestamp vote, cs_Signature = v_Signature vote\<rparr>
          else if bid_IsZero (v_BlockID vote) then
            Ok \<lparr>cs_BlockIDFlag = BlockIDFlagNil, cs_ValidatorAddress = v_ValidatorAddress vote,
                cs_Timestamp = v_Timestamp vote, cs_Signature = v_Signature vote\<rparr>
          else Panic ''Invalid vote - expected BlockID to be either empty or complete'')"

section \<open>Commits\<close>

record Commit =
  c_Height :: int64
  c_Round :: int32
  c_BlockID :: BlockID
  c_Signatures :: "CommitSig list"
  c_hash :: "bytes option"
  c_bitArray :: ba_ptr

definition NewCommit :: "int64 \<Rightarrow> int32 \<Rightarrow> BlockID \<Rightarrow> CommitSig list \<Rightarrow> Commit" where
  "NewCommit height round blockID commitSigs =
     \<lparr>c_Height = height, c_Round = round, c_BlockID = blockID, c_Signatures = commitSigs, c_hash = None, c_bitArray = None\<rparr>"

definition GetVote :: "Commit \<Rightarrow> int32 \<Rightarrow> ('e, Vote) res" where
  "GetVote commit valIdx =
     (if valIdx < 0 \<or> valIdx \<ge> int (length (c_Signatures commit)) then Panic ''index out of range''
      else (let commitSig = c_Signatures commit ! nat valIdx
            in res_bind (CommitSig_BlockID commitSig (c_BlockID commit)) (\<lambda>blockID.
                 Ok \<lparr>v_Type = PrecommitType, v_Height = c_Height commit, v_Round = c_Round commit, v_BlockID = blockID,
                     v_Timestamp = cs_Timestamp commitSig, v_ValidatorAddress = cs_ValidatorAddress commitSig,
                     v_ValidatorIndex = valIdx, v_Signature = cs_Signature commitSig\<rparr>)))"

definition Commit_VoteSignBytes :: "env \<Rightarrow> bytes \<Rightarrow> Commit \<Rightarrow> int32 \<Rightarrow> ('e, bytes) res" where
  "Commit_VoteSignBytes E chainID commit valIdx =
     res_bind (GetVote commit valIdx) (\<lambda>vote.
       case Vote_ToProto (Some vote) of
         None \<Rightarrow> Panic ''nil pointer dereference''
       | Some v \<Rightarrow> VoteSignBytes E chainID v)"

definition Commit_Type :: "Commit \<Rightarrow> int32" where "Commit_Type commit = PrecommitType"
definition Commit_GetHeight :: "Commit \<Rightarrow> int64" where "Commit_GetHeight commit = c_Height commit"
definition Commit_GetRound :: "Commit \<Rightarrow> int32" where "Commit_GetRound commit = c_Round commit"

definition Commit_Size :: "Commit option \<Rightarrow> int" where
  "Commit_Size oc = (case oc of None \<Rightarrow> 0 | Some commit \<Rightarrow> int (length (c_Signatures commit)))"

definition Commit_BitArray :: "Commit \<Rightarrow> ('e, Commit \<times> ba_ptr) res" where
  "Commit_BitArray commit =
     (case c_bitArray commit of Some ba \<Rightarrow> Ok (commit, Some ba)
      | None \<Rightarrow>
          res_bind (res_fold (\<lambda>ba (i, commitSig). res_bind (SetIndex ba (int i) (\<not> Absent commitSig)) (\<lambda>(ba', _). Ok ba'))
              (NewBitArray (int (length (c_Signatures commit)))) (enumerate 0 (c_Signatures commit)))
            (\<lambda>ba. Ok (commit\<lparr>c_bitArray := ba\<rparr>, ba)))"

definition Commit_GetByIndex :: "Commit \<Rightarrow> int32 \<Rightarrow> ('e, Vote) res" where
  "Commit_GetByIndex commit valIdx = GetVote commit valIdx"

definition Commit_IsCommit :: "Commit \<Rightarrow> bool" where
  "Commit_IsCommit commit \<longleftrightarrow> length (c_Signatures commit) \<noteq> 0"

fun validateSigs :: "nat \<Rightarrow> CommitSig list \<Rightarrow> (commit_error, unit) res" where
  "validateSigs i [] = Ok ()"
| "validateSigs i (commitSig # sigs) =
     (case CommitSig_ValidateBasic commitSig of
        Err e \<Rightarrow> Err (ErrWrongCommitSig i e)
      | Panic s \<Rightarrow> Panic s
      | Ok _ \<Rightarrow> validateSigs (Suc i) sigs)"

definition Commit_ValidateBasic :: "Commit \<Rightarrow> (commit_error, unit) res" where
  "Commit_ValidateBasic commit =
     (if c_Height commit < 0 then Err ErrCommitHeight
      else if c_Round commit < 0 then Err ErrCommitRound
      else if c_Height commit \<ge> 1 then
        (if bid_IsZero (c_BlockID commit) then Err ErrCommitForNil
         else if length (c_Signatures commit) = 0 then Err ErrNoSignatures
         else validateSigs 0 (c_Signatures commit))
      else Ok ())"

definition CommitSig_Marshal :: "env \<Rightarrow> protoCommitSig \<Rightarrow> ('e, bytes) res" where
  "CommitSig_Marshal E m =
     (case CommitSig_MarshalToSizedBuffer E m of
        None \<Rightarrow> Panic ''timestamp out of range''
      | Some acc \<Rightarrow> marshalSized (CommitSig_Size E m) acc)"

definition Commit_Hash :: "env \<Rightarrow> Commit option \<Rightarrow> ('e, Commit option \<times> bytes option) res" where
  "Commit_Hash E oc =
     (case oc of None \<Rightarrow> Ok (None, None)
      | Some commit \<Rightarrow>
          (case c_hash commit of Some h \<Rightarrow> Ok (Some commit, Some h)
           | None \<Rightarrow>
               res_bind (res_fold (\<lambda>bs commitSig. res_bind (CommitSig_Marshal E (CommitSig_ToProto commitSig)) (\<lambda>bz. Ok (bs @ [bz])))
                   [] (c_Signatures commit))
                 (\<lambda>bs. let h = HashFromByteSlices (Sum256 E) bs in Ok (Some (commit\<lparr>c_hash := Some h\<rparr>), Some h))))"

record protoCommit =
  pc_Height :: int64
  pc_Round :: int32
  pc_BlockID :: BlockID
  pc_Signatures :: "protoCommitSig list"

definition Commit_ToProto :: "Commit option \<Rightarrow> protoCommit option" where
  "Commit_ToProto oc =
     map_option (\<lambda>commit. \<lparr>pc_Height = c_Height commit, pc_Round = c_Round commit,
        pc_BlockID = bid_ToProto (Some (c_BlockID commit)), pc_Signatures = map CommitSig_ToProto (c_Signatures commit)\<rparr>) oc"

definition CommitFromProto :: "protoCommit option \<Rightarrow> (commit_error, Commit) res" where
  "CommitFromProto ocp =
     (case ocp of None \<Rightarrow> Err ErrNilCommit
      | Some cp \<Rightarrow>
          (case BlockIDFromProto (Some (pc_BlockID cp)) of
             Err e \<Rightarrow> Err (ErrCommitBlockID e)
           | Panic s \<Rightarrow> Panic s
           | Ok bi \<Rightarrow>
               res_bind (res_fold (\<lambda>sigs p. res_bind (CommitSig_FromProto p) (\<lambda>s. Ok (sigs @ [s]))) [] (pc_Signatures cp)) (\<lambda>sigs.
                 (let commit = \<lparr>c_Height = pc_Height cp, c_Round = pc_Round cp, c_BlockID = bi, c_Signatures = sigs,
                                c_hash = None, c_bitArray = None\<rparr>
                  in res_bind (Commit_ValidateBasic commit) (\<lambda>_. Ok commit)))))"

section \<open>Properties of the conversions\<close>

lemma res_fold_collect:
  assumes "\<And>x. x \<in> set xs \<Longrightarrow> f x = Ok (g x)"
  shows "res_fold (\<lambda>acc x. res_bind (f x) (\<lambda>y. Ok (acc @ [y]))) acc xs = Ok (acc @ map g xs)"
  using assms by (induction xs arbitrary: acc) auto

lemma res_fold_map: "res_fold f s (map g xs) = res_fold (\<lambda>s x. f s (g x)) s xs"
  by (induction xs arbitrary: s) simp_all

lemma bid_proto_id: "bid_ToProto (Some b) = b"
  by (simp add: bid_ToProto_def psh_ToProto_def)

lemma BlockIDFromProto_Ok: "bid_ValidateBasic b = Ok () \<Longrightarrow> BlockIDFromProto (Some b) = Ok b"
  by (auto simp: BlockIDFromProto_def PartSetHeaderFromProto_def bid_ValidateBasic_def psh_ValidateBasic_def split: res.splits)

lemma CommitSig_roundtrip:
  "CommitSig_ValidateBasic cs = Ok () \<Longrightarrow> CommitSig_FromProto (CommitSig_ToProto cs) = Ok cs"
  by (cases cs) (simp add: CommitSig_FromProto_def CommitSig_ToProto_def Let_def)

lemma validateSigs_Ok: "validateSigs i sigs = Ok () \<longleftrightarrow> (\<forall>cs \<in> set sigs. CommitSig_ValidateBasic cs = Ok ())"
proof (induction sigs arbitrary: i)
  case (Cons cs sigs)
  then show ?case by (cases "CommitSig_ValidateBasic cs") auto
qed simp

context bit_vector
begin

lemma put_enumerate:
  assumes "invar v" "k + length xs \<le> length (list v)"
  shows "\<exists>v'. res_fold (\<lambda>v (i, x). res_bind (put v (int i) (f x)) (\<lambda>(v', _). Ok v')) v (enumerate k xs) = Ok v' \<and>
    invar v' \<and> list v' = take k (list v) @ map f xs @ drop (k + length xs) (list v)"
  using assms
proof (induction xs arbitrary: k v)
  case (Cons x xs)
  obtain w where w: "put v (int k) (f x) = Ok (w, True)" "invar w" "list w = (list v)[k := f x]"
    using put_in [of v "int k" "f x"] Cons.prems by (auto simp: size_list)
  from Cons.IH [OF w(2), of "Suc k"] obtain v' where
    v': "res_fold (\<lambda>v (i, x). res_bind (put v (int i) (f x)) (\<lambda>(v', _). Ok v')) w (enumerate (Suc k) xs) = Ok v'" "invar v'"
      "list v' = take (Suc k) (list w) @ map f xs @ drop (Suc k + length xs) (list w)"
    using Cons.prems w(3) by auto
  have "list v' = take k (list v) @ map f (x # xs) @ drop (k + length (x # xs)) (list v)"
    using Cons.prems(2) by (simp add: v'(3) w(3) take_Suc_conv_app_nth)
  with v' w(1) show ?case by simp
qed simp

end

text \<open>
  C29: The bit array of a commit has one bit per signature, and a bit is set exactly when the signature
  is not absent; computing it cannot panic.
\<close>

theorem commit_bit_array:
  assumes "c_bitArray commit = None"
  shows "\<exists>ba. (Commit_BitArray commit :: ('e, _) res) = Ok (commit\<lparr>c_bitArray := ba\<rparr>, ba) \<and> ptr_wf ba \<and>
    ptr_list ba = map (\<lambda>cs. \<not> Absent cs) (c_Signatures commit)"
proof -
  let ?n = "length (c_Signatures commit)"
  have "\<exists>b. res_fold (\<lambda>ba (i, cs). res_bind (SetIndex ba (int i) (\<not> Absent cs)) (\<lambda>(ba', _). Ok ba'))
        (NewBitArray (int ?n)) (enumerate 0 (c_Signatures commit)) = (Ok b :: ('e, _) res) \<and> ptr_wf b \<and>
      ptr_list b = take 0 (ptr_list (NewBitArray (int ?n))) @ map (\<lambda>cs. \<not> Absent cs) (c_Signatures commit) @
        drop (0 + ?n) (ptr_list (NewBitArray (int ?n)))"
    by (rule ba.put_enumerate) (simp_all add: NewBitArray_wf)
  then show ?thesis using assms by (auto simp: Commit_BitArray_def NewBitArray_wf)
qed

definition sample_commit :: Commit where
  "sample_commit = NewCommit 5 0 (v_BlockID sample_vote) [NewCommitSigForBlock [1] (replicate 20 1) 100, NewCommitSigAbsent]"

theorem commit_bit_array_witness:
  "\<exists>ba. Commit_BitArray sample_commit = Ok (sample_commit\<lparr>c_bitArray := ba\<rparr>, ba) \<and> ptr_list ba = [True, False]"
  using commit_bit_array [of sample_commit]
  by (auto simp: sample_commit_def NewCommit_def NewCommitSigForBlock_def NewCommitSigAbsent_def Absent_def block_flags)

definition commit_ok :: "Commit \<Rightarrow> bool" where
  "commit_ok commit \<longleftrightarrow> Commit_ValidateBasic commit = Ok () \<and> bid_ValidateBasic (c_BlockID commit) = Ok () \<and>
     (\<forall>cs \<in> set (c_Signatures commit). CommitSig_ValidateBasic cs = Ok ())"

lemma commit_memo_free: "Commit_ValidateBasic (commit\<lparr>c_hash := h, c_bitArray := b\<rparr>) = Commit_ValidateBasic commit"
  by (simp add: Commit_ValidateBasic_def)

text \<open>
  C28: A valid commit survives its protobuf round trip: reading back what \<open>ToProto\<close> writes succeeds and
  gives the same commit, without its memoized fields.
\<close>

theorem commit_proto_roundtrip:
  assumes "commit_ok commit"
  shows "CommitFromProto (Commit_ToProto (Some commit)) = Ok (commit\<lparr>c_hash := None, c_bitArray := None\<rparr>)"
proof -
  have "CommitSig_FromProto (CommitSig_ToProto cs) = Ok cs" if "cs \<in> set (c_Signatures commit)" for cs
    using assms that CommitSig_roundtrip by (simp add: commit_ok_def)
  then have "res_fold (\<lambda>sigs p. res_bind (CommitSig_FromProto p) (\<lambda>s. Ok (sigs @ [s]))) []
      (map CommitSig_ToProto (c_Signatures commit)) = Ok (c_Signatures commit)"
    using res_fold_collect [of "c_Signatures commit" "\<lambda>cs. CommitSig_FromProto (CommitSig_ToProto cs)" id "[]"]
    by (simp add: res_fold_map)
  then show ?thesis
    using assms commit_memo_free [where commit = commit and h = None and b = None]
    by (cases commit) (simp add: CommitFromProto_def Commit_ToProto_def commit_ok_def BlockIDFromProto_Ok bid_proto_id Let_def)
qed

theorem commit_proto_roundtrip_witness: "CommitFromProto (Commit_ToProto (Some sample_commit)) = Ok sample_commit"
proof -
  have "commit_ok sample_commit" "sample_commit\<lparr>c_hash := None, c_bitArray := None\<rparr> = sample_commit"
    by (simp_all add: commit_ok_def sample_commit_def sample_vote_def NewCommit_def NewCommitSigForBlock_def NewCommitSigAbsent_def
        Commit_ValidateBasic_def CommitSig_ValidateBasic_def bid_ValidateBasic_def psh_ValidateBasic_def ValidateHash_def
        bid_IsZero_def AddressSize_def MaxSignatureSize_def block_flags)
  then show ?thesis using commit_proto_roundtrip [of sample_commit] by simp
qed

end
