(* ===== verification/CommitVerify.thy ===== *)
theory CommitVerify
  imports Commits
begin

text \<open>
  Verification of commits (\<open>types/validation.go\<close>): one signature at a time or as a batch, of all
  signatures or until enough voting power is counted, with the validators looked up by index or by
  address. The three exported functions return the validator set as well: the total power and the
  proposer are cached in it.
\<close>

datatype verify_error =
    ErrNilVals | ErrNilCommitArg | ErrInvalidCommitSignatures int int | ErrInvalidCommitHeight int int | ErrCommitWrongBlockID
  | ErrZeroDenominator | ErrTrustOverflow | ErrDoubleVote Validator nat nat | ErrWrongSignature nat
  | ErrNotEnoughVotingPowerSigned int int | ErrUnsupportedBatch | ErrBatchAdd crypto_error | ErrBatchBug

section \<open>One signature\<close>

text \<open>
  The part of the two loops that finds the validator of a signature: by index, or by address, where an
  unknown validator is skipped and a validator seen before is an error.
\<close>

datatype found = Skip | DoubleVote Validator nat nat | Found Validator "int32 \<Rightarrow> nat option"

definition findValidator :: "ValidatorSet \<Rightarrow> bool \<Rightarrow> nat \<Rightarrow> CommitSig \<Rightarrow> (int32 \<Rightarrow> nat option) \<Rightarrow> ('e, found) res" where
  "findValidator vals lookUpByIndex idx commitSig seenVals =
     (if lookUpByIndex then
        (if idx < length (Validators vals) then Ok (Found (Validators vals ! idx) seenVals)
         else Panic ''index out of range'')
      else
        (let (valIdx, val) = GetByAddress (Validators vals) (cs_ValidatorAddress commitSig)
         in case val of None \<Rightarrow> Ok Skip
            | Some v \<Rightarrow>
                (case seenVals valIdx of
                   Some firstIndex \<Rightarrow> Ok (DoubleVote v firstIndex idx)
                 | None \<Rightarrow> Ok (Found v (seenVals(valIdx \<mapsto> idx))))))"

section \<open>Single verification\<close>

fun singleLoop :: "env \<Rightarrow> bytes \<Rightarrow> ValidatorSet \<Rightarrow> Commit \<Rightarrow> int64 \<Rightarrow> (CommitSig \<Rightarrow> bool) \<Rightarrow> (CommitSig \<Rightarrow> bool) \<Rightarrow> bool \<Rightarrow> bool \<Rightarrow>
    nat \<Rightarrow> CommitSig list \<Rightarrow> (int32 \<Rightarrow> nat option) \<Rightarrow> int64 \<Rightarrow> (verify_error, unit) res" where
  "singleLoop E chainID vals commit needed ignoreSig countSig countAll byIndex idx [] seen tallied =
     (if tallied \<le> needed then Err (ErrNotEnoughVotingPowerSigned tallied needed) else Ok ())"
| "singleLoop E chainID vals commit needed ignoreSig countSig countAll byIndex idx (commitSig # sigs) seen tallied =
     (if ignoreSig commitSig
      then singleLoop E chainID vals commit needed ignoreSig countSig countAll byIndex (Suc idx) sigs seen tallied
      else res_bind (findValidator vals byIndex idx commitSig seen) (\<lambda>f.
        case f of
          Skip \<Rightarrow> singleLoop E chainID vals commit needed ignoreSig countSig countAll byIndex (Suc idx) sigs seen tallied
        | DoubleVote v firstIndex secondIndex \<Rightarrow> Err (ErrDoubleVote v firstIndex secondIndex)
        | Found val seen' \<Rightarrow>
            res_bind (Commit_VoteSignBytes E chainID commit (wrap32 (int idx))) (\<lambda>voteSignBytes.
              if \<not> VerifySignature E (val_PubKey val) voteSignBytes (cs_Signature commitSig) then Err (ErrWrongSignature idx)
              else (let tallied' = (if countSig commitSig then wrap64 (tallied + VotingPower val) else tallied)
                    in if \<not> countAll \<and> tallied' > needed then Ok ()
                       else singleLoop E chainID vals commit needed ignoreSig countSig countAll byIndex (Suc idx) sigs seen' tallied'))))"

definition verifyCommitSingle :: "env \<Rightarrow> bytes \<Rightarrow> ValidatorSet \<Rightarrow> Commit \<Rightarrow> int64 \<Rightarrow> (CommitSig \<Rightarrow> bool) \<Rightarrow> (CommitSig \<Rightarrow> bool) \<Rightarrow>
    bool \<Rightarrow> bool \<Rightarrow> (verify_error, unit) res" where
  "verifyCommitSingle E chainID vals commit needed ignoreSig countSig countAll byIndex =
     singleLoop E chainID vals commit needed ignoreSig countSig countAll byIndex 0 (c_Signatures commit) (\<lambda>_. None) 0"

section \<open>Batch verification\<close>

definition batchVerifyThreshold :: nat where "batchVerifyThreshold = 2"

text \<open>The loop returns the batch, the index of each of its entries in the commit, and the tally.\<close>

fun batchLoop :: "env \<Rightarrow> bytes \<Rightarrow> ValidatorSet \<Rightarrow> Commit \<Rightarrow> int64 \<Rightarrow> (CommitSig \<Rightarrow> bool) \<Rightarrow> (CommitSig \<Rightarrow> bool) \<Rightarrow> bool \<Rightarrow> bool \<Rightarrow>
    nat \<Rightarrow> CommitSig list \<Rightarrow> (int32 \<Rightarrow> nat option) \<Rightarrow> int64 \<Rightarrow> BatchVerifier \<Rightarrow> nat list \<Rightarrow>
    (verify_error, BatchVerifier \<times> nat list \<times> int64) res" where
  "batchLoop E chainID vals commit needed ignoreSig countSig countAll byIndex idx [] seen tallied bv idxs = Ok (bv, idxs, tallied)"
| "batchLoop E chainID vals commit needed ignoreSig countSig countAll byIndex idx (commitSig # sigs) seen tallied bv idxs =
     (if ignoreSig commitSig
      then batchLoop E chainID vals commit needed ignoreSig countSig countAll byIndex (Suc idx) sigs seen tallied bv idxs
      else res_bind (findValidator vals byIndex idx commitSig seen) (\<lambda>f.
        case f of
          Skip \<Rightarrow> batchLoop E chainID vals commit needed ignoreSig countSig countAll byIndex (Suc idx) sigs seen tallied bv idxs
        | DoubleVote v firstIndex secondIndex \<Rightarrow> Err (ErrDoubleVote v firstIndex secondIndex)
        | Found val seen' \<Rightarrow>
            res_bind (Commit_VoteSignBytes E chainID commit (wrap32 (int idx))) (\<lambda>voteSignBytes.
              case Batch_Add E bv (val_PubKey val) voteSignBytes (cs_Signature commitSig) of
                Err e \<Rightarrow> Err (ErrBatchAdd e)
              | Panic s \<Rightarrow> Panic s
              | Ok bv' \<Rightarrow>
                  (let idxs' = idxs @ [idx];
                       tallied' = (if countSig commitSig then wrap64 (tallied + VotingPower val) else tallied)
                   in if \<not> countAll \<and> tallied' > needed then Ok (bv', idxs', tallied')
                      else batchLoop E chainID vals commit needed ignoreSig countSig countAll byIndex (Suc idx) sigs seen' tallied' bv' idxs'))))"

fun firstInvalid :: "bool list \<Rightarrow> nat list \<Rightarrow> nat option" where
  "firstInvalid (ok # oks) (idx # idxs) = (if \<not> ok then Some idx else firstInvalid oks idxs)"
| "firstInvalid _ _ = None"

definition verifyCommitBatch :: "env \<Rightarrow> bytes \<Rightarrow> ValidatorSet \<Rightarrow> Commit \<Rightarrow> int64 \<Rightarrow> (CommitSig \<Rightarrow> bool) \<Rightarrow> (CommitSig \<Rightarrow> bool) \<Rightarrow>
    bool \<Rightarrow> bool \<Rightarrow> (verify_error, unit) res" where
  "verifyCommitBatch E chainID vals commit needed ignoreSig countSig countAll byIndex =
     res_bind (GetProposer vals) (\<lambda>(vals, proposer).
       case proposer of None \<Rightarrow> Panic ''nil pointer dereference''
       | Some p \<Rightarrow>
           (case CreateBatchVerifier (val_PubKey p) of
              None \<Rightarrow> Err ErrUnsupportedBatch
            | Some bv \<Rightarrow>
                if length (c_Signatures commit) < batchVerifyThreshold then Err ErrUnsupportedBatch
                else res_bind (batchLoop E chainID vals commit needed ignoreSig countSig countAll byIndex
                                 0 (c_Signatures commit) (\<lambda>_. None) 0 bv []) (\<lambda>(bv, idxs, tallied).
                  if tallied \<le> needed then Err (ErrNotEnoughVotingPowerSigned tallied needed)
                  else (case Batch_Verify E bv of
                          (True, _) \<Rightarrow> Ok ()
                        | (False, validSigs) \<Rightarrow>
                            (case firstInvalid validSigs idxs of
                               Some idx \<Rightarrow> Err (ErrWrongSignature idx)
                             | None \<Rightarrow> if length validSigs > length idxs \<and> \<not> list_all id (drop (length idxs) validSigs)
                                       then Panic ''index out of range'' else Err ErrBatchBug)))))"

section \<open>The exported functions\<close>

definition shouldBatchVerify :: "ValidatorSet \<Rightarrow> Commit \<Rightarrow> ('e, ValidatorSet \<times> bool) res" where
  "shouldBatchVerify vals commit =
     (if length (c_Signatures commit) \<ge> batchVerifyThreshold then
        res_bind (GetProposer vals) (\<lambda>(vals, proposer).
          case proposer of None \<Rightarrow> Panic ''nil pointer dereference''
          | Some p \<Rightarrow> Ok (vals, SupportsBatchVerifier (val_PubKey p)))
      else Ok (vals, False))"

definition verifyBasicValsAndCommit :: "ValidatorSet option \<Rightarrow> Commit option \<Rightarrow> int64 \<Rightarrow> BlockID \<Rightarrow> (verify_error, ValidatorSet \<times> Commit) res" where
  "verifyBasicValsAndCommit ovals ocommit height blockID =
     (case ovals of None \<Rightarrow> Err ErrNilVals
      | Some vals \<Rightarrow>
          (case ocommit of None \<Rightarrow> Err ErrNilCommitArg
           | Some commit \<Rightarrow>
               if vs_Size vals \<noteq> int (length (c_Signatures commit))
               then Err (ErrInvalidCommitSignatures (vs_Size vals) (int (length (c_Signatures commit))))
               else if height \<noteq> c_Height commit then Err (ErrInvalidCommitHeight height (c_Height commit))
               else if \<not> bid_Equals blockID (c_BlockID commit) then Err ErrCommitWrongBlockID
               else Ok (vals, commit)))"

definition verifyBatchOrSingle :: "env \<Rightarrow> bytes \<Rightarrow> ValidatorSet \<Rightarrow> Commit \<Rightarrow> int64 \<Rightarrow> (CommitSig \<Rightarrow> bool) \<Rightarrow> (CommitSig \<Rightarrow> bool) \<Rightarrow>
    bool \<Rightarrow> bool \<Rightarrow> ValidatorSet \<times> (verify_error, unit) res" where
  "verifyBatchOrSingle E chainID vals commit needed ignoreSig countSig countAll byIndex =
     (case shouldBatchVerify vals commit of
        Ok (vals, True) \<Rightarrow> (vals, verifyCommitBatch E chainID vals commit needed ignoreSig countSig countAll byIndex)
      | Ok (vals, False) \<Rightarrow> (vals, verifyCommitSingle E chainID vals commit needed ignoreSig countSig countAll byIndex)
      | Err e \<Rightarrow> (vals, Err e)
      | Panic s \<Rightarrow> (vals, Panic s))"

definition VerifyCommit :: "env \<Rightarrow> bytes \<Rightarrow> ValidatorSet option \<Rightarrow> BlockID \<Rightarrow> int64 \<Rightarrow> Commit option \<Rightarrow>
    ValidatorSet option \<times> (verify_error, unit) res" where
  "VerifyCommit E chainID ovals blockID height ocommit =
     (case verifyBasicValsAndCommit ovals ocommit height blockID of
        Err e \<Rightarrow> (ovals, Err e)
      | Panic s \<Rightarrow> (ovals, Panic s)
      | Ok (vals, commit) \<Rightarrow>
          (case TotalVotingPower vals of
             Err e \<Rightarrow> (ovals, Err e)
           | Panic s \<Rightarrow> (ovals, Panic s)
           | Ok (vals, totalPower) \<Rightarrow>
               (let votingPowerNeeded = wrap64 (totalPower * 2) sdiv 3;
                    (vals, r) = verifyBatchOrSingle E chainID vals commit votingPowerNeeded Absent ForBlock True True
                in (Some vals, r))))"

definition VerifyCommitLight :: "env \<Rightarrow> bytes \<Rightarrow> ValidatorSet option \<Rightarrow> BlockID \<Rightarrow> int64 \<Rightarrow> Commit option \<Rightarrow>
    ValidatorSet option \<times> (verify_error, unit) res" where
  "VerifyCommitLight E chainID ovals blockID height ocommit =
     (case verifyBasicValsAndCommit ovals ocommit height blockID of
        Err e \<Rightarrow> (ovals, Err e)
      | Panic s \<Rightarrow> (ovals, Panic s)
      | Ok (vals, commit) \<Rightarrow>
          (case TotalVotingPower vals of
             Err e \<Rightarrow> (ovals, Err e)
           | Panic s \<Rightarrow> (ovals, Panic s)
           | Ok (vals, totalPower) \<Rightarrow>
               (let votingPowerNeeded = wrap64 (totalPower * 2) sdiv 3;
                    (vals, r) = verifyBatchOrSingle E chainID vals commit votingPowerNeeded (\<lambda>c. \<not> ForBlock c) (\<lambda>_. True) False True
                in (Some vals, r))))"

text \<open>
  The numerator and denominator are \<open>uint64\<close>; the conversions to \<open>int64\<close> wrap, and a division by a
  denominator that wraps to zero cannot happen, since zero is refused.
\<close>

definition VerifyCommitLightTrusting :: "env \<Rightarrow> bytes \<Rightarrow> ValidatorSet option \<Rightarrow> Commit option \<Rightarrow> Fraction \<Rightarrow>
    ValidatorSet option \<times> (verify_error, unit) res" where
  "VerifyCommitLightTrusting E chainID ovals ocommit trustLevel =
     (case ovals of None \<Rightarrow> (ovals, Err ErrNilVals)
      | Some vals \<Rightarrow>
          if Denominator trustLevel = 0 then (ovals, Err ErrZeroDenominator)
          else (case ocommit of None \<Rightarrow> (ovals, Err ErrNilCommitArg)
            | Some commit \<Rightarrow>
                (case TotalVotingPower vals of
                   Err e \<Rightarrow> (ovals, Err e)
                 | Panic s \<Rightarrow> (ovals, Panic s)
                 | Ok (vals, totalPower) \<Rightarrow>
                     (let (product, overflow) = safeMul totalPower (wrap64 (Numerator trustLevel))
                      in if overflow then (Some vals, Err ErrTrustOverflow)
                         else (let votingPowerNeeded = wrap64 (product sdiv wrap64 (Denominator trustLevel));
                                   (vals, r) = verifyBatchOrSingle E chainID vals commit votingPowerNeeded (\<lambda>c. \<not> ForBlock c) (\<lambda>_. True) False False
                               in (Some vals, r))))))"

section \<open>Soundness of single verification\<close>

definition signed_by :: "env \<Rightarrow> bytes \<Rightarrow> Commit \<Rightarrow> nat \<Rightarrow> Validator \<Rightarrow> bool" where
  "signed_by E chainID commit i v =
     (case (Commit_VoteSignBytes E chainID commit (wrap32 (int i)) :: (verify_error, bytes) res) of
        Ok sb \<Rightarrow> VerifySignature E (val_PubKey v) sb (cs_Signature (c_Signatures commit ! i))
      | _ \<Rightarrow> False)"

text \<open>The validator has a signature in the commit that counts and verifies.\<close>

definition counted_for :: "env \<Rightarrow> bytes \<Rightarrow> ValidatorSet \<Rightarrow> Commit \<Rightarrow> (CommitSig \<Rightarrow> bool) \<Rightarrow> (CommitSig \<Rightarrow> bool) \<Rightarrow> bool \<Rightarrow> Validator \<Rightarrow> bool" where
  "counted_for E chainID vals commit ignoreSig countSig byIndex v \<longleftrightarrow>
     (\<exists>j < length (c_Signatures commit).
        \<not> ignoreSig (c_Signatures commit ! j) \<and> countSig (c_Signatures commit ! j) \<and> signed_by E chainID commit j v \<and>
        (if byIndex then j < length (Validators vals) \<and> v = Validators vals ! j
         else val_Address v = cs_ValidatorAddress (c_Signatures commit ! j)))"

text \<open>The validators counted so far: distinct, and recorded in the index or in the map of the seen ones.\<close>

definition tally_of :: "ValidatorSet \<Rightarrow> bool \<Rightarrow> nat \<Rightarrow> (int32 \<Rightarrow> nat option) \<Rightarrow> int64 \<Rightarrow> Validator list \<Rightarrow> bool" where
  "tally_of vals byIndex idx seen tallied vs \<longleftrightarrow>
     distinct vs \<and> set vs \<subseteq> set (Validators vals) \<and> tallied = powers vs \<and>
     (\<forall>v \<in> set vs. if byIndex then v \<in> set (take idx (Validators vals))
                   else seen (fst (GetByAddress (Validators vals) (val_Address v))) \<noteq> None)"

lemma powers_sub_le:
  assumes "vals_ok ws" "distinct vs" "set vs \<subseteq> set ws"
  shows "powers vs \<le> powers ws" "0 \<le> powers vs"
proof -
  have d: "distinct ws" using assms(1) by (auto simp: vals_ok_def distinct_map)
  have "powers vs = sum VotingPower (set vs)" "powers ws = sum VotingPower (set ws)"
    using assms(2) d by (simp_all add: sum_list_distinct_conv_sum_set)
  moreover have "sum VotingPower (set vs) \<le> sum VotingPower (set ws)"
    using assms by (intro sum_mono2) (auto simp: vals_ok_def less_imp_le)
  moreover have "0 \<le> sum VotingPower (set vs)" using assms by (intro sum_nonneg) (auto simp: vals_ok_def less_imp_le)
  ultimately show "powers vs \<le> powers ws" "0 \<le> powers vs" by simp_all
qed

lemma findValidator_Found:
  assumes "vals_ok (Validators vals)" "findValidator vals byIndex idx commitSig seen = Ok (Found v seen')"
    "tally_of vals byIndex idx seen tallied vs"
  shows "v \<in> set (Validators vals)" "v \<notin> set vs"
    "if byIndex then idx < length (Validators vals) \<and> v = Validators vals ! idx else val_Address v = cs_ValidatorAddress commitSig"
    "tally_of vals byIndex (Suc idx) seen' (tallied + VotingPower v) (v # vs)" "tally_of vals byIndex (Suc idx) seen' tallied vs"
proof -
  have d: "distinct (addrs (Validators vals))" "distinct (Validators vals)" using assms(1) by (auto simp: vals_ok_def distinct_map)
  have "v \<in> set (Validators vals) \<and> v \<notin> set vs \<and>
    (if byIndex then idx < length (Validators vals) \<and> v = Validators vals ! idx else val_Address v = cs_ValidatorAddress commitSig) \<and>
    tally_of vals byIndex (Suc idx) seen' (tallied + VotingPower v) (v # vs) \<and> tally_of vals byIndex (Suc idx) seen' tallied vs"
  proof (cases byIndex)
    case True
    then have i: "idx < length (Validators vals)" "v = Validators vals ! idx" "seen' = seen"
      using assms(2) by (auto simp: findValidator_def split: if_splits)
    then have "v \<notin> set (take idx (Validators vals))"
      using d(2) by (metis distinct_take id_take_nth_drop distinct.simps(2) distinct_append disjoint_insert(1) list.simps(15) Int_commute)
    then show ?thesis
      using i True assms(3) by (auto simp: tally_of_def take_Suc_conv_app_nth)
  next
    case False
    let ?i = "fst (GetByAddress (Validators vals) (cs_ValidatorAddress commitSig))"
    have l: "lookup (Validators vals) (cs_ValidatorAddress commitSig) = Some v" "seen ?i = None" "seen' = seen(?i \<mapsto> idx)"
      using assms(2) False by (auto simp: findValidator_def split_def Let_def split: option.splits)
    then have v: "v \<in> set (Validators vals)" "val_Address v = cs_ValidatorAddress commitSig"
      by (simp_all add: lookup_Some [OF d(1)])
    have "v \<notin> set vs"
    proof
      assume "v \<in> set vs"
      then have "seen (fst (GetByAddress (Validators vals) (val_Address v))) \<noteq> None" using assms(3) False by (auto simp: tally_of_def)
      with l(2) v(2) show False by simp
    qed
    then show ?thesis using v l(3) False assms(3) by (auto simp: tally_of_def)
  qed
  then show "v \<in> set (Validators vals)" "v \<notin> set vs"
    "if byIndex then idx < length (Validators vals) \<and> v = Validators vals ! idx else val_Address v = cs_ValidatorAddress commitSig"
    "tally_of vals byIndex (Suc idx) seen' (tallied + VotingPower v) (v # vs)" "tally_of vals byIndex (Suc idx) seen' tallied vs"
    by blast+
qed

lemma tally_skip: "tally_of vals byIndex idx seen tallied vs \<Longrightarrow> tally_of vals byIndex (Suc idx) seen tallied vs"
proof -
  assume "tally_of vals byIndex idx seen tallied vs"
  moreover have "set (take idx (Validators vals)) \<subseteq> set (take (Suc idx) (Validators vals))" by (rule set_take_subset_set_take) simp
  ultimately show ?thesis by (auto simp: tally_of_def)
qed

lemma tally_wrap:
  assumes "vals_ok (Validators vals)" "tally_of vals byIndex idx seen t vs"
  shows "wrap64 t = t"
proof -
  have t: "t = powers vs" "distinct vs" "set vs \<subseteq> set (Validators vals)" using assms(2) by (simp_all add: tally_of_def)
  have "powers (Validators vals) \<le> MaxTotalVotingPower" using assms(1) by (simp add: vals_ok_def)
  then show ?thesis using powers_sub_le [OF assms(1) t(2,3)] t(1)
    by (intro wrap64_id) (simp add: is_int64_def max_power int_limits)
qed

lemma drop_step:
  assumes "x # xs = drop i ys"
  shows "i < length ys" "ys ! i = x" "xs = drop (Suc i) ys"
proof -
  show i: "i < length ys" using assms by (metis drop_all leI list.distinct(1))
  with assms show "ys ! i = x" "xs = drop (Suc i) ys" by (auto simp: Cons_nth_drop_Suc [symmetric])
qed

lemma singleLoop_sound:
  assumes "vals_ok (Validators vals)"
    "singleLoop E chainID vals commit needed ignoreSig countSig countAll byIndex idx sigs seen tallied = Ok ()"
    "sigs = drop idx (c_Signatures commit)" "tally_of vals byIndex idx seen tallied vs"
    "\<forall>v \<in> set vs. counted_for E chainID vals commit ignoreSig countSig byIndex v"
  shows "\<exists>ws. distinct ws \<and> set ws \<subseteq> set (Validators vals) \<and> needed < powers ws \<and>
    (\<forall>v \<in> set ws. counted_for E chainID vals commit ignoreSig countSig byIndex v)"
  using assms(2-)
proof (induction sigs arbitrary: idx seen tallied vs)
  case Nil
  then show ?case by (auto simp: tally_of_def split: if_splits)
next
  case (Cons commitSig sigs)
  note d = drop_step [OF Cons.prems(2)]
  show ?case
  proof (cases "ignoreSig commitSig")
    case True
    then show ?thesis using Cons.IH [OF _ d(3) tally_skip [OF Cons.prems(3)] Cons.prems(4)] Cons.prems(1) by simp
  next
    case False
    then obtain f where f: "findValidator vals byIndex idx commitSig seen = (Ok f :: (verify_error, _) res)"
      using Cons.prems(1) by (auto simp: res_simps)
    show ?thesis
    proof (cases f)
      case Skip
      then show ?thesis
        using Cons.IH [OF _ d(3) tally_skip [OF Cons.prems(3)] Cons.prems(4)] Cons.prems(1) False f by simp
    next
      case DoubleVote
      then show ?thesis using Cons.prems(1) False f by simp
    next
      case (Found v seen')
      note fv = findValidator_Found [OF assms(1) f [unfolded Found] Cons.prems(3)]
      let ?t = "if countSig commitSig then wrap64 (tallied + VotingPower v) else tallied"
      let ?vs = "if countSig commitSig then v # vs else vs"
      from Cons.prems(1) False f Found obtain sb where
        sb: "Commit_VoteSignBytes E chainID commit (wrap32 (int idx)) = (Ok sb :: (verify_error, _) res)"
          "VerifySignature E (val_PubKey v) sb (cs_Signature commitSig)"
        and rest: "(if \<not> countAll \<and> ?t > needed then Ok () else
          singleLoop E chainID vals commit needed ignoreSig countSig countAll byIndex (Suc idx) sigs seen' ?t) = Ok ()"
        by (auto simp: res_simps Let_def split: if_splits)
      have t: "tally_of vals byIndex (Suc idx) seen' ?t ?vs"
        using fv(4,5) tally_wrap [OF assms(1) fv(4)] by simp
      have "signed_by E chainID commit idx v" using sb d(2) by (simp add: signed_by_def)
      then have c: "\<forall>v \<in> set ?vs. counted_for E chainID vals commit ignoreSig countSig byIndex v"
        using Cons.prems(4) d(1,2) False fv(3) by (auto simp: counted_for_def)
      show ?thesis
      proof (cases "\<not> countAll \<and> ?t > needed")
        case True
        then show ?thesis using t c by (intro exI [of _ ?vs]) (auto simp: tally_of_def split: if_splits)
      next
        case False
        then have "singleLoop E chainID vals commit needed ignoreSig countSig countAll byIndex (Suc idx) sigs seen' ?t = Ok ()"
          using rest by (simp only: if_False)
        from Cons.IH [OF this d(3) t c] show ?thesis .
      qed
    qed
  qed
qed

section \<open>Single and batch verification agree\<close>

text \<open>
  The keys of the validators all have the type of the batch; then a signature is added to the batch
  exactly when single verification would go on to check it, or refuses it at once.
\<close>

fun batch_key :: "BatchVerifier \<Rightarrow> PubKey \<Rightarrow> bool" where
  "batch_key (EdBatch es) (Ed25519 k) \<longleftrightarrow> length k = 32"
| "batch_key (SrBatch es) (Sr25519 k) \<longleftrightarrow> True"
| "batch_key _ _ \<longleftrightarrow> False"

fun batch_ok :: "env \<Rightarrow> BatchVerifier \<Rightarrow> bool" where
  "batch_ok E (EdBatch es) \<longleftrightarrow> list_all (\<lambda>(k, m, s). ed25519_Verify E k m s) es"
| "batch_ok E (SrBatch es) \<longleftrightarrow> list_all (\<lambda>(k, m, s). sr25519_Verify E k m s) es"

lemma Batch_Add_cases:
  assumes "batch_key bv key"
  shows "(\<exists>bv'. Batch_Add E bv key msg sig = Ok bv' \<and> batch_key bv' = batch_key bv \<and> Batch_entries bv' \<noteq> [] \<and>
      batch_ok E bv' = (batch_ok E bv \<and> VerifySignature E key msg sig)) \<or>
    (\<exists>e. Batch_Add E bv key msg sig = Err e \<and> \<not> VerifySignature E key msg sig)"
proof -
  have "batch_key (EdBatch es) = batch_key (EdBatch fs)" "batch_key (SrBatch es) = batch_key (SrBatch fs)" for es fs
    by (rule ext, rename_tac k, case_tac k; simp)+
  then show ?thesis using assms by (cases "(bv, key)" rule: batch_key.cases) auto
qed

lemma findValidator_in:
  "findValidator vals byIndex idx commitSig seen = Ok (Found v seen') \<Longrightarrow> v \<in> set (Validators vals)"
proof (cases byIndex)
  case False
  assume "findValidator vals byIndex idx commitSig seen = Ok (Found v seen')"
  then have "lookup (Validators vals) (cs_ValidatorAddress commitSig) = Some v"
    using False by (auto simp: findValidator_def split_def Let_def split: option.splits)
  then show ?thesis by (auto simp: lookup_find find_Some_iff)
qed (auto simp: findValidator_def split: if_splits)

text \<open>The validators whose signatures the loop gets to see have keys of the batch.\<close>

definition batch_keys :: "BatchVerifier \<Rightarrow> ValidatorSet \<Rightarrow> bool \<Rightarrow> (CommitSig \<Rightarrow> bool) \<Rightarrow> nat \<Rightarrow> CommitSig list \<Rightarrow> bool" where
  "batch_keys bv vals byIndex ignoreSig idx sigs \<longleftrightarrow> (\<forall>j < length sigs. \<not> ignoreSig (sigs ! j) \<longrightarrow>
     (\<forall>seen v seen'. findValidator vals byIndex (idx + j) (sigs ! j) seen = (Ok (Found v seen') :: (verify_error, found) res) \<longrightarrow>
        batch_key bv (val_PubKey v)))"

lemma batch_keys_Cons:
  "batch_keys bv vals byIndex ignoreSig idx (sig # sigs) \<longleftrightarrow>
     (\<not> ignoreSig sig \<longrightarrow> (\<forall>seen v seen'. findValidator vals byIndex idx sig seen = (Ok (Found v seen') :: (verify_error, found) res) \<longrightarrow>
        batch_key bv (val_PubKey v))) \<and> batch_keys bv vals byIndex ignoreSig (Suc idx) sigs"
  by (simp add: batch_keys_def All_less_Suc2)

lemma batch_keys_all:
  "\<forall>v \<in> set (Validators vals). batch_key bv (val_PubKey v) \<Longrightarrow> batch_keys bv vals byIndex ignoreSig idx sigs"
  by (auto simp: batch_keys_def dest: findValidator_in)

lemma batchLoop_single:
  assumes "batch_keys bv vals byIndex ignoreSig idx sigs"
  shows "(singleLoop E chainID vals commit needed ignoreSig countSig countAll byIndex idx sigs seen tallied = Ok () \<and> batch_ok E bv) \<longleftrightarrow>
    (\<exists>bv' idxs' t. batchLoop E chainID vals commit needed ignoreSig countSig countAll byIndex idx sigs seen tallied bv idxs = Ok (bv', idxs', t) \<and>
      needed < t \<and> batch_ok E bv')"
  using assms
proof (induction sigs arbitrary: idx seen tallied bv idxs)
  case (Cons commitSig sigs)
  show ?case
  proof (cases "ignoreSig commitSig")
    case True
    then show ?thesis using Cons.IH Cons.prems by (simp add: batch_keys_Cons)
  next
    case False
    show ?thesis
    proof (cases "findValidator vals byIndex idx commitSig seen :: (verify_error, found) res")
      case (Ok f)
      show ?thesis
      proof (cases f)
        case Skip
        then show ?thesis using Cons.IH Cons.prems Ok False by (simp add: batch_keys_Cons)
      next
        case DoubleVote
        then show ?thesis using Ok False by simp
      next
        case (Found v seen')
        then have key: "batch_key bv (val_PubKey v)" using Ok False Cons.prems unfolding batch_keys_Cons by blast
        show ?thesis
        proof (cases "Commit_VoteSignBytes E chainID commit (wrap32 (int idx)) :: (verify_error, bytes) res")
          case sb: (Ok sb)
          from Batch_Add_cases [OF key, of E sb "cs_Signature commitSig"] show ?thesis
          proof (elim disjE exE conjE)
            fix bv' assume bv': "Batch_Add E bv (val_PubKey v) sb (cs_Signature commitSig) = Ok bv'" "batch_key bv' = batch_key bv"
              "batch_ok E bv' = (batch_ok E bv \<and> VerifySignature E (val_PubKey v) sb (cs_Signature commitSig))"
            define t where "t = (if countSig commitSig then wrap64 (tallied + VotingPower v) else tallied)"
            have "batch_keys bv' vals byIndex ignoreSig (Suc idx) sigs" using Cons.prems bv'(2) unfolding batch_keys_Cons by (simp add: batch_keys_def)
            note ih = Cons.IH [OF this, where seen = seen' and tallied = t and idxs = "idxs @ [idx]"]
            show ?thesis
            proof (cases "\<not> countAll \<and> needed < t")
              case True
              then show ?thesis using bv' Ok Found sb False by (auto simp: t_def [symmetric] Let_def)
            next
              case cont: False
              have "singleLoop E chainID vals commit needed ignoreSig countSig countAll byIndex idx (commitSig # sigs) seen tallied =
                  (if \<not> VerifySignature E (val_PubKey v) sb (cs_Signature commitSig) then Err (ErrWrongSignature idx)
                   else singleLoop E chainID vals commit needed ignoreSig countSig countAll byIndex (Suc idx) sigs seen' t)"
                unfolding singleLoop.simps Ok Found sb res_bind.simps found.case Let_def if_not_P [OF False] t_def [symmetric] if_not_P [OF cont] ..
              moreover have "batchLoop E chainID vals commit needed ignoreSig countSig countAll byIndex idx (commitSig # sigs) seen tallied bv idxs =
                  batchLoop E chainID vals commit needed ignoreSig countSig countAll byIndex (Suc idx) sigs seen' t bv' (idxs @ [idx])"
                unfolding batchLoop.simps Ok Found sb res_bind.simps found.case Let_def if_not_P [OF False] t_def [symmetric] if_not_P [OF cont] bv'(1) res.case ..
              ultimately show ?thesis using ih bv'(3) by (auto split: if_splits)
            qed
          next
            fix e assume "Batch_Add E bv (val_PubKey v) sb (cs_Signature commitSig) = Err e"
              "\<not> VerifySignature E (val_PubKey v) sb (cs_Signature commitSig)"
            then show ?thesis using Ok Found sb False by simp
          qed
        qed (use Ok Found False in simp_all)
      qed
    qed (use False in simp_all)
  qed
qed auto

lemma batchLoop_entries:
  "batchLoop E chainID vals commit needed ignoreSig countSig countAll byIndex idx sigs seen tallied bv idxs = Ok (bv', idxs', t) \<Longrightarrow>
    \<exists>es. Batch_entries bv' = Batch_entries bv @ es \<and> (es = [] \<longrightarrow> t = tallied)"
proof (induction sigs arbitrary: idx seen tallied bv idxs)
  case (Cons commitSig sigs)
  show ?case
  proof (cases "ignoreSig commitSig")
    case True
    then show ?thesis using Cons by simp
  next
    case False
    then obtain f where f: "findValidator vals byIndex idx commitSig seen = (Ok f :: (verify_error, _) res)"
      using Cons.prems by (auto simp: res_simps)
    show ?thesis
    proof (cases f)
      case (Found v seen')
      let ?t = "if countSig commitSig then wrap64 (tallied + VotingPower v) else tallied"
      from Cons.prems f Found False obtain sb where
        sb: "Commit_VoteSignBytes E chainID commit (wrap32 (int idx)) = (Ok sb :: (verify_error, _) res)" by (auto simp: res_simps)
      obtain bv1 where bv1: "Batch_Add E bv (val_PubKey v) sb (cs_Signature commitSig) = Ok bv1"
        using Cons.prems f Found False sb by (cases "Batch_Add E bv (val_PubKey v) sb (cs_Signature commitSig)") auto
      have rest: "(bv', idxs', t) = (bv1, idxs @ [idx], ?t) \<or> batchLoop E chainID vals commit needed ignoreSig countSig countAll byIndex
          (Suc idx) sigs seen' ?t bv1 (idxs @ [idx]) = Ok (bv', idxs', t)"
        using Cons.prems f Found False sb bv1 by (simp add: Let_def split: if_splits)
      from rest have "\<exists>es. Batch_entries bv' = Batch_entries bv1 @ es" using Cons.IH by (elim disjE) (simp, blast)
      then obtain es where "Batch_entries bv' = Batch_entries bv1 @ es" ..
      then show ?thesis using Batch_Add_entries [OF bv1] by simp
    qed (use Cons False f in simp_all)
  qed
qed simp

lemma Batch_Verify_documented:
  "batch_documented E \<Longrightarrow> Batch_entries bv \<noteq> [] \<Longrightarrow> fst (Batch_Verify E bv) = batch_ok E bv"
  by (cases bv) (auto simp: batch_documented_def)

lemma verifyCommitBatch_single:
  assumes "batch_documented E" "0 \<le> needed" "Validators vals \<noteq> []" "Proposer vals = Some p"
    "CreateBatchVerifier (val_PubKey p) = Some bv" "batch_keys bv vals byIndex ignoreSig 0 (c_Signatures commit)"
    "batchVerifyThreshold \<le> length (c_Signatures commit)"
  shows "verifyCommitBatch E chainID vals commit needed ignoreSig countSig countAll byIndex = Ok () \<longleftrightarrow>
    verifyCommitSingle E chainID vals commit needed ignoreSig countSig countAll byIndex = Ok ()"
proof -
  let ?loop = "batchLoop E chainID vals commit needed ignoreSig countSig countAll byIndex 0 (c_Signatures commit) (\<lambda>_. None) 0 bv []"
  have bv0: "Batch_entries bv = []" "batch_ok E bv" using assms(5) by (auto simp: CreateBatchVerifier_def split: if_splits)
  have gp: "GetProposer vals = (Ok (vals, Some p) :: (verify_error, _) res)" using assms(3,4) by (simp add: GetProposer_def)
  have ver: "fst (Batch_Verify E bv') = batch_ok E bv'" if "?loop = Ok (bv', idxs', t)" "needed < t" for bv' idxs' t
  proof -
    from batchLoop_entries [OF that(1)] obtain es where "Batch_entries bv' = es" "es = [] \<longrightarrow> t = 0" using bv0 by auto
    then have "Batch_entries bv' \<noteq> []" using that(2) assms(2) by auto
    then show ?thesis by (rule Batch_Verify_documented [OF assms(1)])
  qed
  have "verifyCommitBatch E chainID vals commit needed ignoreSig countSig countAll byIndex = Ok () \<longleftrightarrow>
      (\<exists>bv' idxs' t. ?loop = Ok (bv', idxs', t) \<and> needed < t \<and> fst (Batch_Verify E bv'))"
  proof (cases ?loop)
    case (Ok r)
    obtain bv' idxs' t where r: "r = (bv', idxs', t)" by (cases r)
    obtain b vs where b: "Batch_Verify E bv' = (b, vs)" by fastforce
    show ?thesis
      using assms(7) unfolding verifyCommitBatch_def gp res_bind.simps prod.case option.case assms(5) Ok r b
      by (cases b) (auto split: if_splits option.splits simp: b)
  qed (use assms(7) in \<open>simp_all add: verifyCommitBatch_def gp assms(5)\<close>)
  also have "\<dots> \<longleftrightarrow> (\<exists>bv' idxs' t. ?loop = Ok (bv', idxs', t) \<and> needed < t \<and> batch_ok E bv')" using ver by metis
  also have "\<dots> \<longleftrightarrow> verifyCommitSingle E chainID vals commit needed ignoreSig countSig countAll byIndex = Ok ()"
    using batchLoop_single [OF assms(6)] bv0(2) by (auto simp: verifyCommitSingle_def)
  finally show ?thesis .
qed

text \<open>Whatever the keys are, a batch that is accepted is accepted one by one.\<close>

lemma Batch_Add_Ok:
  "Batch_Add E bv key msg sig = Ok bv' \<Longrightarrow> batch_ok E bv' = (batch_ok E bv \<and> VerifySignature E key msg sig)"
  by (cases bv; cases key) (auto split: if_splits)

lemma batchLoop_sound:
  "batchLoop E chainID vals commit needed ignoreSig countSig countAll byIndex idx sigs seen tallied bv idxs = Ok (bv', idxs', t) \<Longrightarrow>
    needed < t \<Longrightarrow> batch_ok E bv' \<Longrightarrow>
    singleLoop E chainID vals commit needed ignoreSig countSig countAll byIndex idx sigs seen tallied = Ok () \<and> batch_ok E bv"
proof (induction sigs arbitrary: idx seen tallied bv idxs)
  case (Cons commitSig sigs)
  show ?case
  proof (cases "ignoreSig commitSig")
    case True
    then show ?thesis using Cons by simp
  next
    case False
    then obtain f where f: "findValidator vals byIndex idx commitSig seen = (Ok f :: (verify_error, _) res)"
      using Cons.prems(1) by (auto simp: res_simps)
    show ?thesis
    proof (cases f)
      case (Found v seen')
      let ?t = "if countSig commitSig then wrap64 (tallied + VotingPower v) else tallied"
      from Cons.prems(1) f Found False obtain sb where
        sb: "Commit_VoteSignBytes E chainID commit (wrap32 (int idx)) = (Ok sb :: (verify_error, _) res)" by (auto simp: res_simps)
      obtain bv1 where bv1: "Batch_Add E bv (val_PubKey v) sb (cs_Signature commitSig) = Ok bv1"
        using Cons.prems(1) f Found False sb by (cases "Batch_Add E bv (val_PubKey v) sb (cs_Signature commitSig)") auto
      have rest: "(if \<not> countAll \<and> ?t > needed then Ok (bv1, idxs @ [idx], ?t) else batchLoop E chainID vals commit needed ignoreSig countSig countAll byIndex
          (Suc idx) sigs seen' ?t bv1 (idxs @ [idx])) = Ok (bv', idxs', t)"
        using Cons.prems(1) f Found False sb bv1 by (simp add: Let_def split: if_splits)
      have "batch_ok E bv1 \<and> (if \<not> countAll \<and> ?t > needed then Ok () else
          singleLoop E chainID vals commit needed ignoreSig countSig countAll byIndex (Suc idx) sigs seen' ?t) = Ok ()"
      proof (cases "\<not> countAll \<and> ?t > needed")
        case True
        then show ?thesis using rest Cons.prems(3) by auto
      next
        case cont: False
        then show ?thesis using Cons.IH [OF rest [unfolded if_not_P [OF cont]] Cons.prems(2,3)] by (simp only: if_False simp_thms)
      qed
      then show ?thesis using Batch_Add_Ok [OF bv1] f Found False sb by (simp add: Let_def)
    qed (use Cons False f in simp_all)
  qed
qed simp

section \<open>The exported functions\<close>

lemma findValidator_Proposer [simp]: "findValidator (vals\<lparr>Proposer := p\<rparr>) = findValidator vals"
  by (intro ext) (simp add: findValidator_def)

lemma singleLoop_Proposer [simp]:
  "singleLoop E chainID (vals\<lparr>Proposer := p\<rparr>) commit needed ignoreSig countSig countAll byIndex idx sigs seen tallied =
   singleLoop E chainID vals commit needed ignoreSig countSig countAll byIndex idx sigs seen tallied"
  by (induction sigs arbitrary: idx seen tallied) (auto simp: Let_def intro!: arg_cong [where f = "res_bind _"] ext split: found.split)

lemma findProposer_fold:
  assumes "distinct (addrs (ps @ vs))" "\<forall>p. q = Some p \<longrightarrow> p \<in> set ps"
  shows "\<exists>q'. res_fold (\<lambda>proposer val.
        if (case proposer of None \<Rightarrow> True | Some p \<Rightarrow> val_Address val \<noteq> val_Address p)
        then res_bind (CompareProposerPriority proposer val) (\<lambda>p. Ok (Some p))
        else Ok proposer) q vs = (Ok q' :: ('e, _) res) \<and> (\<forall>p. q' = Some p \<longrightarrow> p \<in> set (ps @ vs)) \<and> (vs = [] \<or> q' \<noteq> None)"
  using assms
proof (induction vs arbitrary: ps q)
  case (Cons v vs)
  define w where "w = (case q of None \<Rightarrow> v | Some p \<Rightarrow> if first p v then p else v)"
  have ne: "val_Address v \<noteq> val_Address p" if "q = Some p" for p using Cons.prems that by force
  have "(if (case q of None \<Rightarrow> True | Some p \<Rightarrow> val_Address v \<noteq> val_Address p)
      then res_bind (CompareProposerPriority q v) (\<lambda>p. Ok (Some p)) else Ok q) = (Ok (Some w) :: ('e, _) res)"
    using ne by (cases q) (auto simp: CompareProposerPriority_def w_def prioFirst_eq)
  moreover have "\<exists>q'. res_fold (\<lambda>proposer val.
        if (case proposer of None \<Rightarrow> True | Some p \<Rightarrow> val_Address val \<noteq> val_Address p)
        then res_bind (CompareProposerPriority proposer val) (\<lambda>p. Ok (Some p))
        else Ok proposer) (Some w) vs = (Ok q' :: ('e, _) res) \<and> (\<forall>p. q' = Some p \<longrightarrow> p \<in> set ((ps @ [v]) @ vs)) \<and> (vs = [] \<or> q' \<noteq> None)"
    using Cons.prems by (intro Cons.IH) (auto simp: w_def split: option.splits)
  ultimately show ?case by (cases vs) auto
qed auto

lemma findProposer_in:
  assumes "vals_ok vs" "vs \<noteq> []"
  shows "\<exists>p \<in> set vs. findProposer vs = (Ok (Some p) :: ('e, _) res)"
proof -
  from findProposer_fold [of "[]" vs None, where 'e = 'e] assms obtain q where
    "findProposer vs = (Ok q :: ('e, _) res)" "\<forall>p. q = Some p \<longrightarrow> p \<in> set vs" "q \<noteq> None"
    by (auto simp: findProposer_def vals_ok_def)
  then show ?thesis by auto
qed

lemma GetProposer_cases:
  assumes "vals_ok (Validators vals)" "Validators vals \<noteq> []"
  shows "\<exists>p. GetProposer vals = (Ok (vals\<lparr>Proposer := Some p\<rparr>, Some p) :: ('e, _) res) \<and>
    (Proposer vals = Some p \<or> p \<in> set (Validators vals))"
proof (cases "Proposer vals")
  case None
  then show ?thesis using findProposer_in [OF assms, where 'e = 'e] assms(2) by (auto simp: GetProposer_def)
next
  case (Some p)
  then have "vals\<lparr>Proposer := Some p\<rparr> = vals" by (cases vals) simp
  then show ?thesis using Some assms(2) by (auto simp: GetProposer_def)
qed

lemma verifyCommitSingle_Proposer [simp]:
  "verifyCommitSingle E chainID (vals\<lparr>Proposer := p\<rparr>) commit needed ignoreSig countSig countAll byIndex =
   verifyCommitSingle E chainID vals commit needed ignoreSig countSig countAll byIndex"
  by (simp add: verifyCommitSingle_def)

text \<open>All keys, the proposer's included, have the same type and the length of their type.\<close>

definition same_key_type :: "ValidatorSet \<Rightarrow> bool" where
  "same_key_type vals \<longleftrightarrow> (\<forall>v \<in> set (Validators vals) \<union> set_option (Proposer vals).
     wf_key (val_PubKey v) \<and> PubKey_Type (val_PubKey v) = PubKey_Type (val_PubKey (hd (Validators vals))))"

lemma batch_key_type:
  "CreateBatchVerifier pk = Some bv \<Longrightarrow> wf_key k \<Longrightarrow> PubKey_Type k = PubKey_Type pk \<Longrightarrow> batch_key bv k"
  by (cases pk; cases k) (auto simp: CreateBatchVerifier_def)

lemma Supports_Create: "SupportsBatchVerifier pk \<longleftrightarrow> CreateBatchVerifier pk \<noteq> None"
  by (auto simp: SupportsBatchVerifier_def CreateBatchVerifier_def)

lemma batch_sound:
  assumes "batch_documented E" "0 \<le> needed" "verifyCommitBatch E chainID vals commit needed ignoreSig countSig countAll byIndex = Ok ()"
    "Validators vals \<noteq> []" "Proposer vals = Some p"
  shows "verifyCommitSingle E chainID vals commit needed ignoreSig countSig countAll byIndex = Ok ()"
proof -
  have gp: "GetProposer vals = (Ok (vals, Some p) :: (verify_error, _) res)" using assms(4,5) by (simp add: GetProposer_def)
  obtain bv where bv: "CreateBatchVerifier (val_PubKey p) = Some bv"
    using assms(3) by (cases "CreateBatchVerifier (val_PubKey p)") (simp_all add: verifyCommitBatch_def gp)
  obtain bv' idxs' t where loop: "batchLoop E chainID vals commit needed ignoreSig countSig countAll byIndex
      0 (c_Signatures commit) (\<lambda>_. None) 0 bv [] = Ok (bv', idxs', t)" "needed < t" "fst (Batch_Verify E bv')"
    using assms(3) unfolding verifyCommitBatch_def gp res_bind.simps prod.case option.case bv
    by (auto simp: res_simps split: if_splits prod.splits bool.splits option.splits)
  from batchLoop_entries [OF loop(1)] have "Batch_entries bv' \<noteq> []" using loop(2) assms(2) by auto
  with loop(3) have "batch_ok E bv'" using Batch_Verify_documented [OF assms(1)] by simp
  from batchLoop_sound [OF loop(1,2) this] show ?thesis by (simp add: verifyCommitSingle_def)
qed

lemma verifyBatchOrSingle_cases:
  assumes "batch_documented E" "0 \<le> needed" "vals_ok (Validators vals)" "Validators vals \<noteq> []"
  shows "\<exists>p r. verifyBatchOrSingle E chainID vals commit needed ignoreSig countSig countAll byIndex = (vals\<lparr>Proposer := p\<rparr>, r) \<and>
    (r = Ok () \<longrightarrow> verifyCommitSingle E chainID vals commit needed ignoreSig countSig countAll byIndex = Ok ())"
proof (cases "batchVerifyThreshold \<le> length (c_Signatures commit)")
  case False
  then have "shouldBatchVerify vals commit = (Ok (vals, False) :: (verify_error, _) res)" by (simp add: shouldBatchVerify_def)
  then show ?thesis by (intro exI [of _ "Proposer vals"]) (simp add: verifyBatchOrSingle_def)
next
  case True
  obtain p where p: "GetProposer vals = (Ok (vals\<lparr>Proposer := Some p\<rparr>, Some p) :: (verify_error, _) res)"
    "Proposer vals = Some p \<or> p \<in> set (Validators vals)" using GetProposer_cases [OF assms(3,4)] by blast
  let ?v = "vals\<lparr>Proposer := Some p\<rparr>"
  have sb: "shouldBatchVerify vals commit = (Ok (?v, SupportsBatchVerifier (val_PubKey p)) :: (verify_error, _) res)"
    using True p(1) by (simp add: shouldBatchVerify_def)
  show ?thesis
  proof (cases "CreateBatchVerifier (val_PubKey p)")
    case None
    then show ?thesis using sb by (intro exI [of _ "Some p"]) (simp add: verifyBatchOrSingle_def Supports_Create)
  next
    case (Some bv)
    note sound = batch_sound [OF assms(1,2)]
    let ?b = "verifyCommitBatch E chainID ?v commit needed ignoreSig countSig countAll byIndex"
    have "verifyBatchOrSingle E chainID vals commit needed ignoreSig countSig countAll byIndex = (?v, ?b)"
      using sb Some by (simp add: verifyBatchOrSingle_def Supports_Create)
    then show ?thesis
      using sound [of chainID ?v commit ignoreSig countSig countAll byIndex p] assms(4)
      by (intro exI [of _ "Some p"] exI [of _ ?b]) auto
  qed
qed

section \<open>Properties\<close>

lemma two_thirds:
  assumes "vals_ok vs"
  shows "wrap64 (powers vs * 2) sdiv 3 = 2 * powers vs div 3" "0 \<le> wrap64 (powers vs * 2) sdiv 3"
    "wrap64 (powers vs * 2) sdiv 3 < w \<longleftrightarrow> 2 * powers vs < 3 * w"
proof -
  have P: "0 \<le> powers vs" "powers vs \<le> MaxTotalVotingPower" using assms powers_nonneg by (auto simp: vals_ok_def)
  then have "wrap64 (powers vs * 2) = 2 * powers vs" by (subst wrap64_id) (simp_all add: is_int64_def max_power int_limits)
  then show eq: "wrap64 (powers vs * 2) sdiv 3 = 2 * powers vs div 3" using P by (simp add: sdiv_nonneg)
  show "0 \<le> wrap64 (powers vs * 2) sdiv 3" unfolding eq using P by simp
  show "wrap64 (powers vs * 2) sdiv 3 < w \<longleftrightarrow> 2 * powers vs < 3 * w" unfolding eq by (subst int_div_less_iff) (simp_all add: mult.commute)
qed

lemma powers_filter:
  assumes "vals_ok vs" "distinct ws" "set ws \<subseteq> set vs" "\<forall>v \<in> set ws. P v"
  shows "powers ws \<le> powers (filter P vs)"
proof -
  have "vals_ok (filter P vs)"
  proof -
    have d: "distinct (filter P vs)" "set (filter P vs) \<subseteq> set vs" using assms(1) by (auto simp: vals_ok_def distinct_map)
    from powers_sub_le [OF assms(1) d] show ?thesis using assms(1) by (auto simp: vals_ok_def distinct_map_filter)
  qed
  then show ?thesis using assms by (intro powers_sub_le) auto
qed

lemma single_sound:
  assumes "vals_ok (Validators vals)" "verifyCommitSingle E chainID vals commit needed ignoreSig countSig countAll byIndex = Ok ()"
  shows "needed < powers (filter (counted_for E chainID vals commit ignoreSig countSig byIndex) (Validators vals))"
proof -
  have "tally_of vals byIndex 0 (\<lambda>_. None) 0 []" by (simp add: tally_of_def)
  from singleLoop_sound [OF assms(1) assms(2) [unfolded verifyCommitSingle_def] _ this]
  obtain ws where "distinct ws" "set ws \<subseteq> set (Validators vals)" "needed < powers ws"
    "\<forall>v \<in> set ws. counted_for E chainID vals commit ignoreSig countSig byIndex v" by auto
  with powers_filter [OF assms(1) this(1,2,4)] show ?thesis by linarith
qed

lemma verifyBasic_Ok:
  "verifyBasicValsAndCommit (Some vals) (Some commit) height blockID = Ok r \<longleftrightarrow>
     r = (vals, commit) \<and> length (c_Signatures commit) = length (Validators vals) \<and> c_Height commit = height \<and> c_BlockID commit = blockID"
  by (auto simp: verifyBasicValsAndCommit_def vs_Size_def bid_Equals_iff)

lemma verifyBasic_Err:
  "\<not> (length (c_Signatures commit) = length (Validators vals) \<and> c_Height commit = height \<and> c_BlockID commit = blockID) \<Longrightarrow>
     \<exists>e. verifyBasicValsAndCommit (Some vals) (Some commit) height blockID = Err e"
  by (auto simp: verifyBasicValsAndCommit_def vs_Size_def bid_Equals_iff)

lemma VerifyCommit_Ok:
  assumes "vals_ok (Validators vals)" "total_ok vals"
  shows "snd (VerifyCommit E chainID (Some vals) blockID height (Some commit)) = Ok () \<longleftrightarrow>
      (length (c_Signatures commit) = length (Validators vals) \<and> c_Height commit = height \<and> c_BlockID commit = blockID) \<and>
      snd (verifyBatchOrSingle E chainID (vals\<lparr>vs_total := powers (Validators vals)\<rparr>) commit
        (wrap64 (powers (Validators vals) * 2) sdiv 3) Absent ForBlock True True) = Ok ()"
proof (cases "length (c_Signatures commit) = length (Validators vals) \<and> c_Height commit = height \<and> c_BlockID commit = blockID")
  case True
  then have "verifyBasicValsAndCommit (Some vals) (Some commit) height blockID = Ok (vals, commit)" by (simp add: verifyBasic_Ok)
  with True show ?thesis by (simp add: VerifyCommit_def TotalVotingPower_eq [OF assms] Let_def split_def)
next
  case False
  from verifyBasic_Err [OF this] obtain e where "verifyBasicValsAndCommit (Some vals) (Some commit) height blockID = Err e" ..
  with False show ?thesis by (auto simp: VerifyCommit_def)
qed

lemma VerifyCommitLight_Ok:
  assumes "vals_ok (Validators vals)" "total_ok vals"
  shows "snd (VerifyCommitLight E chainID (Some vals) blockID height (Some commit)) = Ok () \<longleftrightarrow>
      (length (c_Signatures commit) = length (Validators vals) \<and> c_Height commit = height \<and> c_BlockID commit = blockID) \<and>
      snd (verifyBatchOrSingle E chainID (vals\<lparr>vs_total := powers (Validators vals)\<rparr>) commit
        (wrap64 (powers (Validators vals) * 2) sdiv 3) (\<lambda>c. \<not> ForBlock c) (\<lambda>_. True) False True) = Ok ()"
proof (cases "length (c_Signatures commit) = length (Validators vals) \<and> c_Height commit = height \<and> c_BlockID commit = blockID")
  case True
  then have "verifyBasicValsAndCommit (Some vals) (Some commit) height blockID = Ok (vals, commit)" by (simp add: verifyBasic_Ok)
  with True show ?thesis by (simp add: VerifyCommitLight_def TotalVotingPower_eq [OF assms] Let_def split_def)
next
  case False
  from verifyBasic_Err [OF this] obtain e where "verifyBasicValsAndCommit (Some vals) (Some commit) height blockID = Err e" ..
  with False show ?thesis by (auto simp: VerifyCommitLight_def)
qed

lemma findValidator_total [simp]: "findValidator (vals\<lparr>vs_total := t\<rparr>) = findValidator vals"
  by (intro ext) (simp add: findValidator_def)

lemma singleLoop_total [simp]:
  "singleLoop E chainID (vals\<lparr>vs_total := t\<rparr>) commit needed ignoreSig countSig countAll byIndex idx sigs seen tallied =
   singleLoop E chainID vals commit needed ignoreSig countSig countAll byIndex idx sigs seen tallied"
  by (induction sigs arbitrary: idx seen tallied) (auto simp: Let_def intro!: arg_cong [where f = "res_bind _"] ext split: found.split)

lemma batchOrSingle_Ok:
  assumes "batch_documented E" "0 \<le> needed" "vals_ok (Validators vals)" "Validators vals \<noteq> []"
    "snd (verifyBatchOrSingle E chainID (vals\<lparr>vs_total := t\<rparr>) commit needed ignoreSig countSig countAll byIndex) = Ok ()"
  shows "needed < powers (filter (counted_for E chainID vals commit ignoreSig countSig byIndex) (Validators vals))"
proof -
  from verifyBatchOrSingle_cases [OF assms(1,2), of "vals\<lparr>vs_total := t\<rparr>" chainID commit ignoreSig countSig countAll byIndex] assms(3-)
  have "verifyCommitSingle E chainID (vals\<lparr>vs_total := t\<rparr>) commit needed ignoreSig countSig countAll byIndex = Ok ()" by auto
  then have "verifyCommitSingle E chainID vals commit needed ignoreSig countSig countAll byIndex = Ok ()"
    by (simp add: verifyCommitSingle_def)
  then show ?thesis by (rule single_sound [OF assms(3)])
qed

text \<open>
  C5: A commit that \<open>VerifyCommit\<close> or \<open>VerifyCommitLight\<close> accepts is for the given height and block and
  carries, from validators with more than two thirds of the total voting power, signatures for the
  block that verify; whether they were verified one by one or as a batch.
\<close>

theorem verified_commit_has_two_thirds:
  assumes "vals_ok (Validators vals)" "total_ok vals" "Validators vals \<noteq> []" "batch_documented E"
    "snd (VerifyCommit E chainID (Some vals) blockID height (Some commit)) = Ok () \<or>
     snd (VerifyCommitLight E chainID (Some vals) blockID height (Some commit)) = Ok ()"
  shows "c_Height commit = height \<and> c_BlockID commit = blockID \<and> length (c_Signatures commit) = length (Validators vals) \<and>
    2 * powers (Validators vals) < 3 * powers (filter (\<lambda>v. \<exists>j < length (Validators vals). v = Validators vals ! j \<and>
        ForBlock (c_Signatures commit ! j) \<and> signed_by E chainID commit j v) (Validators vals))"
proof -
  let ?vs = "Validators vals" and ?n = "wrap64 (powers (Validators vals) * 2) sdiv 3"
  let ?P = "\<lambda>v. \<exists>j < length (Validators vals). v = Validators vals ! j \<and> ForBlock (c_Signatures commit ! j) \<and> signed_by E chainID commit j v"
  have c: "c_Height commit = height" "c_BlockID commit = blockID" "length (c_Signatures commit) = length ?vs"
    using assms(5) by (auto simp: VerifyCommit_Ok [OF assms(1,2)] VerifyCommitLight_Ok [OF assms(1,2)])
  have "?n < powers (filter ?P ?vs)"
  proof -
    obtain ig ct where w: "?n < powers (filter (counted_for E chainID vals commit ig ct True) ?vs)" "\<And>s. \<not> ig s \<and> ct s \<Longrightarrow> ForBlock s"
    proof (cases "snd (VerifyCommit E chainID (Some vals) blockID height (Some commit)) = Ok ()")
      case True
      then show ?thesis
        using batchOrSingle_Ok [OF assms(4) two_thirds(2) [OF assms(1)] assms(1,3)] by (intro that [of Absent ForBlock]) (auto simp: VerifyCommit_Ok [OF assms(1,2)])
    next
      case False
      then show ?thesis
        using assms(5) batchOrSingle_Ok [OF assms(4) two_thirds(2) [OF assms(1)] assms(1,3)] by (intro that [of "\<lambda>c. \<not> ForBlock c" "\<lambda>_. True"]) (auto simp: VerifyCommitLight_Ok [OF assms(1,2)])
    qed
    have "\<forall>v \<in> set (filter (counted_for E chainID vals commit ig ct True) ?vs). ?P v" using w(2) by (auto simp: counted_for_def)
    moreover have "distinct (filter (counted_for E chainID vals commit ig ct True) ?vs)" using assms(1) by (auto simp: vals_ok_def distinct_map)
    ultimately show ?thesis using powers_filter [OF assms(1), of "filter (counted_for E chainID vals commit ig ct True) ?vs" ?P] w(1) by auto
  qed
  then show ?thesis using c by (simp add: two_thirds(3) [OF assms(1)])
qed

definition demo_key :: bytes where "demo_key = replicate 32 7"

definition demo_set :: ValidatorSet where
  "demo_set = \<lparr>Validators = [\<lparr>val_Address = replicate 20 1, val_PubKey = Ed25519 demo_key, VotingPower = 10, ProposerPriority = 0\<rparr>],
     Proposer = None, vs_total = 0\<rparr>"

definition signed_commit :: "bytes \<Rightarrow> Commit" where
  "signed_commit sig = NewCommit 5 0 (v_BlockID sample_vote) [NewCommitSigForBlock sig (replicate 20 1) 100]"

definition demo_commit :: Commit where
  "demo_commit = signed_commit (sample_sig demo_key
     (case (Commit_VoteSignBytes sample_env [] (signed_commit []) 0 :: (verify_error, bytes) res) of Ok sb \<Rightarrow> sb | _ \<Rightarrow> []))"

lemma VoteSignBytes_sig: "VoteSignBytes E c (v\<lparr>v_Signature := s\<rparr>) = VoteSignBytes E c v"
  by (simp add: VoteSignBytes_def CanonicalizeVote_def)

lemma demo_sign_bytes:
  "\<exists>sb. \<forall>sig. Commit_VoteSignBytes sample_env [] (signed_commit sig) 0 = (Ok sb :: (verify_error, bytes) res)"
proof -
  let ?v = "\<lambda>sig. \<lparr>v_Type = PrecommitType, v_Height = 5, v_Round = 0, v_BlockID = v_BlockID sample_vote,
    v_Timestamp = 100, v_ValidatorAddress = replicate 20 1, v_ValidatorIndex = 0, v_Signature = sig\<rparr>"
  have "bid_ValidateBasic (v_BlockID sample_vote) = Ok ()"
    by (simp add: sample_vote_def bid_ValidateBasic_def psh_ValidateBasic_def ValidateHash_def)
  then obtain sb where sb: "VoteSignBytes sample_env [] (?v []) = (Ok sb :: (verify_error, _) res)"
    using VoteSignBytes_total [of "?v []" sample_env "[]"] by (auto simp: sample_env_def)
  have "Commit_VoteSignBytes sample_env [] (signed_commit sig) 0 = (Ok sb :: (verify_error, bytes) res)" for sig
  proof -
    have "VoteSignBytes sample_env [] (?v sig) = (VoteSignBytes sample_env [] (?v []) :: (verify_error, _) res)"
      using VoteSignBytes_sig [where v = "?v []" and s = sig] by simp
    then show ?thesis
      using sb by (simp add: Commit_VoteSignBytes_def GetVote_def signed_commit_def NewCommit_def NewCommitSigForBlock_def
        CommitSig_BlockID_def block_flags Vote_ToProto_def bid_proto_id Let_def)
  qed
  then show ?thesis by blast
qed

lemma demo_signed: "signed_by sample_env [] demo_commit 0 (hd (Validators demo_set))"
proof -
  obtain sb where sb: "\<And>sig. Commit_VoteSignBytes sample_env [] (signed_commit sig) 0 = (Ok sb :: (verify_error, bytes) res)"
    using demo_sign_bytes by blast
  have c: "demo_commit = signed_commit (sample_sig demo_key sb)" by (simp add: demo_commit_def sb)
  have "cs_Signature (c_Signatures (signed_commit sig) ! 0) = sig" for sig
    by (simp add: signed_commit_def NewCommit_def NewCommitSigForBlock_def)
  moreover have "ed25519_Verify sample_env k m (sample_sig k m)" "length (sample_sig k m) = 64" for k m
    by (simp_all add: sample_env_def sample_sig_def)
  moreover have "wrap32 (int 0) = 0" by (simp add: wrap32_id is_int32_def int_limits)
  ultimately show ?thesis unfolding c by (simp add: signed_by_def sb demo_set_def)
qed

lemma demo_set_ok: "vals_ok (Validators demo_set)" "total_ok demo_set" "Validators demo_set \<noteq> []" "powers (Validators demo_set) = 10"
  by (simp_all add: demo_set_def vals_ok_def total_ok_def max_power)

lemma demo_single:
  "verifyCommitSingle sample_env [] demo_set demo_commit 6 Absent ForBlock True True = Ok ()"
proof -
  obtain cs where cs: "c_Signatures demo_commit = [cs]" "ForBlock cs"
    by (simp add: demo_commit_def signed_commit_def NewCommit_def NewCommitSigForBlock_def ForBlock_def)
  obtain v where v: "Validators demo_set = [v]" "VotingPower v = 10" by (simp add: demo_set_def)
  have "\<not> Absent cs" using cs(2) by (simp add: ForBlock_def Absent_def block_flags)
  moreover obtain sb where "Commit_VoteSignBytes sample_env [] demo_commit (wrap32 (int 0)) = (Ok sb :: (verify_error, bytes) res)"
    "VerifySignature sample_env (val_PubKey v) sb (cs_Signature cs)"
    using demo_signed cs v by (auto simp: signed_by_def split: res.splits)
  moreover have "wrap64 10 = 10" by (simp add: wrap64_id is_int64_def int_limits)
  ultimately show ?thesis using cs v by (simp add: verifyCommitSingle_def findValidator_def)
qed

lemma demo_verified: "snd (VerifyCommit sample_env [] (Some demo_set) (v_BlockID sample_vote) 5 (Some demo_commit)) = Ok ()"
proof -
  have n: "wrap64 20 sdiv 3 = 6" using two_thirds(1) [OF demo_set_ok(1)] by (simp add: demo_set_ok)
  have "length (c_Signatures demo_commit) = 1"
    by (simp add: demo_commit_def signed_commit_def NewCommit_def)
  then have "verifyBatchOrSingle sample_env [] (demo_set\<lparr>vs_total := 10\<rparr>) demo_commit 6 Absent ForBlock True True =
      (demo_set\<lparr>vs_total := 10\<rparr>, Ok ())"
    using demo_single by (simp add: verifyBatchOrSingle_def shouldBatchVerify_def batchVerifyThreshold_def verifyCommitSingle_def)
  moreover have "length (c_Signatures demo_commit) = length (Validators demo_set)" "c_Height demo_commit = 5"
    "c_BlockID demo_commit = v_BlockID sample_vote"
    by (simp_all add: demo_commit_def signed_commit_def NewCommit_def demo_set_def)
  ultimately show ?thesis by (simp add: VerifyCommit_Ok [OF demo_set_ok(1,2)] n demo_set_ok(4))
qed

theorem verified_commit_has_two_thirds_witness:
  "2 * 10 < 3 * powers (filter (\<lambda>v. \<exists>j < length (Validators demo_set). v = Validators demo_set ! j \<and>
     ForBlock (c_Signatures demo_commit ! j) \<and> signed_by sample_env [] demo_commit j v) (Validators demo_set))"
  using verified_commit_has_two_thirds [OF demo_set_ok(1-3) sample_env_batch, of "[]" "v_BlockID sample_vote" 5 demo_commit] demo_verified
  by (simp add: demo_set_ok(4))

lemma singleLoop_exact:
  assumes "vals_ok (Validators vals)" "length (c_Signatures commit) = length (Validators vals)"
    "sigs = drop idx (c_Signatures commit)" "tally_of vals True idx seen tallied vs"
  shows "singleLoop E chainID vals commit needed Absent ForBlock True True idx sigs seen tallied = Ok () \<longleftrightarrow>
    (\<forall>i \<in> {idx..<length (Validators vals)}. \<not> Absent (c_Signatures commit ! i) \<longrightarrow> signed_by E chainID commit i (Validators vals ! i)) \<and>
    needed < tallied + (\<Sum>i \<leftarrow> [idx..<length (Validators vals)]. if ForBlock (c_Signatures commit ! i) then VotingPower (Validators vals ! i) else 0)"
  using assms(3,4)
proof (induction sigs arbitrary: idx seen tallied vs)
  case Nil
  then have "length (Validators vals) \<le> idx" using assms(2) by simp
  then show ?case by simp
next
  case (Cons commitSig sigs)
  note d = drop_step [OF Cons.prems(1)]
  define n where "n = length (Validators vals)"
  have idx: "idx < n" using d(1) assms(2) by (simp add: n_def)
  have up: "[idx..<n] = idx # [Suc idx..<n]" "{idx..<n} = insert idx {Suc idx..<n}" using idx by (auto simp: upt_conv_Cons)
  have fb: "\<not> ForBlock commitSig" if "Absent commitSig" using that by (simp add: ForBlock_def Absent_def block_flags)
  show ?case
  proof (cases "Absent commitSig")
    case True
    from Cons.IH [OF d(3) tally_skip [OF Cons.prems(2)]] show ?thesis
      unfolding n_def [symmetric] up using True fb d(2) by simp
  next
    case False
    let ?v = "Validators vals ! idx"
    have f: "findValidator vals True idx commitSig seen = Ok (Found ?v seen)" using idx by (simp add: findValidator_def n_def)
    note fv = findValidator_Found [OF assms(1) f Cons.prems(2)]
    define t where "t = (if ForBlock commitSig then tallied + VotingPower ?v else tallied)"
    define ws where "ws = (if ForBlock commitSig then ?v # vs else vs)"
    have t: "tally_of vals True (Suc idx) seen t ws" using fv(4,5) by (simp add: t_def ws_def)
    have w: "(if ForBlock commitSig then wrap64 (tallied + VotingPower ?v) else tallied) = t"
      using tally_wrap [OF assms(1) fv(4)] by (simp add: t_def)
    note ih = Cons.IH [OF d(3) t]
    have "singleLoop E chainID vals commit needed Absent ForBlock True True idx (commitSig # sigs) seen tallied = Ok () \<longleftrightarrow>
        signed_by E chainID commit idx ?v \<and> singleLoop E chainID vals commit needed Absent ForBlock True True (Suc idx) sigs seen t = Ok ()"
    proof (cases "Commit_VoteSignBytes E chainID commit (wrap32 (int idx)) :: (verify_error, bytes) res")
      case (Ok sb)
      then show ?thesis unfolding singleLoop.simps using False w d(2) by (simp add: findValidator_def idx [unfolded n_def] signed_by_def Let_def)
    qed (use False in \<open>simp_all add: findValidator_def idx [unfolded n_def] signed_by_def\<close>)
    then show ?thesis
      unfolding ih n_def [symmetric] up using False d(2) by (auto simp: t_def)
  qed
qed

text \<open>The batch keeps its type, and only keys of that type are added.\<close>

fun batch_type :: "BatchVerifier \<Rightarrow> string" where
  "batch_type (EdBatch es) = ''ed25519''"
| "batch_type (SrBatch es) = ''sr25519''"

lemma Batch_Add_type: "Batch_Add E bv key msg sig = Ok bv' \<Longrightarrow> batch_type bv' = batch_type bv \<and> PubKey_Type key = batch_type bv"
  by (cases bv; cases key) (auto split: if_splits)

lemma batchLoop_types:
  "batchLoop E chainID vals commit needed ignoreSig countSig True True idx sigs seen tallied bv idxs = Ok (bv', idxs', t) \<Longrightarrow>
    sigs = drop idx (c_Signatures commit) \<Longrightarrow>
    \<forall>i \<in> {idx..<length (c_Signatures commit)}. \<not> ignoreSig (c_Signatures commit ! i) \<longrightarrow>
      PubKey_Type (val_PubKey (Validators vals ! i)) = batch_type bv"
proof (induction sigs arbitrary: idx seen tallied bv idxs)
  case (Cons commitSig sigs)
  note d = drop_step [OF Cons.prems(2)]
  have up: "{idx..<length (c_Signatures commit)} = insert idx {Suc idx..<length (c_Signatures commit)}" using d(1) by auto
  show ?case
  proof (cases "ignoreSig commitSig")
    case True
    then show ?thesis unfolding up using Cons.IH [OF _ d(3)] Cons.prems(1) d(2) by simp
  next
    case False
    have f: "findValidator vals True idx commitSig seen = (Ok (Found (Validators vals ! idx) seen) :: (verify_error, _) res)"
      using Cons.prems(1) False by (cases "idx < length (Validators vals)") (simp_all add: findValidator_def)
    from Cons.prems(1) f False obtain sb where
      sb: "Commit_VoteSignBytes E chainID commit (wrap32 (int idx)) = (Ok sb :: (verify_error, _) res)" by (auto simp: res_simps)
    obtain bv1 where bv1: "Batch_Add E bv (val_PubKey (Validators vals ! idx)) sb (cs_Signature commitSig) = Ok bv1"
      using Cons.prems(1) f False sb by (cases "Batch_Add E bv (val_PubKey (Validators vals ! idx)) sb (cs_Signature commitSig)") auto
    note t = Batch_Add_type [OF bv1]
    show ?thesis unfolding up using Cons.IH [OF _ d(3), where bv = bv1] Cons.prems(1) f False sb bv1 t d(2) by (simp add: Let_def)
  qed
qed simp

lemma batch_types:
  assumes "verifyCommitBatch E chainID vals commit needed ignoreSig countSig True True = Ok ()"
    "Validators vals \<noteq> []" "Proposer vals = Some p" "i < length (c_Signatures commit)" "\<not> ignoreSig (c_Signatures commit ! i)"
  shows "PubKey_Type (val_PubKey (Validators vals ! i)) = PubKey_Type (val_PubKey p)"
proof -
  have gp: "GetProposer vals = (Ok (vals, Some p) :: (verify_error, _) res)" using assms(2,3) by (simp add: GetProposer_def)
  obtain bv where bv: "CreateBatchVerifier (val_PubKey p) = Some bv"
    using assms(1) by (cases "CreateBatchVerifier (val_PubKey p)") (simp_all add: verifyCommitBatch_def gp)
  then have ty: "batch_type bv = PubKey_Type (val_PubKey p)" by (auto simp: CreateBatchVerifier_def split: if_splits)
  obtain r where "batchLoop E chainID vals commit needed ignoreSig countSig True True
      0 (c_Signatures commit) (\<lambda>_. None) 0 bv [] = Ok r"
    using assms(1) unfolding verifyCommitBatch_def gp res_bind.simps prod.case option.case bv
    by (auto simp: res_simps split: if_splits)
  then show ?thesis using batchLoop_types [of E chainID vals commit needed ignoreSig countSig 0 "c_Signatures commit"] assms(4,5) ty
    by (cases r) auto
qed

text \<open>
  Whether the signatures of a commit can go into one batch: when the commit is verified as a batch, the signatures that are
  not absent are by validators with the proposer's type of key.
\<close>

definition one_key_type :: "ValidatorSet \<Rightarrow> Commit \<Rightarrow> bool" where
  "one_key_type vals commit \<longleftrightarrow>
     (case shouldBatchVerify vals commit :: (verify_error, _) res of
        Ok (vals', batch) \<Rightarrow> batch \<longrightarrow> (case Proposer vals' of None \<Rightarrow> True | Some p \<Rightarrow>
          list_all (\<lambda>(v, cs). Absent cs \<or> PubKey_Type (val_PubKey v) = PubKey_Type (val_PubKey p)) (zip (Validators vals) (c_Signatures commit)))
      | _ \<Rightarrow> True)"

lemma GetProposer_total:
  "GetProposer (vals\<lparr>vs_total := t\<rparr>) = (case GetProposer vals of Ok (v, p) \<Rightarrow> Ok (v\<lparr>vs_total := t\<rparr>, p) | Err e \<Rightarrow> Err e | Panic s \<Rightarrow> Panic s)"
  by (cases "Proposer vals"; cases "findProposer (Validators vals) :: ('a, _) res") (simp_all add: GetProposer_def split: option.split)

lemma one_key_type_total [simp]: "one_key_type (vals\<lparr>vs_total := t\<rparr>) commit = one_key_type vals commit"
proof (cases "GetProposer vals :: (verify_error, _) res")
  case (Ok r)
  then show ?thesis by (cases r; cases "snd r") (simp_all add: one_key_type_def shouldBatchVerify_def GetProposer_total split: option.split)
qed (simp_all add: one_key_type_def shouldBatchVerify_def GetProposer_total)

lemma batchOrSingle_exact:
  assumes "batch_documented E" "0 \<le> needed" "vals_ok (Validators vals)" "Validators vals \<noteq> []"
    and "length (c_Signatures commit) = length (Validators vals)" "\<forall>v \<in> set (Validators vals). wf_key (val_PubKey v)"
  shows "snd (verifyBatchOrSingle E chainID vals commit needed Absent countSig True True) = Ok () \<longleftrightarrow>
    verifyCommitSingle E chainID vals commit needed Absent countSig True True = Ok () \<and> one_key_type vals commit"
proof (cases "batchVerifyThreshold \<le> length (c_Signatures commit)")
  case False
  then have "shouldBatchVerify vals commit = (Ok (vals, False) :: (verify_error, _) res)" by (simp add: shouldBatchVerify_def)
  then show ?thesis by (simp add: verifyBatchOrSingle_def one_key_type_def)
next
  case True
  obtain p where p: "GetProposer vals = (Ok (vals\<lparr>Proposer := Some p\<rparr>, Some p) :: (verify_error, _) res)"
    using GetProposer_cases [OF assms(3,4)] by blast
  let ?v = "vals\<lparr>Proposer := Some p\<rparr>"
  have sb: "shouldBatchVerify vals commit = (Ok (?v, SupportsBatchVerifier (val_PubKey p)) :: (verify_error, _) res)"
    using True p by (simp add: shouldBatchVerify_def)
  show ?thesis
  proof (cases "CreateBatchVerifier (val_PubKey p)")
    case None
    then show ?thesis using sb by (simp add: verifyBatchOrSingle_def Supports_Create one_key_type_def)
  next
    case (Some bv)
    let ?b = "verifyCommitBatch E chainID ?v commit needed Absent countSig True True"
    have one: "one_key_type vals commit \<longleftrightarrow> (\<forall>i < length (Validators vals). \<not> Absent (c_Signatures commit ! i) \<longrightarrow>
        PubKey_Type (val_PubKey (Validators vals ! i)) = PubKey_Type (val_PubKey p))"
      using Some assms(5) by (auto simp: one_key_type_def sb Supports_Create list_all_length)
    have "?b = Ok () \<Longrightarrow> one_key_type vals commit"
      unfolding one using batch_types [of E chainID ?v commit needed Absent countSig p] assms(4,5) by simp
    moreover have "?b = Ok () \<Longrightarrow> verifyCommitSingle E chainID vals commit needed Absent countSig True True = Ok ()"
      using batch_sound [OF assms(1,2), of chainID ?v commit Absent countSig True True p] assms(4) by simp
    moreover have "?b = Ok ()" if o: "one_key_type vals commit" and s: "verifyCommitSingle E chainID vals commit needed Absent countSig True True = Ok ()"
    proof -
      have "batch_keys bv ?v True Absent 0 (c_Signatures commit)"
        using o [unfolded one] assms(5,6) batch_key_type [OF Some] by (auto simp: batch_keys_def findValidator_def)
      from verifyCommitBatch_single [OF assms(1,2) _ _ Some this True, of chainID countSig True] s assms(4) show ?thesis by simp
    qed
    moreover have "snd (verifyBatchOrSingle E chainID vals commit needed Absent countSig True True) = ?b"
      using sb Some by (simp add: verifyBatchOrSingle_def Supports_Create)
    ultimately show ?thesis by metis
  qed
qed

lemma VerifyCommit_exact:
  assumes "vals_ok (Validators vals)" "total_ok vals" "Validators vals \<noteq> []" "\<forall>v \<in> set (Validators vals). wf_key (val_PubKey v)" "batch_documented E"
  shows "snd (VerifyCommit E chainID (Some vals) blockID height (Some commit)) = Ok () \<longleftrightarrow>
    c_Height commit = height \<and> c_BlockID commit = blockID \<and> length (c_Signatures commit) = length (Validators vals) \<and>
    (\<forall>i < length (Validators vals). \<not> Absent (c_Signatures commit ! i) \<longrightarrow> signed_by E chainID commit i (Validators vals ! i)) \<and>
    2 * powers (Validators vals) <
      3 * (\<Sum>i \<leftarrow> [0..<length (Validators vals)]. if ForBlock (c_Signatures commit ! i) then VotingPower (Validators vals ! i) else 0) \<and>
    one_key_type vals commit"
proof (cases "length (c_Signatures commit) = length (Validators vals)")
  case True
  let ?v = "vals\<lparr>vs_total := powers (Validators vals)\<rparr>" and ?n = "wrap64 (powers (Validators vals) * 2) sdiv 3"
  have "snd (verifyBatchOrSingle E chainID ?v commit ?n Absent ForBlock True True) = Ok () \<longleftrightarrow>
      verifyCommitSingle E chainID ?v commit ?n Absent ForBlock True True = Ok () \<and> one_key_type vals commit"
    using batchOrSingle_exact [OF assms(5) two_thirds(2) [OF assms(1)], of ?v commit chainID ForBlock] assms(1,3,4) True by simp
  moreover have "tally_of vals True 0 (\<lambda>_. None) 0 []" by (simp add: tally_of_def)
  note singleLoop_exact [OF assms(1) True _ this, of "c_Signatures commit" E chainID ?n]
  ultimately show ?thesis
    using True unfolding VerifyCommit_Ok [OF assms(1,2)]
    by (auto simp: verifyCommitSingle_def two_thirds(3) [OF assms(1)] atLeast0LessThan)
qed (simp add: VerifyCommit_Ok [OF assms(1,2)])

text \<open>
  C6: \<open>VerifyCommit\<close> checks every signature. For a well-formed set, whose keys have the length of their type, and batch verifiers
  that do what their interface documents, it accepts exactly the commits for the height and block with one signature
  per validator, in which every signature that is not absent verifies, the signatures for the block have more than two
  thirds of the power, and, when the proposer's key allows a batch and there are at least two signatures, all signatures that
  are not absent are by keys of the proposer's type.
\<close>

theorem verify_commit_exact:
  assumes "vals_ok (Validators vals)" "total_ok vals" "Validators vals \<noteq> []" "\<forall>v \<in> set (Validators vals). wf_key (val_PubKey v)" "batch_documented E"
  shows "snd (VerifyCommit E chainID (Some vals) blockID height (Some commit)) = Ok () \<longleftrightarrow>
    c_Height commit = height \<and> c_BlockID commit = blockID \<and> length (c_Signatures commit) = length (Validators vals) \<and>
    (\<forall>i < length (Validators vals). \<not> Absent (c_Signatures commit ! i) \<longrightarrow> signed_by E chainID commit i (Validators vals ! i)) \<and>
    2 * powers (Validators vals) <
      3 * (\<Sum>i \<leftarrow> [0..<length (Validators vals)]. if ForBlock (c_Signatures commit ! i) then VotingPower (Validators vals ! i) else 0) \<and>
    one_key_type vals commit"
  using assms by (rule VerifyCommit_exact)

theorem verify_commit_exact_witness:
  "\<not> Absent (c_Signatures demo_commit ! 0) \<and> signed_by sample_env [] demo_commit 0 (Validators demo_set ! 0)"
proof -
  have "\<not> Absent (c_Signatures demo_commit ! 0)"
    by (simp add: demo_commit_def signed_commit_def NewCommit_def NewCommitSigForBlock_def Absent_def block_flags)
  moreover have "\<forall>v \<in> set (Validators demo_set). wf_key (val_PubKey v)" by (simp add: demo_set_def demo_key_def)
  from verify_commit_exact [OF demo_set_ok(1-3) this sample_env_batch, of "[]" "v_BlockID sample_vote" 5 demo_commit] demo_verified
  have "\<not> Absent (c_Signatures demo_commit ! 0) \<longrightarrow> signed_by sample_env [] demo_commit 0 (Validators demo_set ! 0)"
    by (simp add: demo_set_def)
  ultimately show ?thesis by blast
qed

text \<open>
  C7: Batch verification is equivalent to verifying the signatures one by one: with keys of the
  proposer's type and a threshold that is not negative, the two accept the same commits, in every mode
  of counting and looking up.
\<close>

theorem batch_equals_single:
  assumes "batch_documented E" "0 \<le> needed" "Validators vals \<noteq> []" "Proposer vals = Some p" "SupportsBatchVerifier (val_PubKey p)"
    "same_key_type vals" "batchVerifyThreshold \<le> length (c_Signatures commit)"
  shows "verifyCommitBatch E chainID vals commit needed ignoreSig countSig countAll byIndex = Ok () \<longleftrightarrow>
    verifyCommitSingle E chainID vals commit needed ignoreSig countSig countAll byIndex = Ok ()"
proof -
  obtain bv where bv: "CreateBatchVerifier (val_PubKey p) = Some bv" using assms(5) Supports_Create by auto
  have "\<forall>v \<in> set (Validators vals). batch_key bv (val_PubKey v)"
    using assms(4,6) batch_key_type [OF bv] by (auto simp: same_key_type_def)
  from verifyCommitBatch_single [OF assms(1-4) bv batch_keys_all [OF this] assms(7)] show ?thesis .
qed

theorem batch_equals_single_witness:
  "let vals = demo_set\<lparr>Proposer := Some (hd (Validators demo_set))\<rparr>;
       commit = demo_commit\<lparr>c_Signatures := NewCommitSigAbsent # c_Signatures demo_commit\<rparr>
   in verifyCommitBatch sample_env [] vals commit 0 Absent ForBlock True False = Ok () \<longleftrightarrow>
      verifyCommitSingle sample_env [] vals commit 0 Absent ForBlock True False = Ok ()"
  unfolding Let_def
  by (rule batch_equals_single [OF sample_env_batch, where p = "hd (Validators demo_set)"])
    (simp_all add: demo_set_def SupportsBatchVerifier_def same_key_type_def demo_key_def batchVerifyThreshold_def demo_commit_def signed_commit_def NewCommit_def)

text \<open>
  C8: A commit that \<open>VerifyCommitLightTrusting\<close> accepts, for a trust level whose numerator and denominator are within the
  range of int64, carries signatures for its block that verify, from distinct validators of the trusted set with more than
  the trust level of its power. (The code converts the two numbers to int64, and a larger numerator becomes negative.)
\<close>

theorem trusting_commit_has_trust_level:
  assumes "vals_ok (Validators vals)" "total_ok vals" "Validators vals \<noteq> []" "batch_documented E"
    "0 \<le> Numerator f" "Numerator f \<le> MaxInt64" "0 < Denominator f" "Denominator f \<le> MaxInt64"
    "snd (VerifyCommitLightTrusting E chainID (Some vals) (Some commit) f) = Ok ()"
  shows "Numerator f * powers (Validators vals) < Denominator f * powers (filter (\<lambda>v. \<exists>j < length (c_Signatures commit).
      val_Address v = cs_ValidatorAddress (c_Signatures commit ! j) \<and> ForBlock (c_Signatures commit ! j) \<and>
      signed_by E chainID commit j v) (Validators vals))"
proof -
  let ?P = "powers (Validators vals)" and ?f = "\<lambda>c. \<not> ForBlock c"
  have P: "0 \<le> ?P" "?P \<le> MaxTotalVotingPower" using powers_nonneg assms(1) by (auto simp: vals_ok_def)
  have w: "wrap64 (Numerator f) = Numerator f" "wrap64 (Denominator f) = Denominator f"
    using assms(5-8) by (simp_all add: wrap64_id is_int64_def int_limits)
  have sm: "safeMul ?P (Numerator f) = (if ?P * Numerator f \<le> MaxInt64 then (?P * Numerator f, False) else (0, True))"
    using P assms(5,6) by (subst safeMul_exact) (simp_all add: is_int64_def int_limits max_power abs_mult)
  have le: "?P * Numerator f \<le> MaxInt64"
    using assms(7,9) by (rule_tac ccontr) (simp add: VerifyCommitLightTrusting_def TotalVotingPower_eq [OF assms(1,2)] w sm)
  define n where "n = ?P * Numerator f div Denominator f"
  have "0 \<le> n" using P assms(5,7) by (simp add: n_def pos_imp_zdiv_nonneg_iff)
  have nd: "?P * Numerator f sdiv Denominator f = n" using P assms(5,7) by (simp add: n_def sdiv_nonneg)
  have "\<bar>n\<bar> \<le> \<bar>?P * Numerator f\<bar>" using abs_sdiv_le [OF assms(7)] unfolding nd [symmetric] .
  then have "n \<le> MaxInt64" using le P assms(5) \<open>0 \<le> n\<close> by (simp add: abs_mult)
  then have nw: "wrap64 n = n" using \<open>0 \<le> n\<close> by (simp add: wrap64_id is_int64_def int_limits)
  have "snd (verifyBatchOrSingle E chainID (vals\<lparr>vs_total := ?P\<rparr>) commit n ?f (\<lambda>_. True) False False) = Ok ()"
    using assms(7,9) le by (simp add: VerifyCommitLightTrusting_def TotalVotingPower_eq [OF assms(1,2)] w sm Let_def split_def nd nw)
  from batchOrSingle_Ok [OF assms(4) \<open>0 \<le> n\<close> assms(1,3) this]
  have "n < powers (filter (counted_for E chainID vals commit ?f (\<lambda>_. True) False) (Validators vals))" .
  moreover have "counted_for E chainID vals commit ?f (\<lambda>_. True) False = (\<lambda>v. \<exists>j < length (c_Signatures commit).
      val_Address v = cs_ValidatorAddress (c_Signatures commit ! j) \<and> ForBlock (c_Signatures commit ! j) \<and> signed_by E chainID commit j v)"
    by (rule ext) (auto simp: counted_for_def)
  ultimately have "n < powers (filter (\<lambda>v. \<exists>j < length (c_Signatures commit).
      val_Address v = cs_ValidatorAddress (c_Signatures commit ! j) \<and> ForBlock (c_Signatures commit ! j) \<and> signed_by E chainID commit j v) (Validators vals))" by simp
  then show ?thesis
    unfolding n_def int_div_less_iff [OF assms(7)] by (simp add: mult.commute)
qed

lemma demo_trusted: "snd (VerifyCommitLightTrusting sample_env [] (Some demo_set) (Some demo_commit) \<lparr>Numerator = 1, Denominator = 3\<rparr>) = Ok ()"
proof -
  obtain cs where cs: "c_Signatures demo_commit = [cs]" "ForBlock cs" "cs_ValidatorAddress cs = replicate 20 1"
    by (simp add: demo_commit_def signed_commit_def NewCommit_def NewCommitSigForBlock_def ForBlock_def)
  obtain v where v: "Validators demo_set = [v]" "VotingPower v = 10" "val_Address v = replicate 20 1" by (simp add: demo_set_def)
  obtain sb where sb: "Commit_VoteSignBytes sample_env [] demo_commit (wrap32 (int 0)) = (Ok sb :: (verify_error, bytes) res)"
    "VerifySignature sample_env (val_PubKey v) sb (cs_Signature cs)"
    using demo_signed cs v by (auto simp: signed_by_def split: res.splits)
  have w: "wrap64 10 = 10" "wrap64 1 = 1" "wrap64 3 = 3" "10 sdiv (3::int) = 3"
    by (simp_all add: wrap64_id is_int64_def int_limits sdiv_nonneg)
  have sm: "safeMul 10 1 = (10, False)" by (simp add: safeMul_exact is_int64_def int_limits)
  have "verifyCommitSingle sample_env [] demo_set demo_commit 3 (\<lambda>c. \<not> ForBlock c) (\<lambda>_. True) False False = Ok ()"
    using cs v sb w by (simp add: verifyCommitSingle_def findValidator_def GetByAddress_def)
  moreover have "length (c_Signatures demo_commit) = 1" using cs(1) by simp
  ultimately have "verifyBatchOrSingle sample_env [] (demo_set\<lparr>vs_total := 10\<rparr>) demo_commit 3 (\<lambda>c. \<not> ForBlock c) (\<lambda>_. True) False False =
      (demo_set\<lparr>vs_total := 10\<rparr>, Ok ())"
    by (simp add: verifyBatchOrSingle_def shouldBatchVerify_def batchVerifyThreshold_def verifyCommitSingle_def)
  then show ?thesis
    using TotalVotingPower_eq [OF demo_set_ok(1,2)]
    by (simp add: VerifyCommitLightTrusting_def TotalVotingPower_eq [OF demo_set_ok(1,2)] demo_set_ok(4) w sm Let_def)
qed

theorem trusting_commit_has_trust_level_witness:
  "1 * 10 < 3 * powers (filter (\<lambda>v. \<exists>j < length (c_Signatures demo_commit).
      val_Address v = cs_ValidatorAddress (c_Signatures demo_commit ! j) \<and> ForBlock (c_Signatures demo_commit ! j) \<and>
      signed_by sample_env [] demo_commit j v) (Validators demo_set))"
  using trusting_commit_has_trust_level [OF demo_set_ok(1-3) sample_env_batch _ _ _ _ demo_trusted]
  by (simp add: demo_set_ok(4) int_limits)

text \<open>
  C30: \<open>VerifyCommit\<close> does not accept signatures by keys of different types once it verifies them as a batch. If a commit with two or
  more signatures is accepted and the key of the proposer allows batches, every validator whose signature is not absent
  has a key of the proposer's type. The witness is a set with two types of keys, and a commit whose two signatures both
  verify and make up all of the power: one by one it is accepted, by \<open>VerifyCommit\<close> it is not.
\<close>

theorem batch_accepts_one_key_type:
  assumes "vals_ok (Validators vals)" "total_ok vals" "Validators vals \<noteq> []"
    and "snd (VerifyCommit E chainID (Some vals) blockID height (Some commit)) = Ok ()"
    and "batchVerifyThreshold \<le> length (c_Signatures commit)"
    and "GetProposer vals = (Ok (vals', Some p) :: (verify_error, _) res)" "SupportsBatchVerifier (val_PubKey p)"
    and "i < length (c_Signatures commit)" "\<not> Absent (c_Signatures commit ! i)"
  shows "PubKey_Type (val_PubKey (Validators vals ! i)) = PubKey_Type (val_PubKey p)"
proof -
  let ?v = "vals\<lparr>vs_total := powers (Validators vals)\<rparr>" and ?n = "wrap64 (powers (Validators vals) * 2) sdiv 3"
  have "vals' = vals\<lparr>Proposer := Some p\<rparr>" using GetProposer_cases [OF assms(1,3), where 'e = verify_error] assms(6) by auto
  then have "GetProposer ?v = (Ok (?v\<lparr>Proposer := Some p\<rparr>, Some p) :: (verify_error, _) res)"
    using assms(6) by (simp add: GetProposer_total)
  then have "verifyBatchOrSingle E chainID ?v commit ?n Absent ForBlock True True =
      (?v\<lparr>Proposer := Some p\<rparr>, verifyCommitBatch E chainID (?v\<lparr>Proposer := Some p\<rparr>) commit ?n Absent ForBlock True True)"
    using assms(5,7) by (simp add: verifyBatchOrSingle_def shouldBatchVerify_def)
  then have "verifyCommitBatch E chainID (?v\<lparr>Proposer := Some p\<rparr>) commit ?n Absent ForBlock True True = Ok ()"
    using assms(4) unfolding VerifyCommit_Ok [OF assms(1,2)] by simp
  from batch_types [OF this _ _ assms(8,9)] assms(3) show ?thesis by simp
qed

definition mixed_set :: ValidatorSet where
  "mixed_set = \<lparr>Validators = [\<lparr>val_Address = replicate 20 1, val_PubKey = Ed25519 demo_key, VotingPower = 10, ProposerPriority = 0\<rparr>,
       \<lparr>val_Address = replicate 20 2, val_PubKey = Sr25519 demo_key, VotingPower = 10, ProposerPriority = -1\<rparr>],
     Proposer = None, vs_total = 0\<rparr>"

definition mixed_commit :: "bytes \<Rightarrow> bytes \<Rightarrow> Commit" where
  "mixed_commit sig sig' = NewCommit 5 0 (v_BlockID sample_vote) [NewCommitSigForBlock sig (replicate 20 1) 100, NewCommitSigForBlock sig' (replicate 20 2) 100]"

definition mixed_bytes :: "int32 \<Rightarrow> bytes" where
  "mixed_bytes i = (case (Commit_VoteSignBytes sample_env [] (mixed_commit [] []) i :: (verify_error, bytes) res) of Ok sb \<Rightarrow> sb | _ \<Rightarrow> [])"

theorem batch_accepts_one_key_type_witness:
  "let commit = mixed_commit (sample_sig demo_key (mixed_bytes 0)) (sample_sig demo_key (mixed_bytes 1)) in
   verifyCommitSingle sample_env [] mixed_set commit 13 Absent ForBlock True True = Ok () \<and>
   \<not> snd (VerifyCommit sample_env [] (Some mixed_set) (v_BlockID sample_vote) 5 (Some commit)) = Ok ()"
  unfolding Let_def
proof
  let ?c = "mixed_commit (sample_sig demo_key (mixed_bytes 0)) (sample_sig demo_key (mixed_bytes 1))"
  show "verifyCommitSingle sample_env [] mixed_set ?c 13 Absent ForBlock True True = Ok ()" by code_simp
  have ok: "vals_ok (Validators mixed_set)" "total_ok mixed_set" "Validators mixed_set \<noteq> []"
    by (simp_all add: mixed_set_def vals_ok_def total_ok_def max_power)
  have len: "batchVerifyThreshold \<le> length (c_Signatures ?c)" "1 < length (c_Signatures ?c)" "\<not> Absent (c_Signatures ?c ! 1)"
    by (simp_all add: mixed_commit_def NewCommit_def batchVerifyThreshold_def NewCommitSigForBlock_def Absent_def block_flags)
  have "(case GetProposer mixed_set :: (verify_error, _) res of Ok (_, Some p) \<Rightarrow> PubKey_Type (val_PubKey p) = ''ed25519'' | _ \<Rightarrow> False)" by code_simp
  then obtain vals' p where p: "GetProposer mixed_set = (Ok (vals', Some p) :: (verify_error, _) res)" "PubKey_Type (val_PubKey p) = ''ed25519''"
    by (auto split: res.splits option.splits prod.splits)
  then have "SupportsBatchVerifier (val_PubKey p)" by (simp add: SupportsBatchVerifier_def)
  note one = batch_accepts_one_key_type [OF ok _ len(1) p(1) this len(2,3)]
  have "PubKey_Type (val_PubKey (Validators mixed_set ! 1)) \<noteq> PubKey_Type (val_PubKey p)" by (simp add: mixed_set_def p(2))
  with one show "\<not> snd (VerifyCommit sample_env [] (Some mixed_set) (v_BlockID sample_vote) 5 (Some ?c)) = Ok ()" by blast
qed

end
