(* ===== verification/VoteSet.thy ===== *)
theory VoteSet
  imports CommitVerify
begin

text \<open>
  Vote sets (\<open>types/vote_set.go\<close>): the votes of one type for a height and round, the votes of each
  block, and the first block seen with more than two thirds of the voting power. A vote set is
  locked by a mutex for each operation, so that its operations are steps on the state. The slices
  and maps of the struct are only reached through it and are part of the state.
\<close>

datatype voteset_error =
    VoteError vote_error
  | ErrVoteConflictingVotes Vote Vote
  | ErrConflictingPeerMaj23 bytes BlockID BlockID

section \<open>The votes of a block\<close>

record blockVotes =
  bv_peerMaj23 :: bool
  bv_bitArray :: ba_ptr
  bv_votes :: "Vote option list"
  bv_sum :: int64

definition newBlockVotes :: "bool \<Rightarrow> int \<Rightarrow> blockVotes" where
  "newBlockVotes peerMaj23 numValidators =
     \<lparr>bv_peerMaj23 = peerMaj23, bv_bitArray = NewBitArray numValidators,
      bv_votes = replicate (nat numValidators) None, bv_sum = 0\<rparr>"

definition voteAt :: "Vote option list \<Rightarrow> int32 \<Rightarrow> ('e, Vote option) res" where
  "voteAt votes i = (if i < 0 \<or> int (length votes) \<le> i then Panic ''index out of range'' else Ok (votes ! nat i))"

definition blockVotes_addVerifiedVote :: "blockVotes \<Rightarrow> Vote \<Rightarrow> int64 \<Rightarrow> ('e, blockVotes) res" where
  "blockVotes_addVerifiedVote vs vote votingPower =
     (let valIndex = v_ValidatorIndex vote
      in res_bind (voteAt (bv_votes vs) valIndex) (\<lambda>existing.
           if existing = None then
             res_bind (SetIndex (bv_bitArray vs) valIndex True) (\<lambda>(ba, _).
               Ok (vs\<lparr>bv_bitArray := ba, bv_votes := (bv_votes vs)[nat valIndex := Some vote],
                      bv_sum := wrap64 (bv_sum vs + votingPower)\<rparr>))
           else Ok vs))"

definition blockVotes_getByIndex :: "blockVotes option \<Rightarrow> int32 \<Rightarrow> ('e, Vote option) res" where
  "blockVotes_getByIndex ovs index = (case ovs of None \<Rightarrow> Ok None | Some vs \<Rightarrow> voteAt (bv_votes vs) index)"

section \<open>The vote set\<close>

record VoteSet =
  vset_chainID :: bytes
  vset_height :: int64
  vset_round :: int32
  vset_signedMsgType :: int32
  vset_valSet :: ValidatorSet
  vset_votesBitArray :: ba_ptr
  vset_votes :: "Vote option list"
  vset_sum :: int64
  vset_maj23 :: "BlockID option"
  vset_votesByBlock :: "bytes \<rightharpoonup> blockVotes"
  vset_peerMaj23s :: "bytes \<rightharpoonup> BlockID"

definition MaxVotesCount :: int where "MaxVotesCount = 10000"

definition NewVoteSet :: "bytes \<Rightarrow> int64 \<Rightarrow> int32 \<Rightarrow> int32 \<Rightarrow> ValidatorSet \<Rightarrow> ('e, VoteSet) res" where
  "NewVoteSet chainID height round signedMsgType valSet =
     (if height = 0 then Panic ''Cannot make VoteSet for height == 0''
      else Ok \<lparr>vset_chainID = chainID, vset_height = height, vset_round = round, vset_signedMsgType = signedMsgType,
        vset_valSet = valSet, vset_votesBitArray = NewBitArray (vs_Size valSet),
        vset_votes = replicate (nat (vs_Size valSet)) None, vset_sum = 0, vset_maj23 = None,
        vset_votesByBlock = Map.empty, vset_peerMaj23s = Map.empty\<rparr>)"

subsection \<open>Reading\<close>

text \<open>A nil receiver is \<open>None\<close>.\<close>

definition VoteSet_ChainID :: "VoteSet \<Rightarrow> bytes" where "VoteSet_ChainID s = vset_chainID s"

definition VoteSet_GetHeight :: "VoteSet option \<Rightarrow> int64" where
  "VoteSet_GetHeight os = (case os of None \<Rightarrow> 0 | Some s \<Rightarrow> vset_height s)"

definition VoteSet_GetRound :: "VoteSet option \<Rightarrow> int32" where
  "VoteSet_GetRound os = (case os of None \<Rightarrow> -1 | Some s \<Rightarrow> vset_round s)"

definition VoteSet_Type :: "VoteSet option \<Rightarrow> byte" where
  "VoteSet_Type os = (case os of None \<Rightarrow> 0 | Some s \<Rightarrow> word_of_int (vset_signedMsgType s))"

definition VoteSet_Size :: "VoteSet option \<Rightarrow> int" where
  "VoteSet_Size os = (case os of None \<Rightarrow> 0 | Some s \<Rightarrow> vs_Size (vset_valSet s))"

definition VoteSet_BitArray :: "VoteSet option \<Rightarrow> ba_ptr" where
  "VoteSet_BitArray os = (case os of None \<Rightarrow> None | Some s \<Rightarrow> Copy (vset_votesBitArray s))"

definition BitArrayByBlockID :: "VoteSet option \<Rightarrow> BlockID \<Rightarrow> ('e, ba_ptr) res" where
  "BitArrayByBlockID os blockID =
     (case os of None \<Rightarrow> Ok None
      | Some s \<Rightarrow> res_bind (bid_Key blockID) (\<lambda>key.
          case vset_votesByBlock s key of None \<Rightarrow> Ok None | Some bv \<Rightarrow> Ok (Copy (bv_bitArray bv))))"

definition VoteSet_GetByIndex :: "VoteSet option \<Rightarrow> int32 \<Rightarrow> ('e, Vote option) res" where
  "VoteSet_GetByIndex os valIndex =
     (case os of None \<Rightarrow> Ok None
      | Some s \<Rightarrow> if valIndex \<ge> int (length (vset_votes s)) then Ok None else voteAt (vset_votes s) valIndex)"

definition VoteSet_List :: "VoteSet option \<Rightarrow> Vote list" where
  "VoteSet_List os =
     (case os of None \<Rightarrow> []
      | Some s \<Rightarrow> concat (map (\<lambda>v. case v of None \<Rightarrow> [] | Some vote \<Rightarrow> [vote]) (vset_votes s)))"

definition VoteSet_GetByAddress :: "VoteSet option \<Rightarrow> bytes \<Rightarrow> ('e, Vote option) res" where
  "VoteSet_GetByAddress os address =
     (case os of None \<Rightarrow> Ok None
      | Some s \<Rightarrow>
          (let (valIndex, val) = GetByAddress (Validators (vset_valSet s)) address
           in if val = None then Panic ''GetByAddress(address) returned nil'' else voteAt (vset_votes s) valIndex))"

definition HasTwoThirdsMajority :: "VoteSet option \<Rightarrow> bool" where
  "HasTwoThirdsMajority os = (case os of None \<Rightarrow> False | Some s \<Rightarrow> vset_maj23 s \<noteq> None)"

definition VoteSet_IsCommit :: "VoteSet option \<Rightarrow> bool" where
  "VoteSet_IsCommit os =
     (case os of None \<Rightarrow> False
      | Some s \<Rightarrow> if vset_signedMsgType s \<noteq> PrecommitType then False else vset_maj23 s \<noteq> None)"

text \<open>The total voting power is cached in the validator set.\<close>

definition totalPower :: "VoteSet \<Rightarrow> ('e, VoteSet \<times> int64) res" where
  "totalPower s = res_bind (TotalVotingPower (vset_valSet s)) (\<lambda>(vals, n). Ok (s\<lparr>vset_valSet := vals\<rparr>, n))"

definition HasTwoThirdsAny :: "VoteSet option \<Rightarrow> ('e, VoteSet option \<times> bool) res" where
  "HasTwoThirdsAny os =
     (case os of None \<Rightarrow> Ok (None, False)
      | Some s \<Rightarrow> res_bind (totalPower s) (\<lambda>(s, n). Ok (Some s, vset_sum s > wrap64 (n * 2) sdiv 3)))"

definition VoteSet_HasAll :: "VoteSet option \<Rightarrow> ('e, VoteSet option \<times> bool) res" where
  "VoteSet_HasAll os =
     (case os of None \<Rightarrow> Ok (None, False)
      | Some s \<Rightarrow> res_bind (totalPower s) (\<lambda>(s, n). Ok (Some s, vset_sum s = n)))"

definition TwoThirdsMajority :: "VoteSet option \<Rightarrow> BlockID \<times> bool" where
  "TwoThirdsMajority os =
     (case os of None \<Rightarrow> (bid_zero, False)
      | Some s \<Rightarrow> (case vset_maj23 s of Some b \<Rightarrow> (b, True) | None \<Rightarrow> (bid_zero, False)))"

subsection \<open>Adding a vote\<close>

definition VoteSet_getVote :: "VoteSet \<Rightarrow> int32 \<Rightarrow> bytes \<Rightarrow> ('e, Vote option) res" where
  "VoteSet_getVote s valIndex blockKey =
     res_bind (voteAt (vset_votes s) valIndex) (\<lambda>existing.
     res_bind (case existing of None \<Rightarrow> Ok False | Some v \<Rightarrow> res_bind (bid_Key (v_BlockID v)) (\<lambda>key. Ok (key = blockKey))) (\<lambda>same.
       if same then Ok existing else blockVotes_getByIndex (vset_votesByBlock s blockKey) valIndex))"

definition setVote :: "VoteSet \<Rightarrow> Vote \<Rightarrow> ('e, VoteSet) res" where
  "setVote s vote =
     res_bind (SetIndex (vset_votesBitArray s) (v_ValidatorIndex vote) True) (\<lambda>(ba, _).
       Ok (s\<lparr>vset_votes := (vset_votes s)[nat (v_ValidatorIndex vote) := Some vote], vset_votesBitArray := ba\<rparr>))"

text \<open>
  \<open>addVerifiedVote\<close> in its three parts: recording the vote of the validator, with the vote it
  conflicts with; finding the votes of the block, with \<open>None\<close> where it returns; and counting the vote.
\<close>

definition recordVote :: "VoteSet \<Rightarrow> Vote \<Rightarrow> bytes \<Rightarrow> int64 \<Rightarrow> ('e, VoteSet \<times> Vote option) res" where
  "recordVote s vote blockKey votingPower =
     res_bind (voteAt (vset_votes s) (v_ValidatorIndex vote)) (\<lambda>existing.
       case existing of
         Some ex \<Rightarrow>
           if bid_Equals (v_BlockID ex) (v_BlockID vote) then Panic ''addVerifiedVote does not expect duplicate votes''
           else res_bind (case vset_maj23 s of None \<Rightarrow> Ok False
                          | Some m \<Rightarrow> res_bind (bid_Key m) (\<lambda>key. Ok (key = blockKey))) (\<lambda>replace.
                  if replace then res_bind (setVote s vote) (\<lambda>s. Ok (s, Some ex)) else Ok (s, Some ex))
       | None \<Rightarrow> res_bind (setVote s vote) (\<lambda>s. Ok (s\<lparr>vset_sum := wrap64 (vset_sum s + votingPower)\<rparr>, None)))"

definition trackBlock :: "VoteSet \<Rightarrow> bytes \<Rightarrow> Vote option \<Rightarrow> (VoteSet \<times> blockVotes) option" where
  "trackBlock s blockKey conflicting =
     (case vset_votesByBlock s blockKey of
        Some bv \<Rightarrow> if conflicting \<noteq> None \<and> \<not> bv_peerMaj23 bv then None else Some (s, bv)
      | None \<Rightarrow>
          if conflicting \<noteq> None then None
          else (let bv = newBlockVotes False (vs_Size (vset_valSet s))
                in Some (s\<lparr>vset_votesByBlock := (vset_votesByBlock s)(blockKey \<mapsto> bv)\<rparr>, bv)))"

definition copyVotes :: "Vote option list \<Rightarrow> Vote option list \<Rightarrow> ('e, Vote option list) res" where
  "copyVotes new votes =
     res_fold (\<lambda>votes (i, v). case v of None \<Rightarrow> Ok votes
         | Some vote \<Rightarrow> if i < length votes then Ok (votes[i := Some vote]) else Panic ''index out of range'')
       votes (enumerate 0 new)"

definition countVote :: "VoteSet \<Rightarrow> Vote \<Rightarrow> bytes \<Rightarrow> int64 \<Rightarrow> blockVotes \<Rightarrow> ('e, VoteSet) res" where
  "countVote s vote blockKey votingPower bv =
     (let origSum = bv_sum bv
      in res_bind (totalPower s) (\<lambda>(s, n).
           let quorum = wrap64 (wrap64 (n * 2) sdiv 3 + 1)
           in res_bind (blockVotes_addVerifiedVote bv vote votingPower) (\<lambda>bv.
                let s = s\<lparr>vset_votesByBlock := (vset_votesByBlock s)(blockKey \<mapsto> bv)\<rparr>
                in if origSum < quorum \<and> quorum \<le> bv_sum bv \<and> vset_maj23 s = None
                   then res_bind (copyVotes (bv_votes bv) (vset_votes s)) (\<lambda>votes.
                          Ok (s\<lparr>vset_maj23 := Some (v_BlockID vote), vset_votes := votes\<rparr>))
                   else Ok s)))"

definition VoteSet_addVerifiedVote :: "VoteSet \<Rightarrow> Vote \<Rightarrow> bytes \<Rightarrow> int64 \<Rightarrow> ('e, VoteSet \<times> bool \<times> Vote option) res" where
  "VoteSet_addVerifiedVote s vote blockKey votingPower =
     res_bind (recordVote s vote blockKey votingPower) (\<lambda>(s, conflicting).
       case trackBlock s blockKey conflicting of
         None \<Rightarrow> Ok (s, False, conflicting)
       | Some (s, bv) \<Rightarrow> res_bind (countVote s vote blockKey votingPower bv) (\<lambda>s. Ok (s, True, conflicting)))"

text \<open>The result is the flag \<open>added\<close> with the error, if any; a conflicting vote may be added.\<close>

type_synonym add_result = "VoteSet \<times> bool \<times> voteset_error option"

definition NewConflictingVoteError :: "Vote \<Rightarrow> Vote \<Rightarrow> voteset_error" where
  "NewConflictingVoteError vote1 vote2 = ErrVoteConflictingVotes vote1 vote2"

definition VoteSet_addVote :: "env \<Rightarrow> VoteSet \<Rightarrow> Vote option \<Rightarrow> ('e, add_result) res" where
  "VoteSet_addVote E s ovote =
     (let fail = (\<lambda>e. Ok (s, False, Some (VoteError e)))
      in case ovote of None \<Rightarrow> fail ErrVoteNil
      | Some vote \<Rightarrow> res_bind (bid_Key (v_BlockID vote)) (\<lambda>blockKey.
          if v_ValidatorIndex vote < 0 then fail ErrVoteInvalidValidatorIndex
          else if length (v_ValidatorAddress vote) = 0 then fail ErrVoteInvalidValidatorAddress
          else if v_Height vote \<noteq> vset_height s \<or> v_Round vote \<noteq> vset_round s \<or> v_Type vote \<noteq> vset_signedMsgType s
          then fail ErrVoteUnexpectedStep
          else (case GetByIndex (Validators (vset_valSet s)) (v_ValidatorIndex vote) of
              None \<Rightarrow> fail ErrVoteInvalidValidatorIndex
            | Some (lookupAddr, val) \<Rightarrow>
                if v_ValidatorAddress vote \<noteq> lookupAddr then fail ErrVoteInvalidValidatorAddress
                else res_bind (VoteSet_getVote s (v_ValidatorIndex vote) blockKey) (\<lambda>existing.
                  case existing of
                    Some ex \<Rightarrow> if v_Signature ex = v_Signature vote then Ok (s, False, None)
                               else fail ErrVoteNonDeterministicSignature
                  | None \<Rightarrow>
                      (case Vote_Verify E (vset_chainID s) (val_PubKey val) vote of
                         Err e \<Rightarrow> fail e
                       | Panic p \<Rightarrow> Panic p
                       | Ok _ \<Rightarrow>
                           res_bind (VoteSet_addVerifiedVote s vote blockKey (VotingPower val)) (\<lambda>(s, added, conflicting).
                             case conflicting of
                               Some c \<Rightarrow> Ok (s, added, Some (NewConflictingVoteError c vote))
                             | None \<Rightarrow> if \<not> added then Panic ''Expected to add non-conflicting vote''
                                       else Ok (s, added, None)))))))"

definition VoteSet_AddVote :: "env \<Rightarrow> VoteSet option \<Rightarrow> Vote option \<Rightarrow> ('e, add_result) res" where
  "VoteSet_AddVote E os vote = (case os of None \<Rightarrow> Panic ''AddVote() on nil VoteSet'' | Some s \<Rightarrow> VoteSet_addVote E s vote)"

definition VoteSet_SetPeerMaj23 :: "VoteSet option \<Rightarrow> bytes \<Rightarrow> BlockID \<Rightarrow> ('e, VoteSet \<times> voteset_error option) res" where
  "VoteSet_SetPeerMaj23 os peerID blockID =
     (case os of None \<Rightarrow> Panic ''SetPeerMaj23() on nil VoteSet''
      | Some s \<Rightarrow> res_bind (bid_Key blockID) (\<lambda>blockKey.
          case vset_peerMaj23s s peerID of
            Some existing \<Rightarrow>
              if bid_Equals existing blockID then Ok (s, None)
              else Ok (s, Some (ErrConflictingPeerMaj23 peerID blockID existing))
          | None \<Rightarrow>
              (let s = s\<lparr>vset_peerMaj23s := (vset_peerMaj23s s)(peerID \<mapsto> blockID)\<rparr>
               in case vset_votesByBlock s blockKey of
                    Some bv \<Rightarrow>
                      if bv_peerMaj23 bv then Ok (s, None)
                      else Ok (s\<lparr>vset_votesByBlock := (vset_votesByBlock s)(blockKey \<mapsto> bv\<lparr>bv_peerMaj23 := True\<rparr>)\<rparr>, None)
                  | None \<Rightarrow>
                      Ok (s\<lparr>vset_votesByBlock := (vset_votesByBlock s)(blockKey \<mapsto>
                            newBlockVotes True (vs_Size (vset_valSet s)))\<rparr>, None))))"

subsection \<open>Commits\<close>

definition commitSigOf :: "BlockID \<Rightarrow> Vote option \<Rightarrow> ('e, CommitSig) res" where
  "commitSigOf maj23 ov =
     res_bind (Vote_CommitSig ov) (\<lambda>commitSig.
       if ForBlock commitSig then
         (case ov of None \<Rightarrow> Panic ''nil pointer dereference''
          | Some v \<Rightarrow> Ok (if \<not> bid_Equals (v_BlockID v) maj23 then NewCommitSigAbsent else commitSig))
       else Ok commitSig)"

definition MakeCommit :: "VoteSet \<Rightarrow> ('e, Commit) res" where
  "MakeCommit s =
     (if vset_signedMsgType s \<noteq> PrecommitType then Panic ''Cannot MakeCommit() unless VoteSet.Type is PrecommitType''
      else case vset_maj23 s of None \<Rightarrow> Panic ''Cannot MakeCommit() unless a blockhash has +2/3''
      | Some maj23 \<Rightarrow>
          res_bind (res_fold (\<lambda>sigs v. res_bind (commitSigOf maj23 v) (\<lambda>cs. Ok (sigs @ [cs]))) [] (vset_votes s)) (\<lambda>sigs.
            Ok (NewCommit (VoteSet_GetHeight (Some s)) (VoteSet_GetRound (Some s)) maj23 sigs)))"

definition CommitToVoteSet :: "env \<Rightarrow> bytes \<Rightarrow> Commit \<Rightarrow> ValidatorSet \<Rightarrow> ('e, VoteSet) res" where
  "CommitToVoteSet E chainID commit vals =
     res_bind (NewVoteSet chainID (c_Height commit) (c_Round commit) PrecommitType vals) (\<lambda>voteSet.
       res_fold (\<lambda>voteSet (idx, commitSig).
           if Absent commitSig then Ok voteSet
           else res_bind (GetVote commit (wrap32 (int idx))) (\<lambda>vote.
             res_bind (VoteSet_AddVote E (Some voteSet) (Some vote)) (\<lambda>(voteSet, added, err).
               if \<not> added \<or> err \<noteq> None then Panic ''Failed to reconstruct LastCommit'' else Ok voteSet)))
         voteSet (enumerate 0 (c_Signatures commit)))"

section \<open>Voting power\<close>

text \<open>The power of the validators at the indices that satisfy a predicate.\<close>

definition powerOf :: "Validator list \<Rightarrow> (nat \<Rightarrow> bool) \<Rightarrow> int" where
  "powerOf vs P = (\<Sum>i < length vs. if P i then VotingPower (vs ! i) else 0)"

lemma powerOf_cong: "(\<And>i. i < length vs \<Longrightarrow> P i = Q i) \<Longrightarrow> powerOf vs P = powerOf vs Q"
  by (simp add: powerOf_def)

lemma powerOf_none [simp]: "powerOf vs (\<lambda>_. False) = 0"
  by (simp add: powerOf_def)

lemma powerOf_all: "powerOf vs (\<lambda>_. True) = powers vs"
  by (simp add: powerOf_def sum_list_sum_nth atLeast0LessThan)

lemma nth_power_pos: "vals_ok vs \<Longrightarrow> i < length vs \<Longrightarrow> 0 < VotingPower (vs ! i)"
  by (simp add: vals_ok_def)

lemma powerOf_mono: "vals_ok vs \<Longrightarrow> (\<And>i. i < length vs \<Longrightarrow> P i \<Longrightarrow> Q i) \<Longrightarrow> powerOf vs P \<le> powerOf vs Q"
  unfolding powerOf_def by (intro sum_mono) (auto simp: less_imp_le nth_power_pos)

lemma powerOf_bounds: "vals_ok vs \<Longrightarrow> 0 \<le> powerOf vs P \<and> powerOf vs P \<le> powers vs"
  using powerOf_mono [of vs "\<lambda>_. False" P] powerOf_mono [of vs P "\<lambda>_. True"] by (simp add: powerOf_all)

lemma powerOf_add:
  assumes "i < length vs" "\<not> P i"
  shows "powerOf vs (\<lambda>j. j = i \<or> P j) = powerOf vs P + VotingPower (vs ! i)"
proof -
  have eq: "(\<lambda>j. if j = i \<or> P j then VotingPower (vs ! j) else 0) =
      (\<lambda>j. (if P j then VotingPower (vs ! j) else 0) + (if j = i then VotingPower (vs ! j) else 0))"
    using assms(2) by auto
  show ?thesis using assms(1) unfolding powerOf_def eq by (simp add: sum.distrib)
qed

text \<open>Two groups of validators overlap in at least what they have together beyond the total.\<close>

lemma powerOf_overlap:
  assumes "vals_ok vs"
  shows "powerOf vs P + powerOf vs Q \<le> powers vs + powerOf vs (\<lambda>i. P i \<and> Q i)"
proof -
  have "powerOf vs P + powerOf vs Q \<le> powerOf vs (\<lambda>_. True) + powerOf vs (\<lambda>i. P i \<and> Q i)"
    unfolding powerOf_def sum.distrib [symmetric] by (rule sum_mono) (use assms in \<open>auto simp: less_imp_le nth_power_pos\<close>)
  then show ?thesis by (simp add: powerOf_all)
qed

lemma powerOf_wrap: "vals_ok vs \<Longrightarrow> wrap64 (powerOf vs P) = powerOf vs P"
  using powerOf_bounds [of vs P] by (intro wrap64_id) (simp add: vals_ok_def is_int64_def max_power int_limits)

section \<open>The invariant\<close>

text \<open>
  The bytes of the key of a block. Keys of block IDs that are zero or complete tell them apart.
\<close>

definition bkey :: "BlockID \<Rightarrow> bytes" where
  "bkey b = bid_Hash b @ encFields (pshFields (bid_PartSetHeader b))"

definition bid_ok :: "BlockID \<Rightarrow> bool" where
  "bid_ok b \<longleftrightarrow> bid_IsZero b \<or> bid_IsComplete b"

lemma bid_Key_bkey [simp]: "bid_Key b = Ok (bkey b)"
  by (simp add: bid_Key_Ok bkey_def)

lemma bkey_inj: "bid_ok a \<Longrightarrow> bid_ok b \<Longrightarrow> bkey a = bkey b \<longleftrightarrow> a = b"
  unfolding bid_ok_def bkey_def using bid_Key_inj by blast

text \<open>
  The context of a vote set: what its operations never change. A vote is good for a slot if the
  set accepts it there: it is of the validator, for the height, round and type, and verifies.
\<close>

record vote_ctx =
  x_chainID :: bytes
  x_height :: int64
  x_round :: int32
  x_type :: int32
  x_vals :: "Validator list"

definition ctx :: "VoteSet \<Rightarrow> vote_ctx" where
  "ctx s = \<lparr>x_chainID = vset_chainID s, x_height = vset_height s, x_round = vset_round s, x_type = vset_signedMsgType s,
     x_vals = Validators (vset_valSet s)\<rparr>"

definition good_vote :: "env \<Rightarrow> vote_ctx \<Rightarrow> nat \<Rightarrow> Vote \<Rightarrow> bool" where
  "good_vote E c i v \<longleftrightarrow> v_ValidatorIndex v = int i \<and> v_ValidatorAddress v = val_Address (x_vals c ! i) \<and>
     v_Height v = x_height c \<and> v_Round v = x_round c \<and> v_Type v = x_type c \<and> bid_ok (v_BlockID v) \<and>
     Vote_Verify E (x_chainID c) (val_PubKey (x_vals c ! i)) v = Ok ()"

text \<open>A slice of votes with its bit array and its sum of voting power.\<close>

definition slots_ok :: "env \<Rightarrow> vote_ctx \<Rightarrow> Vote option list \<Rightarrow> ba_ptr \<Rightarrow> int \<Rightarrow> bool" where
  "slots_ok E c votes ba tot \<longleftrightarrow> length votes = length (x_vals c) \<and> ptr_wf ba \<and> ptr_list ba = map (\<lambda>v. v \<noteq> None) votes \<and>
     tot = powerOf (x_vals c) (\<lambda>i. votes ! i \<noteq> None) \<and>
     (\<forall>i v. i < length votes \<longrightarrow> votes ! i = Some v \<longrightarrow> good_vote E c i v)"

definition block_ok :: "env \<Rightarrow> vote_ctx \<Rightarrow> Vote option list \<Rightarrow> bytes \<Rightarrow> blockVotes \<Rightarrow> bool" where
  "block_ok E c votes key bv \<longleftrightarrow> slots_ok E c (bv_votes bv) (bv_bitArray bv) (bv_sum bv) \<and>
     (\<forall>i v. i < length (bv_votes bv) \<longrightarrow> bv_votes bv ! i = Some v \<longrightarrow> bkey (v_BlockID v) = key \<and> votes ! i \<noteq> None)"

definition quorumOf :: "vote_ctx \<Rightarrow> int" where
  "quorumOf c = 2 * powers (x_vals c) div 3 + 1"

definition maj_ok :: "vote_ctx \<Rightarrow> Vote option list \<Rightarrow> (bytes \<rightharpoonup> blockVotes) \<Rightarrow> BlockID option \<Rightarrow> bool" where
  "maj_ok c votes blocks maj \<longleftrightarrow>
     (case maj of
        None \<Rightarrow> \<forall>key bv. blocks key = Some bv \<longrightarrow> bv_sum bv < quorumOf c
      | Some m \<Rightarrow> bid_ok m \<and> (\<exists>bv. blocks (bkey m) = Some bv \<and> quorumOf c \<le> bv_sum bv \<and>
          (\<forall>i < length votes. bv_votes bv ! i \<noteq> None \<longrightarrow> (\<exists>v. votes ! i = Some v \<and> v_BlockID v = m))))"

definition valset_ok :: "ValidatorSet \<Rightarrow> bool" where
  "valset_ok vals \<longleftrightarrow> vals_ok (Validators vals) \<and> total_ok vals \<and> (\<forall>v \<in> set (Validators vals). wf_key (val_PubKey v)) \<and>
     int (length (Validators vals)) \<le> MaxInt32"

definition vset_inv :: "env \<Rightarrow> VoteSet \<Rightarrow> bool" where
  "vset_inv E s \<longleftrightarrow> valset_ok (vset_valSet s) \<and> slots_ok E (ctx s) (vset_votes s) (vset_votesBitArray s) (vset_sum s) \<and>
     (\<forall>key bv. vset_votesByBlock s key = Some bv \<longrightarrow> block_ok E (ctx s) (vset_votes s) key bv) \<and>
     maj_ok (ctx s) (vset_votes s) (vset_votesByBlock s) (vset_maj23 s)"

lemma voteAt_nat [simp]: "i < length votes \<Longrightarrow> voteAt votes (int i) = Ok (votes ! i)"
  by (simp add: voteAt_def)

lemma SetIndex_Ok:
  assumes "ptr_wf ba" "i < length (ptr_list ba)"
  shows "\<exists>ba'. SetIndex ba (int i) b = (Ok (ba', True) :: ('e, _) res) \<and> ptr_wf ba' \<and> ptr_list ba' = (ptr_list ba)[i := b]"
  using ba.put_in [of ba "int i" b] assms ba.size_list [of ba] by simp

lemma slots_put:
  assumes ok: "slots_ok E c votes ba tot" and i: "i < length votes" and v: "good_vote E c i v"
    and vals: "vals_ok (x_vals c)"
  shows "\<exists>ba'. SetIndex ba (int i) True = (Ok (ba', True) :: ('e, _) res) \<and>
    slots_ok E c (votes[i := Some v]) ba' (if votes ! i = None then wrap64 (tot + VotingPower (x_vals c ! i)) else tot)"
proof -
  have l: "length votes = length (x_vals c)" "ptr_wf ba" "ptr_list ba = map (\<lambda>v. v \<noteq> None) votes" "i < length (ptr_list ba)"
    "tot = powerOf (x_vals c) (\<lambda>i. votes ! i \<noteq> None)"
    using ok i by (simp_all add: slots_ok_def)
  obtain ba' where ba': "SetIndex ba (int i) True = (Ok (ba', True) :: ('e, _) res)" "ptr_wf ba'" "ptr_list ba' = (ptr_list ba)[i := True]"
    using SetIndex_Ok [OF l(2,4)] by blast
  have eq: "powerOf (x_vals c) (\<lambda>j. votes[i := Some v] ! j \<noteq> None) = powerOf (x_vals c) (\<lambda>j. j = i \<or> votes ! j \<noteq> None)"
    by (rule powerOf_cong) (use l i in \<open>auto simp: nth_list_update\<close>)
  have "(if votes ! i = None then wrap64 (tot + VotingPower (x_vals c ! i)) else tot) =
      powerOf (x_vals c) (\<lambda>j. votes[i := Some v] ! j \<noteq> None)"
  proof (cases "votes ! i = None")
    case True
    then have "tot + VotingPower (x_vals c ! i) = powerOf (x_vals c) (\<lambda>j. j = i \<or> votes ! j \<noteq> None)"
      using powerOf_add [of i "x_vals c" "\<lambda>j. votes ! j \<noteq> None"] l i by simp
    then show ?thesis unfolding eq if_P [OF True] by (simp only: powerOf_wrap [OF vals])
  next
    case False
    then show ?thesis unfolding eq using l(5) by (auto intro: powerOf_cong)
  qed
  moreover have "ptr_list ba' = map (\<lambda>v. v \<noteq> None) (votes[i := Some v])"
    by (simp add: ba'(3) l(3) map_update)
  ultimately have "slots_ok E c (votes[i := Some v]) ba' (if votes ! i = None then wrap64 (tot + VotingPower (x_vals c ! i)) else tot)"
    using ba'(2) ok v i unfolding slots_ok_def by (auto simp: nth_list_update split: if_splits)
  with ba'(1) show ?thesis by blast
qed

lemma good_vote_simps:
  assumes "good_vote E c i v"
  shows "v_ValidatorIndex v = int i" "bid_ok (v_BlockID v)"
  using assms by (simp_all add: good_vote_def)

lemma ctx_simps [simp]:
  "x_vals (ctx s) = Validators (vset_valSet s)"
  "ctx (s\<lparr>vset_votes := a\<rparr>) = ctx s" "ctx (s\<lparr>vset_votesBitArray := b\<rparr>) = ctx s" "ctx (s\<lparr>vset_sum := n\<rparr>) = ctx s"
  "ctx (s\<lparr>vset_maj23 := m\<rparr>) = ctx s" "ctx (s\<lparr>vset_votesByBlock := k\<rparr>) = ctx s" "ctx (s\<lparr>vset_peerMaj23s := p\<rparr>) = ctx s"
  "ctx (s\<lparr>vset_valSet := (vset_valSet s)\<lparr>vs_total := t\<rparr>\<rparr>) = ctx s"
  by (simp_all add: ctx_def)


lemma setVote_Ok:
  assumes inv: "vset_inv E s" and i: "i < length (vset_votes s)" and v: "good_vote E (ctx s) i vote"
  shows "\<exists>ba. setVote s vote = (Ok (s\<lparr>vset_votes := (vset_votes s)[i := Some vote], vset_votesBitArray := ba\<rparr>) :: ('e, _) res) \<and>
    slots_ok E (ctx s) ((vset_votes s)[i := Some vote]) ba
      (if vset_votes s ! i = None then wrap64 (vset_sum s + VotingPower (Validators (vset_valSet s) ! i)) else vset_sum s)"
proof -
  have "slots_ok E (ctx s) (vset_votes s) (vset_votesBitArray s) (vset_sum s)" "vals_ok (x_vals (ctx s))"
    using inv by (simp_all add: vset_inv_def valset_ok_def)
  from slots_put [OF this(1) i v this(2)] obtain ba where
    "SetIndex (vset_votesBitArray s) (int i) True = (Ok (ba, True) :: ('e, _) res)"
    "slots_ok E (ctx s) ((vset_votes s)[i := Some vote]) ba
      (if vset_votes s ! i = None then wrap64 (vset_sum s + VotingPower (Validators (vset_valSet s) ! i)) else vset_sum s)"
    by (auto cong: if_cong)
  then show ?thesis using v by (auto simp: setVote_def good_vote_def)
qed

lemma block_ok_votes:
  "block_ok E c votes key bv \<Longrightarrow> length votes = length (x_vals c) \<Longrightarrow> block_ok E c (votes[i := Some v]) key bv"
  by (cases "i < length votes") (auto simp: block_ok_def slots_ok_def nth_list_update)

lemma maj_ok_votes:
  assumes "maj_ok c votes blocks maj" "\<And>m. maj = Some m \<Longrightarrow> votes ! i = None \<or> v_BlockID v = m"
    and "\<And>key bv. blocks key = Some bv \<Longrightarrow> i < length votes \<Longrightarrow> votes ! i = None \<Longrightarrow> bv_votes bv ! i = None"
  shows "maj_ok c (votes[i := Some v]) blocks maj"
proof (cases maj)
  case (Some m)
  with assms(1) obtain bv where bv: "bid_ok m" "blocks (bkey m) = Some bv" "quorumOf c \<le> bv_sum bv"
    "\<And>j. j < length votes \<Longrightarrow> bv_votes bv ! j \<noteq> None \<Longrightarrow> \<exists>v. votes ! j = Some v \<and> v_BlockID v = m"
    by (auto simp: maj_ok_def)
  have "\<exists>w. votes[i := Some v] ! j = Some w \<and> v_BlockID w = m" if "j < length votes" "bv_votes bv ! j \<noteq> None" for j
    using bv(4) [OF that] assms(2) [OF Some] that by (cases "j = i") auto
  with Some bv show ?thesis by (auto simp: maj_ok_def)
qed (use assms(1) in \<open>simp add: maj_ok_def\<close>)

lemma inv_setVote:
  assumes inv: "vset_inv E s" and i: "i < length (vset_votes s)"
    and slots: "slots_ok E (ctx s) ((vset_votes s)[i := Some vote]) ba t"
    and maj: "\<And>m. vset_maj23 s = Some m \<Longrightarrow> vset_votes s ! i = None \<or> v_BlockID vote = m"
  shows "vset_inv E (s\<lparr>vset_votes := (vset_votes s)[i := Some vote], vset_votesBitArray := ba, vset_sum := t\<rparr>)"
proof -
  have l: "length (vset_votes s) = length (x_vals (ctx s))" using inv by (simp add: vset_inv_def slots_ok_def)
  have b: "block_ok E (ctx s) (vset_votes s) key bv" if "vset_votesByBlock s key = Some bv" for key bv
    using inv that by (simp add: vset_inv_def)
  have "bv_votes bv ! i = None" if "vset_votesByBlock s key = Some bv" "vset_votes s ! i = None" for key bv
    using b [OF that(1)] that(2) i l by (cases "bv_votes bv ! i") (auto simp: block_ok_def slots_ok_def)
  with inv have "maj_ok (ctx s) ((vset_votes s)[i := Some vote]) (vset_votesByBlock s) (vset_maj23 s)"
    by (intro maj_ok_votes maj) (auto simp: vset_inv_def)
  then show ?thesis using inv slots b l by (auto simp: vset_inv_def intro: block_ok_votes)
qed

lemma recordVote_Ok:
  assumes inv: "vset_inv E s" and i: "i < length (vset_votes s)" and v: "good_vote E (ctx s) i vote"
    and new: "\<And>ex. vset_votes s ! i = Some ex \<Longrightarrow> v_BlockID ex \<noteq> v_BlockID vote"
  shows "\<exists>s'. recordVote s vote (bkey (v_BlockID vote)) (VotingPower (Validators (vset_valSet s) ! i)) =
      (Ok (s', vset_votes s ! i) :: ('e, _) res) \<and> vset_inv E s' \<and> ctx s' = ctx s \<and>
      vset_maj23 s' = vset_maj23 s \<and> vset_votesByBlock s' = vset_votesByBlock s \<and> vset_valSet s' = vset_valSet s \<and>
      length (vset_votes s') = length (vset_votes s) \<and> vset_votes s' ! i \<noteq> None \<and>
      vset_peerMaj23s s' = vset_peerMaj23s s \<and>
      vset_votes s' = (if vset_maj23 s = Some (v_BlockID vote) \<or> vset_votes s ! i = None then (vset_votes s)[i := Some vote] else vset_votes s)"
proof -
  let ?p = "VotingPower (Validators (vset_valSet s) ! i)"
  have idx: "v_ValidatorIndex vote = int i" "bid_ok (v_BlockID vote)" using v by (simp_all add: good_vote_def)
  have m: "bid_ok m" if "vset_maj23 s = Some m" for m using inv that by (simp add: vset_inv_def maj_ok_def)
  obtain ba where set: "setVote s vote = (Ok (s\<lparr>vset_votes := (vset_votes s)[i := Some vote], vset_votesBitArray := ba\<rparr>) :: ('e, _) res)"
    and slots: "slots_ok E (ctx s) ((vset_votes s)[i := Some vote]) ba
      (if vset_votes s ! i = None then wrap64 (vset_sum s + ?p) else vset_sum s)"
    using setVote_Ok [OF inv i v] by blast
  show ?thesis
  proof (cases "vset_votes s ! i")
    case None
    let ?s = "s\<lparr>vset_votes := (vset_votes s)[i := Some vote], vset_votesBitArray := ba, vset_sum := wrap64 (vset_sum s + ?p)\<rparr>"
    have "vset_inv E ?s" using slots None by (intro inv_setVote [OF inv i]) auto
    then show ?thesis using None i idx set by (intro exI [of _ ?s]) (simp add: recordVote_def)
  next
    case (Some ex)
    show ?thesis
    proof (cases "vset_maj23 s = Some (v_BlockID vote)")
      case True
      let ?s = "s\<lparr>vset_votes := (vset_votes s)[i := Some vote], vset_votesBitArray := ba, vset_sum := vset_sum s\<rparr>"
      have "vset_inv E ?s" using slots Some True by (intro inv_setVote [OF inv i]) auto
      then show ?thesis using Some i idx set True new [OF Some]
        by (intro exI [of _ ?s]) (simp add: recordVote_def bid_Equals_iff)
    next
      case False
      have "(case vset_maj23 s of None \<Rightarrow> Ok False | Some m \<Rightarrow> res_bind (bid_Key m) (\<lambda>key. Ok (key = bkey (v_BlockID vote)))) =
          (Ok False :: ('e, bool) res)"
        using False m idx(2) by (auto simp: bkey_inj split: option.splits)
      then show ?thesis using Some i idx inv False new [OF Some]
        by (intro exI [of _ s]) (simp add: recordVote_def bid_Equals_iff)
    qed
  qed
qed


lemma valset_ok_total [simp]: "valset_ok vals \<Longrightarrow> valset_ok (vals\<lparr>vs_total := powers (Validators vals)\<rparr>)"
  by (simp add: valset_ok_def total_ok_def)

lemma totalPower_eq:
  assumes "valset_ok (vset_valSet s)"
  shows "totalPower s = Ok (s\<lparr>vset_valSet := (vset_valSet s)\<lparr>vs_total := powers (Validators (vset_valSet s))\<rparr>\<rparr>,
    powers (Validators (vset_valSet s)))"
  using assms by (simp add: totalPower_def TotalVotingPower_eq valset_ok_def)

lemma quorum_eq:
  assumes "vals_ok vs"
  shows "wrap64 (wrap64 (powers vs * 2) sdiv 3 + 1) = 2 * powers vs div 3 + 1"
proof -
  have "0 \<le> powers vs" "powers vs \<le> MaxTotalVotingPower" using assms powers_nonneg by (auto simp: vals_ok_def)
  then have "is_int64 (2 * powers vs div 3 + 1)" by (auto simp: is_int64_def max_power int_limits)
  then show ?thesis by (simp add: two_thirds(1) [OF assms] wrap64_id)
qed

lemma new_block_ok:
  assumes "valset_ok (vset_valSet s)"
  shows "block_ok E (ctx s) votes key (newBlockVotes b (vs_Size (vset_valSet s)))"
proof -
  have "powerOf (Validators (vset_valSet s)) (\<lambda>i. replicate (length (Validators (vset_valSet s))) None ! i \<noteq> None) =
      powerOf (Validators (vset_valSet s)) (\<lambda>_. False)"
    by (rule powerOf_cong) simp
  then show ?thesis
    by (simp add: block_ok_def slots_ok_def newBlockVotes_def vs_Size_def NewBitArray_wf map_replicate_const)
qed

lemma quorum_pos: "vals_ok (x_vals c) \<Longrightarrow> 0 < quorumOf c"
  using powers_nonneg [of "x_vals c"] by (auto simp: quorumOf_def intro: add_nonneg_pos)

text \<open>A block that is not tracked yet can be tracked with no votes.\<close>

lemma inv_newBlock:
  assumes inv: "vset_inv E s" and new: "vset_votesByBlock s key = None"
  shows "vset_inv E (s\<lparr>vset_votesByBlock := (vset_votesByBlock s)(key \<mapsto> newBlockVotes b (vs_Size (vset_valSet s)))\<rparr>)"
proof -
  have vals: "valset_ok (vset_valSet s)" "vals_ok (x_vals (ctx s))" using inv by (simp_all add: vset_inv_def valset_ok_def)
  have "maj_ok (ctx s) (vset_votes s) ((vset_votesByBlock s)(key \<mapsto> newBlockVotes b (vs_Size (vset_valSet s)))) (vset_maj23 s)"
    using inv new quorum_pos [OF vals(2)]
    by (fastforce simp: vset_inv_def maj_ok_def newBlockVotes_def split: option.splits if_splits)
  with inv show ?thesis using new_block_ok [OF vals(1)] by (simp add: vset_inv_def)
qed

lemma trackBlock_inv:
  assumes inv: "vset_inv E s" and t: "trackBlock s key c = Some (s', bv)"
    and old: "\<And>bv. vset_votesByBlock s key = Some bv \<Longrightarrow> bv_votes bv ! i = None" and i: "i < length (vset_votes s)"
  shows "vset_inv E s' \<and> vset_votesByBlock s' key = Some bv \<and> bv_votes bv ! i = None \<and> ctx s' = ctx s \<and>
    vset_maj23 s' = vset_maj23 s \<and> vset_votes s' = vset_votes s \<and> vset_valSet s' = vset_valSet s \<and>
    vset_votesByBlock s' = (vset_votesByBlock s)(key \<mapsto> bv) \<and>
    (vset_votesByBlock s key = None \<longrightarrow> bv_votes bv = replicate (length (vset_votes s)) None)"
proof (cases "vset_votesByBlock s key")
  case None
  then have "s' = s\<lparr>vset_votesByBlock := (vset_votesByBlock s)(key \<mapsto> newBlockVotes False (vs_Size (vset_valSet s)))\<rparr>"
    "bv = newBlockVotes False (vs_Size (vset_valSet s))"
    using t by (auto simp: trackBlock_def Let_def split: if_splits)
  moreover have "length (vset_votes s) = length (Validators (vset_valSet s))" using inv by (simp add: vset_inv_def slots_ok_def)
  ultimately show ?thesis using inv_newBlock [OF inv None] i by (simp add: newBlockVotes_def vs_Size_def)
qed (use t inv old in \<open>auto simp: trackBlock_def split: if_splits\<close>)

lemma res_fold_copy:
  assumes "k + length new \<le> length votes"
  shows "res_fold (\<lambda>votes (i, v). case v of None \<Rightarrow> Ok votes
         | Some vote \<Rightarrow> if i < length votes then Ok (votes[i := Some vote]) else Panic ''index out of range'')
       votes (enumerate k new) =
     Ok (take k votes @ map2 (\<lambda>n v. if n = None then v else n) new (drop k votes) @ drop (k + length new) votes)"
  using assms
proof (induction new arbitrary: k votes)
  case (Cons n new)
  have d: "drop k votes = votes ! k # drop (Suc k) votes" using Cons.prems by (simp add: Cons_nth_drop_Suc)
  have t: "take (Suc k) (votes[k := x]) = take k votes @ [x]" for x
    using Cons.prems by (simp add: take_Suc_conv_app_nth)
  have t': "take (Suc k) votes = take k votes @ [votes ! k]" using Cons.prems by (simp add: take_Suc_conv_app_nth)
  show ?case using Cons.IH [of "Suc k" votes] Cons.IH [of "Suc k" "votes[k := n]"] Cons.prems
    by (cases n) (simp_all add: d t t')
qed simp

lemma copyVotes_eq:
  "length new = length votes \<Longrightarrow> copyVotes new votes = Ok (map2 (\<lambda>n v. if n = None then v else n) new votes)"
  unfolding copyVotes_def by (subst res_fold_copy) simp_all

lemma blockVotes_put:
  assumes ok: "block_ok E c votes (bkey (v_BlockID vote)) bv" and i: "i < length (x_vals c)" and v: "good_vote E c i vote"
    and vals: "vals_ok (x_vals c)" and new: "bv_votes bv ! i = None" and votes: "votes ! i \<noteq> None"
  shows "\<exists>bv'. blockVotes_addVerifiedVote bv vote (VotingPower (x_vals c ! i)) = (Ok bv' :: ('e, _) res) \<and>
    block_ok E c votes (bkey (v_BlockID vote)) bv' \<and> bv_votes bv' = (bv_votes bv)[i := Some vote] \<and> bv_sum bv \<le> bv_sum bv'"
proof -
  have s: "slots_ok E c (bv_votes bv) (bv_bitArray bv) (bv_sum bv)" "i < length (bv_votes bv)"
    using ok i by (simp_all add: block_ok_def slots_ok_def)
  obtain ba where ba: "SetIndex (bv_bitArray bv) (int i) True = (Ok (ba, True) :: ('e, _) res)"
    "slots_ok E c ((bv_votes bv)[i := Some vote]) ba (wrap64 (bv_sum bv + VotingPower (x_vals c ! i)))"
    using slots_put [OF s v vals] new by auto
  let ?bv = "bv\<lparr>bv_bitArray := ba, bv_votes := (bv_votes bv)[i := Some vote], bv_sum := wrap64 (bv_sum bv + VotingPower (x_vals c ! i))\<rparr>"
  have "blockVotes_addVerifiedVote bv vote (VotingPower (x_vals c ! i)) = (Ok ?bv :: ('e, _) res)"
    using ba(1) s(2) new v by (simp add: blockVotes_addVerifiedVote_def good_vote_def)
  moreover have "block_ok E c votes (bkey (v_BlockID vote)) ?bv"
    using ok ba(2) votes s(2) by (auto simp: block_ok_def nth_list_update split: if_splits)
  moreover have "powerOf (x_vals c) (\<lambda>i. bv_votes bv ! i \<noteq> None) \<le> powerOf (x_vals c) (\<lambda>j. (bv_votes bv)[i := Some vote] ! j \<noteq> None)"
    using s(2) new by (intro powerOf_mono [OF vals]) (auto simp: nth_list_update)
  then have "bv_sum bv \<le> bv_sum ?bv" using s(1) ba(2) by (simp add: slots_ok_def)
  ultimately show ?thesis by (intro exI [of _ ?bv]) simp
qed


lemma slots_copy:
  assumes "slots_ok E c votes ba n" "slots_ok E c new ba' n'" "\<And>i. i < length new \<Longrightarrow> new ! i \<noteq> None \<Longrightarrow> votes ! i \<noteq> None"
  shows "slots_ok E c (map2 (\<lambda>n v. if n = None then v else n) new votes) ba n"
proof -
  let ?w = "map2 (\<lambda>n v. if n = None then v else n) new votes"
  have l: "length new = length (x_vals c)" "length votes = length (x_vals c)" using assms by (simp_all add: slots_ok_def)
  then have w: "?w ! i = (if new ! i = None then votes ! i else new ! i)" if "i < length (x_vals c)" for i using that by simp
  have "powerOf (x_vals c) (\<lambda>i. ?w ! i \<noteq> None) = powerOf (x_vals c) (\<lambda>i. votes ! i \<noteq> None)"
    by (rule powerOf_cong) (use w assms(3) l in auto)
  moreover have "map (\<lambda>v. v \<noteq> None) ?w = map (\<lambda>v. v \<noteq> None) votes"
    by (rule nth_equalityI) (use w assms(3) l in auto)
  moreover have "good_vote E c i v" if "i < length (x_vals c)" "?w ! i = Some v" for i v
    using that w [OF that(1)] assms(1,2) l by (auto simp: slots_ok_def split: if_splits)
  ultimately show ?thesis using assms(1) l by (simp add: slots_ok_def)
qed

lemma inv_blocks:
  assumes inv: "vset_inv E s" and bv: "block_ok E (ctx s) (vset_votes s) key bv" and vals: "valset_ok vals" "Validators vals = Validators (vset_valSet s)"
    and maj: "maj_ok (ctx s) (vset_votes s) ((vset_votesByBlock s)(key \<mapsto> bv)) (vset_maj23 s)"
  shows "vset_inv E (s\<lparr>vset_valSet := vals, vset_votesByBlock := (vset_votesByBlock s)(key \<mapsto> bv)\<rparr>)"
proof -
  have "ctx (s\<lparr>vset_valSet := vals, vset_votesByBlock := k\<rparr>) = ctx s" for k by (simp add: ctx_def vals)
  with inv bv vals maj show ?thesis by (simp add: vset_inv_def)
qed

lemma countVote_inv:
  assumes inv: "vset_inv E s" and i: "i < length (vset_votes s)" and v: "good_vote E (ctx s) i vote"
    and bv: "vset_votesByBlock s (bkey (v_BlockID vote)) = Some bv" "bv_votes bv ! i = None" "vset_votes s ! i \<noteq> None"
    and maj: "vset_maj23 s = Some (v_BlockID vote) \<longrightarrow> vset_votes s ! i = Some vote"
  shows "\<exists>s'. countVote s vote (bkey (v_BlockID vote)) (VotingPower (Validators (vset_valSet s) ! i)) bv = (Ok s' :: ('e, _) res) \<and>
    vset_inv E s' \<and> ctx s' = ctx s \<and> (vset_maj23 s \<noteq> None \<longrightarrow> vset_maj23 s' = vset_maj23 s) \<and>
    (\<exists>bv'. vset_votesByBlock s' = (vset_votesByBlock s)(bkey (v_BlockID vote) \<mapsto> bv') \<and> bv_votes bv' = (bv_votes bv)[i := Some vote] \<and>
      vset_votes s' \<in> {vset_votes s, map2 (\<lambda>n v. if n = None then v else n) (bv_votes bv') (vset_votes s)})"
proof -
  let ?c = "ctx s" and ?k = "bkey (v_BlockID vote)" and ?vs = "Validators (vset_valSet s)"
  let ?vals = "(vset_valSet s)\<lparr>vs_total := powers ?vs\<rparr>"
  have vals: "valset_ok (vset_valSet s)" "vals_ok (x_vals ?c)" "valset_ok ?vals" using inv by (simp_all add: vset_inv_def valset_ok_def total_ok_def)
  have l: "length (vset_votes s) = length (x_vals ?c)" using inv by (simp add: vset_inv_def slots_ok_def)
  have ok: "block_ok E ?c (vset_votes s) ?k bv" using inv bv(1) by (simp add: vset_inv_def)
  obtain bv' where add: "blockVotes_addVerifiedVote bv vote (VotingPower (?vs ! i)) = (Ok bv' :: ('e, _) res)"
    and bv': "block_ok E ?c (vset_votes s) ?k bv'" "bv_votes bv' = (bv_votes bv)[i := Some vote]" "bv_sum bv \<le> bv_sum bv'"
    using blockVotes_put [OF ok _ v vals(2) bv(2,3)] i l by auto
  have q: "wrap64 (wrap64 (powers ?vs * 2) sdiv 3 + 1) = quorumOf ?c"
    using quorum_eq [of ?vs] vals(2) by (simp add: quorumOf_def)
  let ?s = "s\<lparr>vset_valSet := ?vals, vset_votesByBlock := (vset_votesByBlock s)(?k \<mapsto> bv')\<rparr>"
  let ?votes = "map2 (\<lambda>n v. if n = None then v else n) (bv_votes bv') (vset_votes s)"
  have l': "length (bv_votes bv') = length (vset_votes s)" using bv'(1) l by (simp add: block_ok_def slots_ok_def)
  have c: "ctx ?s = ?c" by (simp add: ctx_def)
  show ?thesis
  proof (cases "bv_sum bv < quorumOf ?c \<and> quorumOf ?c \<le> bv_sum bv' \<and> vset_maj23 s = None")
    case True
    let ?t = "?s\<lparr>vset_maj23 := Some (v_BlockID vote), vset_votes := ?votes\<rparr>"
    have "countVote s vote ?k (VotingPower (?vs ! i)) bv = (Ok ?t :: ('e, _) res)"
      using True add l' by (simp add: countVote_def totalPower_eq [OF vals(1)] q copyVotes_eq Let_def)
    moreover have "vset_inv E ?t"
    proof -
      have nth: "?votes ! j = (if bv_votes bv' ! j = None then vset_votes s ! j else bv_votes bv' ! j)" if "j < length (x_vals ?c)" for j
        using that l l' by simp
      have some: "bv_votes bv' ! j = Some w \<Longrightarrow> vset_votes s ! j \<noteq> None \<and> v_BlockID w = v_BlockID vote" if "j < length (x_vals ?c)" for j w
        using bv'(1) that l l' good_vote_simps(2) [OF v] by (auto simp: block_ok_def slots_ok_def good_vote_def bkey_inj)
      have slots: "slots_ok E ?c ?votes (vset_votesBitArray s) (vset_sum s)"
        using inv bv'(1) l l' some by (intro slots_copy) (auto simp: vset_inv_def block_ok_def)
      have "block_ok E ?c ?votes key b" if "block_ok E ?c (vset_votes s) key b" for key b
        using that l l' nth by (auto simp: block_ok_def slots_ok_def)
      moreover have "maj_ok ?c ?votes ((vset_votesByBlock s)(?k \<mapsto> bv')) (Some (v_BlockID vote))"
      proof -
        have "\<exists>w. ?votes ! j = Some w \<and> v_BlockID w = v_BlockID vote" if "j < length ?votes" "bv_votes bv' ! j \<noteq> None" for j
          using that l l' some [of j] nth [of j] by auto
        then show ?thesis
          unfolding maj_ok_def option.case using True good_vote_simps(2) [OF v] by (intro conjI exI [of _ bv']) simp_all
      qed
      ultimately show ?thesis using inv bv'(1) slots c vals(3) by (auto simp: vset_inv_def)
    qed
    ultimately show ?thesis using True c bv'(2) by (intro exI [of _ ?t]) (auto intro!: exI [of _ bv'])
  next
    case False
    have "maj_ok ?c (vset_votes s) ((vset_votesByBlock s)(?k \<mapsto> bv')) (vset_maj23 s)"
    proof (cases "vset_maj23 s")
      case None
      then have "bv_sum bv < quorumOf ?c" using inv bv(1) by (auto simp: vset_inv_def maj_ok_def)
      with None False inv show ?thesis by (auto simp: vset_inv_def maj_ok_def)
    next
      case (Some m)
      then have m: "bid_ok m" "maj_ok ?c (vset_votes s) (vset_votesByBlock s) (Some m)"
        using inv by (auto simp: vset_inv_def maj_ok_def)
      show ?thesis
      proof (cases "m = v_BlockID vote")
        case True
        have "\<exists>w. vset_votes s ! j = Some w \<and> v_BlockID w = m" if "j < length (vset_votes s)" "bv_votes bv' ! j \<noteq> None" for j
          using m(2) bv(1) True that maj Some bv'(2) by (cases "j = i") (auto simp: maj_ok_def)
        with m True Some bv(1) bv'(3) show ?thesis by (auto simp: maj_ok_def)
      next
        case False
        then have "bkey m \<noteq> ?k" using m(1) good_vote_simps(2) [OF v] by (simp add: bkey_inj)
        with m Some show ?thesis by (simp add: maj_ok_def)
      qed
    qed
    then have "vset_inv E ?s" using inv_blocks [OF inv bv'(1) vals(3)] by simp
    moreover have "countVote s vote ?k (VotingPower (?vs ! i)) bv = (Ok ?s :: ('e, _) res)"
      using False add by (auto simp: countVote_def totalPower_eq [OF vals(1)] q Let_def)
    ultimately show ?thesis using c bv'(2) by (intro exI [of _ ?s]) (auto intro!: exI [of _ bv'])
  qed
qed


text \<open>A vote that is not known yet and verifies is recorded without panic.\<close>

lemma addVerifiedVote_inv:
  assumes inv: "vset_inv E s" and i: "i < length (vset_votes s)" and v: "good_vote E (ctx s) i vote"
    and new: "\<And>ex. vset_votes s ! i = Some ex \<Longrightarrow> v_BlockID ex \<noteq> v_BlockID vote"
      "\<And>bv. vset_votesByBlock s (bkey (v_BlockID vote)) = Some bv \<Longrightarrow> bv_votes bv ! i = None"
  shows "\<exists>s' added. VoteSet_addVerifiedVote s vote (bkey (v_BlockID vote)) (VotingPower (Validators (vset_valSet s) ! i)) =
      (Ok (s', added, vset_votes s ! i) :: ('e, _) res) \<and> vset_inv E s' \<and> ctx s' = ctx s \<and>
      (vset_maj23 s \<noteq> None \<longrightarrow> vset_maj23 s' = vset_maj23 s) \<and> (vset_votes s ! i = None \<longrightarrow> added)"
proof -
  let ?k = "bkey (v_BlockID vote)" and ?p = "VotingPower (Validators (vset_valSet s) ! i)" and ?old = "vset_votes s ! i"
  obtain s1 where rec: "recordVote s vote ?k ?p = (Ok (s1, ?old) :: ('e, _) res)"
    and s1: "vset_inv E s1" "ctx s1 = ctx s" "vset_maj23 s1 = vset_maj23 s" "vset_votesByBlock s1 = vset_votesByBlock s"
      "vset_valSet s1 = vset_valSet s" "length (vset_votes s1) = length (vset_votes s)" "vset_votes s1 ! i \<noteq> None"
      "vset_votes s1 = (if vset_maj23 s = Some (v_BlockID vote) \<or> ?old = None then (vset_votes s)[i := Some vote] else vset_votes s)"
    using recordVote_Ok [OF inv i v, where 'e = 'e] new(1) by metis
  show ?thesis
  proof (cases "trackBlock s1 ?k ?old")
    case None
    then have "?old \<noteq> None" by (auto simp: trackBlock_def Let_def split: option.splits if_splits)
    moreover have "VoteSet_addVerifiedVote s vote ?k ?p = (Ok (s1, False, ?old) :: ('e, _) res)"
      by (simp add: VoteSet_addVerifiedVote_def rec None)
    ultimately show ?thesis using s1(1-3) by (intro exI [of _ s1] exI [of _ False]) simp
  next
    case (Some r)
    obtain s2 bv where r: "r = (s2, bv)" by (cases r)
    have t: "vset_inv E s2" "vset_votesByBlock s2 ?k = Some bv" "bv_votes bv ! i = None" "ctx s2 = ctx s1"
      "vset_maj23 s2 = vset_maj23 s1" "vset_votes s2 = vset_votes s1" "vset_valSet s2 = vset_valSet s1"
      using trackBlock_inv [OF s1(1) Some [unfolded r], of i] new(2) s1(4,6) i by simp_all
    obtain s3 where "countVote s2 vote ?k ?p bv = (Ok s3 :: ('e, _) res)" "vset_inv E s3" "ctx s3 = ctx s2"
      "vset_maj23 s2 \<noteq> None \<longrightarrow> vset_maj23 s3 = vset_maj23 s2"
    proof -
      have "i < length (vset_votes s2)" "good_vote E (ctx s2) i vote" "vset_votes s2 ! i \<noteq> None"
        "vset_maj23 s2 = Some (v_BlockID vote) \<longrightarrow> vset_votes s2 ! i = Some vote"
        unfolding t(4-6) s1(2,3,6) using i v s1(7,8) by simp_all
      from countVote_inv [OF t(1) this(1,2) t(2,3) this(3,4), where 'e = 'e] that show thesis using t(7) s1(5) by auto
    qed
    then show ?thesis using rec Some r s1 t by (auto simp: VoteSet_addVerifiedVote_def)
  qed
qed

lemma getVote_Ok:
  assumes inv: "vset_inv E s" and i: "i < length (vset_votes s)" and b: "bid_ok b"
  shows "VoteSet_getVote s (int i) (bkey b) =
    Ok (case vset_votes s ! i of
          Some ex \<Rightarrow> if v_BlockID ex = b then Some ex else Option.bind (vset_votesByBlock s (bkey b)) (\<lambda>bv. bv_votes bv ! i)
        | None \<Rightarrow> Option.bind (vset_votesByBlock s (bkey b)) (\<lambda>bv. bv_votes bv ! i))"
proof -
  have "i < length (bv_votes bv)" if "vset_votesByBlock s (bkey b) = Some bv" for bv
    using inv i that by (auto simp: vset_inv_def block_ok_def slots_ok_def)
  moreover have "bid_ok (v_BlockID ex)" if "vset_votes s ! i = Some ex" for ex
    using inv i that by (auto simp: vset_inv_def slots_ok_def good_vote_def)
  ultimately show ?thesis using i b
    by (auto simp: VoteSet_getVote_def blockVotes_getByIndex_def bkey_inj split: option.splits)
qed

text \<open>The messages a vote set is given: votes that are valid on their own, with a time that can be encoded.\<close>

definition vote_msg_ok :: "env \<Rightarrow> Vote \<Rightarrow> bool" where
  "vote_msg_ok E v \<longleftrightarrow> Vote_ValidateBasic v = Ok () \<and> StdTimeMarshal E (v_Timestamp v) \<noteq> None"

lemma Vote_Verify_no_panic:
  assumes "vote_msg_ok E v" "wf_key k"
  shows "\<not> is_panic (Vote_Verify E c k v)"
proof -
  obtain a where a: "PubKey_Address E k = (Ok a :: (vote_error, _) res)" using PubKey_Address_Ok [OF assms(2)] by blast
  have "bid_ValidateBasic (v_BlockID v) = Ok ()"
    using assms(1) Vote_ValidateBasic_Ok(4) bid_zero_or_complete_valid by (auto simp: vote_msg_ok_def)
  then obtain sb where "VoteSignBytes E c v = (Ok sb :: (vote_error, _) res)"
    using VoteSignBytes_total [of v E c] assms(1) unfolding vote_msg_ok_def by blast
  then show ?thesis by (simp add: Vote_Verify_def a)
qed

lemma addVote_inv:
  assumes inv: "vset_inv E s" and msg: "vote_msg_ok E vote"
  shows "\<exists>s' added err. VoteSet_addVote E s (Some vote) = (Ok (s', added, err) :: ('e, _) res) \<and> vset_inv E s' \<and> ctx s' = ctx s \<and>
    (vset_maj23 s \<noteq> None \<longrightarrow> vset_maj23 s' = vset_maj23 s)"
proof -
  let ?k = "bkey (v_BlockID vote)" and ?vs = "Validators (vset_valSet s)"
  have b: "bid_ok (v_BlockID vote)" using msg Vote_ValidateBasic_Ok(4) by (auto simp: vote_msg_ok_def bid_ok_def)
  define i where "i = nat (v_ValidatorIndex vote)"
  have l: "length (vset_votes s) = length ?vs" using inv by (simp add: vset_inv_def slots_ok_def)
  define fails where "fails \<longleftrightarrow> v_ValidatorIndex vote < 0 \<or> length (v_ValidatorAddress vote) = 0 \<or> v_Height vote \<noteq> vset_height s \<or>
    v_Round vote \<noteq> vset_round s \<or> v_Type vote \<noteq> vset_signedMsgType s \<or> int (length ?vs) \<le> v_ValidatorIndex vote \<or>
    v_ValidatorAddress vote \<noteq> val_Address (?vs ! i)"
  show ?thesis
  proof (cases fails)
    case True
    then have "\<exists>e. VoteSet_addVote E s (Some vote) = (Ok (s, False, Some (VoteError e)) :: ('e, _) res)"
      by (auto simp: VoteSet_addVote_def fails_def Let_def GetByIndex_def i_def)
    with inv show ?thesis by auto
  next
    case False
    then have idx: "v_ValidatorIndex vote = int i" "i < length (vset_votes s)" and get: "GetByIndex ?vs (int i) = Some (val_Address (?vs ! i), ?vs ! i)"
      using l by (auto simp: fails_def i_def GetByIndex_def Let_def)
    have wf: "wf_key (val_PubKey (?vs ! i))" using inv idx l by (auto simp: vset_inv_def valset_ok_def)
    define ex where "ex = (case vset_votes s ! i of
          Some ex \<Rightarrow> if v_BlockID ex = v_BlockID vote then Some ex else Option.bind (vset_votesByBlock s ?k) (\<lambda>bv. bv_votes bv ! i)
        | None \<Rightarrow> Option.bind (vset_votesByBlock s ?k) (\<lambda>bv. bv_votes bv ! i))"
    have getVote: "VoteSet_getVote s (int i) ?k = (Ok ex :: ('e, _) res)"
      unfolding ex_def by (rule getVote_Ok [OF inv idx(2) b])
    have eq: "(VoteSet_addVote E s (Some vote) :: ('e, add_result) res) =
        (case ex of
           Some old \<Rightarrow> if v_Signature old = v_Signature vote then Ok (s, False, None)
                      else Ok (s, False, Some (VoteError ErrVoteNonDeterministicSignature))
         | None \<Rightarrow>
             (case Vote_Verify E (vset_chainID s) (val_PubKey (?vs ! i)) vote of
                Err e \<Rightarrow> Ok (s, False, Some (VoteError e))
              | Panic p \<Rightarrow> Panic p
              | Ok _ \<Rightarrow>
                  res_bind (VoteSet_addVerifiedVote s vote ?k (VotingPower (?vs ! i))) (\<lambda>(s, added, conflicting).
                    case conflicting of
                      Some c \<Rightarrow> Ok (s, added, Some (NewConflictingVoteError c vote))
                    | None \<Rightarrow> if \<not> added then Panic ''Expected to add non-conflicting vote'' else Ok (s, added, None))))"
    proof -
      have "val_Address (?vs ! i) \<noteq> []" using False by (auto simp: fails_def)
      then show ?thesis using False by (simp add: VoteSet_addVote_def fails_def idx get getVote Let_def)
    qed
    show ?thesis
    proof (cases "ex = None \<and> Vote_Verify E (vset_chainID s) (val_PubKey (?vs ! i)) vote = Ok ()")
      case True
      then have g: "good_vote E (ctx s) i vote" using False idx b by (simp add: good_vote_def ctx_def fails_def)
      have new: "vset_votes s ! i = Some ex \<Longrightarrow> v_BlockID ex \<noteq> v_BlockID vote"
        "vset_votesByBlock s ?k = Some bv \<Longrightarrow> bv_votes bv ! i = None" for ex bv
        using True by (auto simp: ex_def split: option.splits if_splits)
      obtain s' added where add: "VoteSet_addVerifiedVote s vote ?k (VotingPower (?vs ! i)) = (Ok (s', added, vset_votes s ! i) :: ('e, _) res)"
        and s': "vset_inv E s'" "ctx s' = ctx s" "vset_maj23 s \<noteq> None \<longrightarrow> vset_maj23 s' = vset_maj23 s" "vset_votes s ! i = None \<longrightarrow> added"
        using addVerifiedVote_inv [OF inv idx(2) g, where 'e = 'e] new by metis
      show ?thesis
        using s' unfolding eq conjunct1 [OF True] conjunct2 [OF True] add option.case res.case res_bind.simps prod.case
        by (cases "vset_votes s ! i") auto
    next
      case no: False
      have "\<exists>err. VoteSet_addVote E s (Some vote) = (Ok (s, False, err) :: ('e, _) res)"
      proof (cases ex)
        case None
        with no Vote_Verify_no_panic [OF msg wf, of "vset_chainID s"] show ?thesis
          unfolding eq None option.case by (cases "Vote_Verify E (vset_chainID s) (val_PubKey (?vs ! i)) vote") auto
      next
        case (Some old)
        then show ?thesis unfolding eq Some option.case by auto
      qed
      with inv show ?thesis by auto
    qed
  qed
qed


lemma SetPeerMaj23_inv:
  assumes inv: "vset_inv E s"
  shows "\<exists>s' err. VoteSet_SetPeerMaj23 (Some s) peer b = (Ok (s', err) :: ('e, _) res) \<and> vset_inv E s' \<and> ctx s' = ctx s \<and>
    vset_maj23 s' = vset_maj23 s \<and> vset_votes s' = vset_votes s \<and> vset_sum s' = vset_sum s"
proof (cases "vset_peerMaj23s s peer")
  case None
  let ?p = "(vset_peerMaj23s s)(peer \<mapsto> b)"
  let ?s = "\<lambda>bv. s\<lparr>vset_votesByBlock := (vset_votesByBlock s)(bkey b \<mapsto> bv)\<rparr>"
  have peers: "vset_inv E (t\<lparr>vset_peerMaj23s := p\<rparr>) = vset_inv E t"
    "vset_inv E (t\<lparr>vset_peerMaj23s := p, vset_votesByBlock := k\<rparr>) = vset_inv E (t\<lparr>vset_votesByBlock := k\<rparr>)" for t p k
    by (simp_all add: vset_inv_def)
  show ?thesis
  proof (cases "vset_votesByBlock s (bkey b)")
    case new: None
    from inv_newBlock [OF inv new, of True] show ?thesis
      using None new by (simp add: VoteSet_SetPeerMaj23_def Let_def peers)
  next
    case (Some bv)
    have "block_ok E (ctx s) (vset_votes s) (bkey b) (bv\<lparr>bv_peerMaj23 := True\<rparr>)"
      using inv Some by (auto simp: vset_inv_def block_ok_def)
    moreover have "maj_ok (ctx s) (vset_votes s) ((vset_votesByBlock s)(bkey b \<mapsto> bv\<lparr>bv_peerMaj23 := True\<rparr>)) (vset_maj23 s)"
      using inv Some by (auto simp: vset_inv_def maj_ok_def split: option.splits)
    ultimately have "vset_inv E (?s (bv\<lparr>bv_peerMaj23 := True\<rparr>))"
      using inv_blocks [OF inv, of "bkey b" "bv\<lparr>bv_peerMaj23 := True\<rparr>" "vset_valSet s"] inv by (simp add: vset_inv_def)
    then show ?thesis using None Some inv by (simp add: VoteSet_SetPeerMaj23_def Let_def peers)
  qed
qed (use inv in \<open>simp add: VoteSet_SetPeerMaj23_def\<close>)

lemma NewVoteSet_inv:
  assumes "valset_ok vals" "height \<noteq> 0"
  shows "\<exists>s. NewVoteSet chainID height round type vals = (Ok s :: ('e, _) res) \<and> vset_inv E s \<and> vset_maj23 s = None \<and>
    ctx s = \<lparr>x_chainID = chainID, x_height = height, x_round = round, x_type = type, x_vals = Validators vals\<rparr>"
proof -
  have p: "powerOf (Validators vals) (\<lambda>i. replicate (length (Validators vals)) None ! i \<noteq> None) = powerOf (Validators vals) (\<lambda>_. False)"
    by (rule powerOf_cong) simp
  show ?thesis using assms p
    by (auto simp: NewVoteSet_def vset_inv_def slots_ok_def maj_ok_def ctx_def vs_Size_def NewBitArray_wf map_replicate_const)
qed

section \<open>Runs\<close>

text \<open>
  The operations a vote set receives from the network: a vote, which the reactor has validated, and
  the claim of a peer. The errors go to the sender and do not end the run.
\<close>

datatype vset_op = Deliver Vote | PeerMaj23 bytes BlockID

definition vset_step :: "env \<Rightarrow> VoteSet \<Rightarrow> vset_op \<Rightarrow> (voteset_error, VoteSet) res" where
  "vset_step E s op =
     (case op of
        Deliver vote \<Rightarrow>
          if vote_msg_ok E vote then res_bind (VoteSet_AddVote E (Some s) (Some vote)) (\<lambda>(s, _). Ok s) else Ok s
      | PeerMaj23 peer b \<Rightarrow> res_bind (VoteSet_SetPeerMaj23 (Some s) peer b) (\<lambda>(s, _). Ok s))"

lemma vset_step_Ok:
  assumes "vset_inv E s"
  shows "\<exists>s'. vset_step E s op = Ok s' \<and> vset_inv E s' \<and> ctx s' = ctx s \<and> (vset_maj23 s \<noteq> None \<longrightarrow> vset_maj23 s' = vset_maj23 s)"
proof (cases op)
  case (Deliver vote)
  then show ?thesis using addVote_inv [OF assms, of vote, where 'e = voteset_error] assms
    by (cases "vote_msg_ok E vote") (auto simp: vset_step_def VoteSet_AddVote_def)
next
  case (PeerMaj23 peer b)
  then show ?thesis using SetPeerMaj23_inv [OF assms, of peer b, where 'e = voteset_error] by (auto simp: vset_step_def)
qed

interpretation vset: safe_machine "vset_step E" "\<lambda>s. vset_inv E s \<and> ctx s = c \<and> (m \<noteq> None \<longrightarrow> vset_maj23 s = m)"
proof unfold_locales
  fix s s' op
  assume "vset_inv E s \<and> ctx s = c \<and> (m \<noteq> None \<longrightarrow> vset_maj23 s = m)"
  with vset_step_Ok [of E s op]
  show "vset_step E s op = Ok s' \<Longrightarrow> vset_inv E s' \<and> ctx s' = c \<and> (m \<noteq> None \<longrightarrow> vset_maj23 s' = m)" "\<not> is_panic (vset_step E s op)"
    by auto
qed

lemma maj_signed:
  assumes inv: "vset_inv E s" and m: "vset_maj23 s = Some b"
  shows "2 * powers (Validators (vset_valSet s)) <
    3 * powerOf (Validators (vset_valSet s)) (\<lambda>i. \<exists>v. vset_votes s ! i = Some v \<and> v_BlockID v = b \<and> good_vote E (ctx s) i v)"
    (is "_ < 3 * ?p")
proof -
  have vals: "vals_ok (x_vals (ctx s))" using inv by (simp add: vset_inv_def valset_ok_def)
  obtain bv where bv: "vset_votesByBlock s (bkey b) = Some bv" "quorumOf (ctx s) \<le> bv_sum bv"
    "\<And>i. i < length (vset_votes s) \<Longrightarrow> bv_votes bv ! i \<noteq> None \<Longrightarrow> \<exists>v. vset_votes s ! i = Some v \<and> v_BlockID v = b"
    using inv m by (auto simp: vset_inv_def maj_ok_def)
  have slots: "slots_ok E (ctx s) (vset_votes s) (vset_votesBitArray s) (vset_sum s)" using inv by (simp add: vset_inv_def)
  have "bv_sum bv = powerOf (x_vals (ctx s)) (\<lambda>i. bv_votes bv ! i \<noteq> None)"
    using inv bv(1) by (simp add: vset_inv_def block_ok_def slots_ok_def)
  also have "\<dots> \<le> powerOf (x_vals (ctx s)) (\<lambda>i. \<exists>v. vset_votes s ! i = Some v \<and> v_BlockID v = b \<and> good_vote E (ctx s) i v)"
    using bv(3) slots by (intro powerOf_mono [OF vals]) (fastforce simp: slots_ok_def)
  finally have "quorumOf (ctx s) \<le> ?p" using bv(2) by simp
  moreover have "2 * powers (Validators (vset_valSet s)) < 3 * quorumOf (ctx s)" by (simp add: quorumOf_def)
  ultimately show ?thesis by linarith
qed

lemma vset_run:
  assumes "vset_inv E s"
  shows "\<exists>s'. res_fold (vset_step E) s ops = Ok s' \<and> vset_inv E s' \<and> ctx s' = ctx s \<and> (vset_maj23 s \<noteq> None \<longrightarrow> vset_maj23 s' = vset_maj23 s)"
proof -
  have "\<exists>s'. res_fold (vset_step E) s ops = Ok s'" using assms
  proof (induction ops arbitrary: s)
    case (Cons op ops)
    from vset_step_Ok [OF Cons.prems, of op] Cons.IH show ?case by auto
  qed simp
  then show ?thesis using vset.run_inv [of E s "ctx s" "vset_maj23 s" ops] assms by auto
qed

lemma TwoThirdsMajority_iff: "TwoThirdsMajority (Some s) = (b, True) \<longleftrightarrow> vset_maj23 s = Some b"
  by (auto simp: TwoThirdsMajority_def split: option.splits)

lemma new_run:
  assumes "valset_ok vals" "res_bind (NewVoteSet chainID height round type vals) (\<lambda>s. res_fold (vset_step E) s ops) = Ok s"
  shows "vset_inv E s"
    "ctx s = \<lparr>x_chainID = chainID, x_height = height, x_round = round, x_type = type, x_vals = Validators vals\<rparr>"
proof -
  have "height \<noteq> 0" using assms(2) by (auto simp: NewVoteSet_def)
  then obtain s0 where s0: "NewVoteSet chainID height round type vals = (Ok s0 :: (voteset_error, _) res)" "vset_inv E s0"
    "ctx s0 = \<lparr>x_chainID = chainID, x_height = height, x_round = round, x_type = type, x_vals = Validators vals\<rparr>"
    using NewVoteSet_inv [OF assms(1), of height chainID round type E] by blast
  from vset_run [OF s0(2), of ops] assms(2) s0(1,3)
  show "vset_inv E s" "ctx s = \<lparr>x_chainID = chainID, x_height = height, x_round = round, x_type = type, x_vals = Validators vals\<rparr>"
    by auto
qed

lemma run_majority:
  assumes "valset_ok vals" "res_bind (NewVoteSet chainID height round type vals) (\<lambda>s. res_fold (vset_step E) s ops) = Ok s"
    and "TwoThirdsMajority (Some s) = (b, True)"
  shows "2 * powers (Validators vals) < 3 * powerOf (Validators vals) (\<lambda>i. \<exists>v. v_BlockID v = b \<and>
    good_vote E \<lparr>x_chainID = chainID, x_height = height, x_round = round, x_type = type, x_vals = Validators vals\<rparr> i v)"
proof -
  note s = new_run [OF assms(1,2)]
  then have v: "Validators (vset_valSet s) = Validators vals" using ctx_simps(1) [of s] by simp
  have "powerOf (Validators vals) (\<lambda>i. \<exists>v. vset_votes s ! i = Some v \<and> v_BlockID v = b \<and> good_vote E (ctx s) i v) \<le>
      powerOf (Validators vals) (\<lambda>i. \<exists>v. v_BlockID v = b \<and> good_vote E (ctx s) i v)"
    using assms(1) by (intro powerOf_mono) (auto simp: valset_ok_def)
  with maj_signed [OF s(1), of b] assms(3) s(2) v show ?thesis by (simp add: TwoThirdsMajority_iff)
qed

section \<open>Properties\<close>

text \<open>A validator with all the power, and its vote, for the witnesses.\<close>

definition voter_key :: bytes where "voter_key = replicate 32 7"

definition voter :: Validator where
  "voter = \<lparr>val_Address = replicate 20 7, val_PubKey = Ed25519 voter_key, VotingPower = 10, ProposerPriority = 0\<rparr>"

definition voter_set :: ValidatorSet where
  "voter_set = \<lparr>Validators = [voter], Proposer = None, vs_total = 0\<rparr>"

definition voter_vote :: "int32 \<Rightarrow> BlockID \<Rightarrow> Vote" where
  "voter_vote type b =
     (let v = \<lparr>v_Type = type, v_Height = 5, v_Round = 0, v_BlockID = b, v_Timestamp = 100,
           v_ValidatorAddress = replicate 20 7, v_ValidatorIndex = 0, v_Signature = []\<rparr>
      in v\<lparr>v_Signature := sample_sig voter_key (case (VoteSignBytes sample_env [] v :: (vote_error, bytes) res) of Ok sb \<Rightarrow> sb | _ \<Rightarrow> [])\<rparr>)"

definition voter_block :: BlockID where "voter_block = v_BlockID sample_vote"

definition voted :: "VoteSet" where
  "voted = (case NewVoteSet [] 5 0 PrecommitType voter_set of Ok s \<Rightarrow>
      (case res_fold (vset_step sample_env) s [Deliver (voter_vote PrecommitType voter_block)] of Ok s' \<Rightarrow> s' | _ \<Rightarrow> s)
    | (_ :: (voteset_error, VoteSet) res) \<Rightarrow> undefined)"

lemma voter_set_ok: "valset_ok voter_set"
  by code_simp

lemma voted_majority: "TwoThirdsMajority (Some voted) = (voter_block, True)"
  by code_simp

lemma new_vote_run:
  "\<exists>s s'. NewVoteSet [] 5 0 PrecommitType voter_set = (Ok s :: (voteset_error, _) res) \<and> res_fold (vset_step sample_env) s ops = Ok s'"
proof -
  obtain s where s: "NewVoteSet [] 5 0 PrecommitType voter_set = (Ok s :: (voteset_error, _) res)" "vset_inv sample_env s"
    using NewVoteSet_inv [OF voter_set_ok, of 5 "[]" 0 PrecommitType sample_env] by auto
  with vset_run [OF s(2), of ops] show ?thesis by auto
qed

lemma voted_run:
  "res_bind (NewVoteSet [] 5 0 PrecommitType voter_set) (\<lambda>s. res_fold (vset_step sample_env) s [Deliver (voter_vote PrecommitType voter_block)]) = Ok voted"
  using new_vote_run [of "[Deliver (voter_vote PrecommitType voter_block)]"] by (auto simp: voted_def simp del: res_fold.simps)

text \<open>
  C3: Whatever votes and claims of peers a new vote set is given, in any order, it does not panic and
  keeps its invariant: every vote kept is verified and of the validator at its index, the bit arrays
  and sums agree with the votes, overall and per block, and a block has the majority exactly if
  its votes reach the quorum.
\<close>

theorem vote_set_invariant:
  assumes "valset_ok vals" "height \<noteq> 0"
  shows "\<exists>s. res_bind (NewVoteSet chainID height round type vals) (\<lambda>s. res_fold (vset_step E) s ops) = Ok s \<and> vset_inv E s"
proof -
  obtain s where s: "NewVoteSet chainID height round type vals = (Ok s :: (voteset_error, _) res)" "vset_inv E s"
    using NewVoteSet_inv [OF assms, of chainID round type E] by blast
  then show ?thesis using vset_run [OF s(2), of ops] by auto
qed

theorem vote_set_invariant_witness:
  "\<exists>s. res_bind (NewVoteSet [] 5 0 PrecommitType voter_set)
     (\<lambda>s. res_fold (vset_step sample_env) s [Deliver (voter_vote PrecommitType voter_block), PeerMaj23 [1] voter_block]) = Ok s \<and> vset_inv sample_env s"
  by (rule vote_set_invariant [OF voter_set_ok]) simp

text \<open>
  C2: A vote set reports a majority for a block only if validators with more than two thirds of
  the voting power have each signed a vote for exactly this chain, height, round, type and block.
\<close>

theorem majority_is_signed:
  assumes "valset_ok vals" "res_bind (NewVoteSet chainID height round type vals) (\<lambda>s. res_fold (vset_step E) s ops) = Ok s"
    and "TwoThirdsMajority (Some s) = (b, True)"
  shows "2 * powers (Validators vals) < 3 * powerOf (Validators vals) (\<lambda>i. \<exists>v. v_BlockID v = b \<and>
    good_vote E \<lparr>x_chainID = chainID, x_height = height, x_round = round, x_type = type, x_vals = Validators vals\<rparr> i v)"
  using assms by (rule run_majority)

theorem majority_is_signed_witness:
  "2 * powers (Validators voter_set) < 3 * powerOf (Validators voter_set) (\<lambda>i. \<exists>v. v_BlockID v = voter_block \<and>
    good_vote sample_env \<lparr>x_chainID = [], x_height = 5, x_round = 0, x_type = PrecommitType, x_vals = Validators voter_set\<rparr> i v)"
  by (rule majority_is_signed [OF voter_set_ok voted_run voted_majority])

text \<open>
  C10: The majority is final: once a vote set reports it, it reports it after whatever else it is given.
\<close>

theorem majority_is_final:
  assumes "valset_ok vals" "res_bind (NewVoteSet chainID height round type vals) (\<lambda>s. res_fold (vset_step E) s ops) = Ok s"
    and "TwoThirdsMajority (Some s) = (b, True)"
  shows "\<exists>s'. res_fold (vset_step E) s ops' = Ok s' \<and> TwoThirdsMajority (Some s') = (b, True)"
  using vset_run [OF new_run(1) [OF assms(1,2)], of ops'] assms(3) by (auto simp: TwoThirdsMajority_iff)

theorem majority_is_final_witness:
  "\<exists>s'. res_fold (vset_step sample_env) voted [Deliver (voter_vote PrecommitType bid_zero), PeerMaj23 [1] bid_zero] = Ok s' \<and>
    TwoThirdsMajority (Some s') = (voter_block, True)"
  by (rule majority_is_final [OF voter_set_ok voted_run voted_majority])

text \<open>
  C4: Accountability: if two vote sets of the same chain, height, round, type and validators report
  majorities for different blocks, then validators with more than a third of the voting power have
  signed votes for both blocks.
\<close>

theorem conflicting_majorities:
  assumes "valset_ok vals" "res_bind (NewVoteSet chainID height round type vals) (\<lambda>s. res_fold (vset_step E) s ops) = Ok s"
    and "res_bind (NewVoteSet chainID height round type vals) (\<lambda>s. res_fold (vset_step E) s ops') = Ok s'"
    and "TwoThirdsMajority (Some s) = (b, True)" "TwoThirdsMajority (Some s') = (b', True)" "b \<noteq> b'"
  shows "powers (Validators vals) < 3 * powerOf (Validators vals) (\<lambda>i. \<exists>v v'. v_BlockID v = b \<and> v_BlockID v' = b' \<and>
    good_vote E \<lparr>x_chainID = chainID, x_height = height, x_round = round, x_type = type, x_vals = Validators vals\<rparr> i v \<and>
    good_vote E \<lparr>x_chainID = chainID, x_height = height, x_round = round, x_type = type, x_vals = Validators vals\<rparr> i v')"
    (is "_ < 3 * powerOf _ (\<lambda>i. \<exists>v v'. _ v \<and> _ v' \<and> ?good i v \<and> ?good i v')")
proof -
  let ?P = "\<lambda>b i. \<exists>v. v_BlockID v = b \<and> ?good i v"
  have "vals_ok (Validators vals)" using assms(1) by (simp add: valset_ok_def)
  from powerOf_overlap [OF this, of "?P b" "?P b'"] run_majority [OF assms(1,2,4)] run_majority [OF assms(1,3,5)]
  have "powers (Validators vals) < 3 * powerOf (Validators vals) (\<lambda>i. ?P b i \<and> ?P b' i)" by linarith
  moreover have "powerOf (Validators vals) (\<lambda>i. ?P b i \<and> ?P b' i) =
      powerOf (Validators vals) (\<lambda>i. \<exists>v v'. v_BlockID v = b \<and> v_BlockID v' = b' \<and> ?good i v \<and> ?good i v')"
    by (rule powerOf_cong) blast
  ultimately show ?thesis by simp
qed

definition voted_nil :: VoteSet where
  "voted_nil = (case NewVoteSet [] 5 0 PrecommitType voter_set of Ok s \<Rightarrow>
      (case res_fold (vset_step sample_env) s [Deliver (voter_vote PrecommitType bid_zero)] of Ok s' \<Rightarrow> s' | _ \<Rightarrow> s)
    | (_ :: (voteset_error, VoteSet) res) \<Rightarrow> undefined)"

lemma voted_nil_majority: "TwoThirdsMajority (Some voted_nil) = (bid_zero, True)"
  by code_simp

theorem conflicting_majorities_witness:
  "powers (Validators voter_set) < 3 * powerOf (Validators voter_set) (\<lambda>i. \<exists>v v'. v_BlockID v = voter_block \<and> v_BlockID v' = bid_zero \<and>
    good_vote sample_env \<lparr>x_chainID = [], x_height = 5, x_round = 0, x_type = PrecommitType, x_vals = Validators voter_set\<rparr> i v \<and>
    good_vote sample_env \<lparr>x_chainID = [], x_height = 5, x_round = 0, x_type = PrecommitType, x_vals = Validators voter_set\<rparr> i v')"
proof (rule conflicting_majorities [OF voter_set_ok voted_run _ voted_majority voted_nil_majority])
  show "res_bind (NewVoteSet [] 5 0 PrecommitType voter_set)
    (\<lambda>s. res_fold (vset_step sample_env) s [Deliver (voter_vote PrecommitType bid_zero)]) = Ok voted_nil"
    using new_vote_run [of "[Deliver (voter_vote PrecommitType bid_zero)]"] by (auto simp: voted_nil_def simp del: res_fold.simps)
  show "voter_block \<noteq> bid_zero" by code_simp
qed

section \<open>Commits from vote sets\<close>

text \<open>The vote that stands in the commit for a slot: votes for other blocks are left out.\<close>

definition keptVote :: "BlockID \<Rightarrow> Vote option \<Rightarrow> Vote option" where
  "keptVote m ov = (case ov of None \<Rightarrow> None | Some v \<Rightarrow> if v_BlockID v = m \<or> bid_IsZero (v_BlockID v) then Some v else None)"

definition sigOf :: "Vote option \<Rightarrow> CommitSig" where
  "sigOf ov = (case ov of None \<Rightarrow> NewCommitSigAbsent
     | Some v \<Rightarrow> \<lparr>cs_BlockIDFlag = if bid_IsComplete (v_BlockID v) then BlockIDFlagCommit else BlockIDFlagNil,
         cs_ValidatorAddress = v_ValidatorAddress v, cs_Timestamp = v_Timestamp v, cs_Signature = v_Signature v\<rparr>)"

lemma zero_not_complete: "bid_IsZero b \<Longrightarrow> \<not> bid_IsComplete b"
  by (auto simp: bid_IsZero_def bid_IsComplete_def)

lemma zero_incomplete [simp]: "\<not> bid_IsComplete bid_zero"
  by (simp add: bid_IsComplete_def bid_zero_def)

lemma VoteSignBytes_err:
  "VoteSignBytes E c v = (Ok sb :: ('a, bytes) res) \<Longrightarrow> VoteSignBytes E c v = (Ok sb :: ('b, bytes) res)"
  by (cases "BlockIDFromProto (Some (v_BlockID v))")
    (auto simp: VoteSignBytes_def CanonicalizeVote_def CanonicalizeBlockID_def varintWrittenBytes_def marshalSized_def split: option.splits if_splits)

lemma sigOf_flags:
  "Absent (sigOf None)" "\<not> ForBlock (sigOf None)" "\<not> Absent (sigOf (Some v))" "ForBlock (sigOf (Some v)) = bid_IsComplete (v_BlockID v)"
  by (simp_all add: sigOf_def Absent_def ForBlock_def NewCommitSigAbsent_def block_flags)

lemma commitSigOf_eq:
  assumes "\<And>v. ov = Some v \<Longrightarrow> bid_ok (v_BlockID v)"
  shows "commitSigOf m ov = Ok (sigOf (keptVote m ov))"
proof (cases ov)
  case None
  then show ?thesis by (simp add: commitSigOf_def Vote_CommitSig_def sigOf_def keptVote_def ForBlock_def NewCommitSigAbsent_def block_flags)
next
  case (Some v)
  with assms [OF Some] show ?thesis
    by (auto simp: commitSigOf_def Vote_CommitSig_def sigOf_def keptVote_def ForBlock_def bid_ok_def bid_Equals_iff block_flags
        dest: zero_not_complete)
qed

lemma MakeCommit_eq:
  assumes inv: "vset_inv E s" and s: "vset_signedMsgType s = PrecommitType" "vset_maj23 s = Some m"
  shows "MakeCommit s = (Ok (NewCommit (vset_height s) (vset_round s) m (map (\<lambda>v. sigOf (keptVote m v)) (vset_votes s))) :: ('e, _) res)"
proof -
  have "commitSigOf m ov = (Ok (sigOf (keptVote m ov)) :: ('e, _) res)" if "ov \<in> set (vset_votes s)" for ov
  proof (rule commitSigOf_eq)
    fix v assume "ov = Some v"
    with that inv show "bid_ok (v_BlockID v)"
      by (auto simp: vset_inv_def slots_ok_def good_vote_def in_set_conv_nth)
  qed
  from res_fold_collect [of "vset_votes s" "commitSigOf m" "\<lambda>v. sigOf (keptVote m v)" "[]", OF this] show ?thesis
    using s by (simp add: MakeCommit_def VoteSet_GetHeight_def VoteSet_GetRound_def)
qed

lemma GetVote_made:
  assumes inv: "vset_inv E s" and s: "vset_signedMsgType s = PrecommitType" "i < length (vset_votes s)"
    and v: "keptVote m (vset_votes s ! i) = Some v"
  shows "GetVote (NewCommit (vset_height s) (vset_round s) m (map (\<lambda>v. sigOf (keptVote m v)) (vset_votes s))) (int i) = (Ok v :: ('e, _) res)"
proof -
  have k: "vset_votes s ! i = Some v" "v_BlockID v = m \<or> v_BlockID v = bid_zero"
    using v by (auto simp: keptVote_def bid_IsZero_iff split: option.splits if_splits)
  have g: "good_vote E (ctx s) i v" using inv s(2) k(1) by (auto simp: vset_inv_def slots_ok_def)
  have "CommitSig_BlockID (sigOf (Some v)) m = (Ok (v_BlockID v) :: ('e, _) res)"
    using k(2) g by (auto simp: CommitSig_BlockID_def sigOf_def block_flags good_vote_def bid_ok_def bid_IsZero_iff)
  moreover have "cs_Timestamp (sigOf (Some v)) = v_Timestamp v" "cs_ValidatorAddress (sigOf (Some v)) = v_ValidatorAddress v"
    "cs_Signature (sigOf (Some v)) = v_Signature v" by (simp_all add: sigOf_def)
  ultimately show ?thesis using g s v
    by (cases v) (simp add: GetVote_def NewCommit_def good_vote_def ctx_def)
qed

lemma made_signed_by:
  assumes inv: "vset_inv E s" and s: "vset_signedMsgType s = PrecommitType" "i < length (vset_votes s)"
    and v: "keptVote m (vset_votes s ! i) = Some v"
  shows "signed_by E (vset_chainID s) (NewCommit (vset_height s) (vset_round s) m (map (\<lambda>v. sigOf (keptVote m v)) (vset_votes s))) i
    (Validators (vset_valSet s) ! i)"
proof -
  let ?c = "NewCommit (vset_height s) (vset_round s) m (map (\<lambda>v. sigOf (keptVote m v)) (vset_votes s))"
  have "int i \<le> MaxInt32" using inv s(2) by (auto simp: vset_inv_def valset_ok_def slots_ok_def)
  then have w: "wrap32 (int i) = int i" by (intro wrap32_id) (simp add: is_int32_def int_limits)
  have "vset_votes s ! i = Some v" using v by (auto simp: keptVote_def split: option.splits if_splits)
  then have "Vote_Verify E (vset_chainID s) (val_PubKey (Validators (vset_valSet s) ! i)) v = Ok ()"
    using inv s(2) by (auto simp: vset_inv_def slots_ok_def good_vote_def ctx_def)
  then obtain sb where sb: "VoteSignBytes E (vset_chainID s) v = (Ok sb :: (vote_error, _) res)"
    "VerifySignature E (val_PubKey (Validators (vset_valSet s) ! i)) sb (v_Signature v)"
    by (auto simp: Vote_Verify_def res_simps split: if_splits)
  have "VoteSignBytes E (vset_chainID s) v = (Ok sb :: (verify_error, _) res)"
    using sb(1) VoteSignBytes_err by blast
  moreover have "cs_Signature (c_Signatures ?c ! i) = v_Signature v"
    using s(2) v by (simp add: NewCommit_def sigOf_def)
  moreover have "GetVote ?c (int i) = (Ok v :: (verify_error, _) res)" by (rule GetVote_made [OF assms])
  ultimately show ?thesis
    using sb(2) by (simp add: signed_by_def Commit_VoteSignBytes_def w Vote_ToProto_def bid_proto_id)
qed

text \<open>
  C9: A precommit vote set of a well-formed validator set that has a majority, after whatever votes and claims of peers, makes a
  commit without a panic. If batch verifiers do what their interface documents, \<open>VerifyCommit\<close> accepts this commit with the
  same validators exactly if the majority is for a block, and not for nil, and the keys that signed are of one type in
  case they are verified as a batch.
\<close>

theorem made_commit_verifies:
  assumes "valset_ok vals" "res_bind (NewVoteSet chainID height round PrecommitType vals) (\<lambda>s. res_fold (vset_step E) s ops) = Ok s"
    and "TwoThirdsMajority (Some s) = (b, True)" "batch_documented E"
  shows "\<exists>commit. MakeCommit s = (Ok commit :: (voteset_error, _) res) \<and>
    (snd (VerifyCommit E chainID (Some (vset_valSet s)) b height (Some commit)) = Ok () \<longleftrightarrow>
      bid_IsComplete b \<and> one_key_type (vset_valSet s) commit)"
proof -
  let ?vs = "Validators (vset_valSet s)"
  let ?c = "NewCommit (vset_height s) (vset_round s) b (map (\<lambda>v. sigOf (keptVote b v)) (vset_votes s))"
  let ?p = "\<Sum>i \<leftarrow> [0..<length ?vs]. if ForBlock (c_Signatures ?c ! i) then VotingPower (?vs ! i) else 0"
  note inv = new_run(1) [OF assms(1,2)]
  have ctx: "vset_signedMsgType s = PrecommitType" "vset_chainID s = chainID" "vset_height s = height"
    using new_run(2) [OF assms(1,2)] by (simp_all add: ctx_def)
  have b: "vset_maj23 s = Some b" using assms(3) by (simp add: TwoThirdsMajority_iff)
  have vals: "vals_ok ?vs" "total_ok (vset_valSet s)" "length (vset_votes s) = length ?vs" "\<forall>v \<in> set ?vs. wf_key (val_PubKey v)"
    using inv by (simp_all add: vset_inv_def valset_ok_def slots_ok_def)
  have power: "2 * powers ?vs < 3 * ?p" if "bid_IsComplete b"
  proof -
    have "powerOf ?vs (\<lambda>i. \<exists>v. vset_votes s ! i = Some v \<and> v_BlockID v = b \<and> good_vote E (ctx s) i v) \<le>
        powerOf ?vs (\<lambda>i. ForBlock (c_Signatures ?c ! i))"
      using vals that by (intro powerOf_mono) (auto simp: NewCommit_def keptVote_def sigOf_flags)
    with maj_signed [OF inv b] show ?thesis by (simp only: powerOf_def interv_sum_list_conv_sum_set_nat atLeast0LessThan set_upt)
  qed
  have none: "?p = 0" if nc: "\<not> bid_IsComplete b"
  proof -
    have "\<not> ForBlock (sigOf (keptVote b ov))" for ov
      using nc zero_not_complete by (auto simp: keptVote_def sigOf_flags split: option.splits)
    then have "map (\<lambda>i. if ForBlock (c_Signatures ?c ! i) then VotingPower (?vs ! i) else 0) [0..<length ?vs] = map (\<lambda>_. 0) [0..<length ?vs]"
      using vals(3) by (intro map_cong) (simp_all add: NewCommit_def)
    then show ?thesis by (simp only: sum_list_0)
  qed
  have "signed_by E chainID ?c i (?vs ! i)" if i: "i < length ?vs" and na: "\<not> Absent (c_Signatures ?c ! i)" for i
  proof -
    obtain v where "keptVote b (vset_votes s ! i) = Some v"
      using na i [folded vals(3)] by (cases "keptVote b (vset_votes s ! i)") (auto simp: NewCommit_def sigOf_flags)
    then show ?thesis using made_signed_by [OF inv ctx(1)] i vals(3) ctx(2) by simp
  qed
  moreover have "?vs \<noteq> []" using maj_signed [OF inv b] by (auto simp: powerOf_def)
  moreover have "0 \<le> powers ?vs" using powers_nonneg [OF vals(1)] .
  ultimately have "snd (VerifyCommit E chainID (Some (vset_valSet s)) b height (Some ?c)) = Ok () \<longleftrightarrow>
      bid_IsComplete b \<and> one_key_type (vset_valSet s) ?c"
    unfolding VerifyCommit_exact [OF vals(1,2) \<open>?vs \<noteq> []\<close> vals(4) assms(4)] using power none ctx(3) vals(3)
    by (cases "bid_IsComplete b") (simp_all add: NewCommit_def)
  with MakeCommit_eq [OF inv ctx(1) b] show ?thesis by blast
qed

lemma voted_inv: "vset_inv sample_env voted"
  by (rule new_run [OF voter_set_ok voted_run])

lemma voted_nil_run:
  "res_bind (NewVoteSet [] 5 0 PrecommitType voter_set) (\<lambda>s. res_fold (vset_step sample_env) s [Deliver (voter_vote PrecommitType bid_zero)]) = Ok voted_nil"
  using new_vote_run [of "[Deliver (voter_vote PrecommitType bid_zero)]"] by (auto simp: voted_nil_def simp del: res_fold.simps)

theorem made_commit_verifies_witness:
  "(\<exists>commit. MakeCommit voted = (Ok commit :: (voteset_error, _) res) \<and>
      snd (VerifyCommit sample_env [] (Some (vset_valSet voted)) voter_block 5 (Some commit)) = Ok ()) \<and>
   (\<exists>commit. MakeCommit voted_nil = (Ok commit :: (voteset_error, _) res) \<and>
      \<not> snd (VerifyCommit sample_env [] (Some (vset_valSet voted_nil)) bid_zero 5 (Some commit)) = Ok ())"
proof
  obtain commit where c: "MakeCommit voted = (Ok commit :: (voteset_error, _) res)"
    "snd (VerifyCommit sample_env [] (Some (vset_valSet voted)) voter_block 5 (Some commit)) = Ok () \<longleftrightarrow>
      bid_IsComplete voter_block \<and> one_key_type (vset_valSet voted) commit"
    using made_commit_verifies [OF voter_set_ok voted_run voted_majority sample_env_batch] by blast
  have "(case MakeCommit voted :: (voteset_error, _) res of Ok commit \<Rightarrow> bid_IsComplete voter_block \<and> one_key_type (vset_valSet voted) commit | _ \<Rightarrow> False)"
    by code_simp
  with c show "\<exists>commit. MakeCommit voted = (Ok commit :: (voteset_error, _) res) \<and>
      snd (VerifyCommit sample_env [] (Some (vset_valSet voted)) voter_block 5 (Some commit)) = Ok ()" by simp
  show "\<exists>commit. MakeCommit voted_nil = (Ok commit :: (voteset_error, _) res) \<and>
      \<not> snd (VerifyCommit sample_env [] (Some (vset_valSet voted_nil)) bid_zero 5 (Some commit)) = Ok ()"
    using made_commit_verifies [OF voter_set_ok voted_nil_run voted_nil_majority sample_env_batch] by auto
qed

text \<open>
  A vote set with no conflicting votes: each vote is with the votes of its block, and these are all.
\<close>

definition tidy :: "VoteSet \<Rightarrow> bool" where
  "tidy s \<longleftrightarrow>
     (\<forall>key bv j. vset_votesByBlock s key = Some bv \<longrightarrow> j < length (vset_votes s) \<longrightarrow>
        bv_votes bv ! j = (case vset_votes s ! j of None \<Rightarrow> None | Some w \<Rightarrow> if bkey (v_BlockID w) = key then Some w else None)) \<and>
     (\<forall>j w. j < length (vset_votes s) \<longrightarrow> vset_votes s ! j = Some w \<longrightarrow> vset_votesByBlock s (bkey (v_BlockID w)) \<noteq> None)"

lemma tidy_block:
  assumes "tidy s" "vset_votesByBlock s key = Some bv" "j < length (vset_votes s)"
  shows "bv_votes bv ! j = (case vset_votes s ! j of None \<Rightarrow> None | Some w \<Rightarrow> if bkey (v_BlockID w) = key then Some w else None)"
  using assms unfolding tidy_def by blast

lemma addVerifiedVote_fresh:
  assumes inv: "vset_inv E s" and tidy: "tidy s" and i: "i < length (vset_votes s)" and v: "good_vote E (ctx s) i vote"
    and new: "vset_votes s ! i = None"
  shows "\<exists>s'. VoteSet_addVerifiedVote s vote (bkey (v_BlockID vote)) (VotingPower (Validators (vset_valSet s) ! i)) =
      (Ok (s', True, None) :: ('e, _) res) \<and> vset_inv E s' \<and> ctx s' = ctx s \<and> tidy s' \<and>
      vset_votes s' = (vset_votes s)[i := Some vote]"
proof -
  let ?k = "bkey (v_BlockID vote)" and ?p = "VotingPower (Validators (vset_valSet s) ! i)" and ?votes = "(vset_votes s)[i := Some vote]"
  have old: "bv_votes bv ! i = None" if "vset_votesByBlock s ?k = Some bv" for bv
    using tidy_block [OF tidy that i] new by simp
  obtain s1 where rec: "recordVote s vote ?k ?p = (Ok (s1, None) :: ('e, _) res)"
    and s1: "vset_inv E s1" "ctx s1 = ctx s" "vset_votesByBlock s1 = vset_votesByBlock s" "vset_valSet s1 = vset_valSet s" "vset_votes s1 = ?votes"
    using recordVote_Ok [OF inv i v, where 'e = 'e] new by auto
  obtain s2 bv where track: "trackBlock s1 ?k None = Some (s2, bv)"
    by (cases "vset_votesByBlock s1 ?k") (simp_all add: trackBlock_def Let_def)
  have i1: "i < length (vset_votes s1)" using i s1(5) by simp
  have t: "vset_inv E s2" "vset_votesByBlock s2 ?k = Some bv" "bv_votes bv ! i = None" "ctx s2 = ctx s"
    "vset_votes s2 = ?votes" "vset_valSet s2 = vset_valSet s" "vset_votesByBlock s2 = (vset_votesByBlock s)(?k \<mapsto> bv)"
    "vset_votesByBlock s ?k = None \<longrightarrow> bv_votes bv = replicate (length (vset_votes s)) None"
    using trackBlock_inv [OF s1(1) track _ i1] old s1 by auto
  obtain s3 bv' where count: "countVote s2 vote ?k ?p bv = (Ok s3 :: ('e, _) res)" and s3: "vset_inv E s3" "ctx s3 = ctx s2"
    "vset_votesByBlock s3 = (vset_votesByBlock s2)(?k \<mapsto> bv')" "bv_votes bv' = (bv_votes bv)[i := Some vote]"
    "vset_votes s3 \<in> {?votes, map2 (\<lambda>n v. if n = None then v else n) (bv_votes bv') ?votes}"
  proof -
    have "i < length (vset_votes s2)" "good_vote E (ctx s2) i vote" "vset_votes s2 ! i \<noteq> None"
      "vset_maj23 s2 = Some (v_BlockID vote) \<longrightarrow> vset_votes s2 ! i = Some vote"
      unfolding t(4,5) using i v by simp_all
    from countVote_inv [OF t(1) this(1,2) t(2,3) this(3,4), where 'e = 'e, unfolded t(5,6)] that show thesis
      by (elim exE conjE) blast
  qed
  have len: "length (bv_votes bv') = length (vset_votes s)"
  proof -
    have "block_ok E (ctx s3) (vset_votes s3) ?k bv'" using s3(1,3) by (auto simp: vset_inv_def)
    then show ?thesis using inv s3(2) t(4) by (simp add: vset_inv_def block_ok_def slots_ok_def)
  qed
  have bv': "bv_votes bv' ! j = (case ?votes ! j of None \<Rightarrow> None | Some w \<Rightarrow> if bkey (v_BlockID w) = ?k then Some w else None)"
    if "j < length (vset_votes s)" for j
  proof (cases "vset_votesByBlock s ?k")
    case None
    then have none: "vset_votes s ! j = Some w \<Longrightarrow> bkey (v_BlockID w) \<noteq> ?k" for w
      using tidy that unfolding tidy_def by metis
    then show ?thesis using None t(8) s3(4) that by (cases "j = i") (auto split: option.splits)
  next
    case (Some b)
    then have "b = bv" using track s1(3) by (auto simp: trackBlock_def)
    then show ?thesis using tidy_block [OF tidy Some that] s3(4) that len by (cases "j = i") auto
  qed
  have "map2 (\<lambda>n v. if n = None then v else n) (bv_votes bv') ?votes = ?votes"
    by (rule nth_equalityI) (use bv' len in \<open>auto split: option.splits\<close>)
  with s3(5) have votes: "vset_votes s3 = ?votes" by simp
  have blocks: "vset_votesByBlock s3 = (vset_votesByBlock s)(?k \<mapsto> bv')" using s3(3) t(7) by simp
  have "tidy s3" unfolding tidy_def votes
  proof (intro conjI allI impI)
    fix key b j assume b: "vset_votesByBlock s3 key = Some b" and "j < length ?votes"
    then have j: "j < length (vset_votes s)" by simp
    show "bv_votes b ! j = (case ?votes ! j of None \<Rightarrow> None | Some w \<Rightarrow> if bkey (v_BlockID w) = key then Some w else None)"
    proof (cases "key = ?k")
      case True
      then have "b = bv'" using b blocks by simp
      then show ?thesis unfolding True using bv' [OF j] by simp
    next
      case False
      then have "vset_votesByBlock s key = Some b" using b blocks by simp
      from tidy_block [OF tidy this j] show ?thesis using False new i by (cases "j = i") simp_all
    qed
  next
    fix j w assume j: "j < length ?votes" "?votes ! j = Some w"
    then show "vset_votesByBlock s3 (bkey (v_BlockID w)) \<noteq> None"
      using tidy blocks i unfolding tidy_def by (cases "j = i") auto
  qed
  moreover have "VoteSet_addVerifiedVote s vote ?k ?p = (Ok (s3, True, None) :: ('e, _) res)"
    by (simp add: VoteSet_addVerifiedVote_def rec track count)
  ultimately show ?thesis using s3(1,2) t(4) votes by (intro exI [of _ s3]) simp
qed


lemma addVote_fresh:
  assumes inv: "vset_inv E s" and tidy: "tidy s" and i: "i < length (vset_votes s)" and v: "good_vote E (ctx s) i vote"
    and new: "vset_votes s ! i = None" and addr: "v_ValidatorAddress vote \<noteq> []"
  shows "\<exists>s'. VoteSet_AddVote E (Some s) (Some vote) = (Ok (s', True, None) :: ('e, _) res) \<and> vset_inv E s' \<and> ctx s' = ctx s \<and> tidy s' \<and>
      vset_votes s' = (vset_votes s)[i := Some vote]"
proof -
  have l: "length (vset_votes s) = length (Validators (vset_valSet s))" using inv by (simp add: vset_inv_def slots_ok_def)
  have g: "v_ValidatorIndex vote = int i" "v_ValidatorAddress vote = val_Address (Validators (vset_valSet s) ! i)"
    "v_Height vote = vset_height s" "v_Round vote = vset_round s" "v_Type vote = vset_signedMsgType s" "bid_ok (v_BlockID vote)"
    "Vote_Verify E (vset_chainID s) (val_PubKey (Validators (vset_valSet s) ! i)) vote = Ok ()"
    using v by (simp_all add: good_vote_def ctx_def)
  have "Option.bind (vset_votesByBlock s (bkey (v_BlockID vote))) (\<lambda>bv. bv_votes bv ! i) = None"
    using tidy_block [OF tidy _ i] new by (cases "vset_votesByBlock s (bkey (v_BlockID vote))") simp_all
  then have get: "VoteSet_getVote s (int i) (bkey (v_BlockID vote)) = (Ok None :: ('e, _) res)"
    using getVote_Ok [OF inv i g(6)] new by simp
  obtain s' where s': "VoteSet_addVerifiedVote s vote (bkey (v_BlockID vote)) (VotingPower (Validators (vset_valSet s) ! i)) =
      (Ok (s', True, None) :: ('e, _) res)" "vset_inv E s'" "ctx s' = ctx s" "tidy s'" "vset_votes s' = (vset_votes s)[i := Some vote]"
    using addVerifiedVote_fresh [OF inv tidy i v new] by blast
  have "GetByIndex (Validators (vset_valSet s)) (int i) = Some (val_Address (Validators (vset_valSet s) ! i), Validators (vset_valSet s) ! i)"
    using i l by (simp add: GetByIndex_def Let_def)
  then have "VoteSet_AddVote E (Some s) (Some vote) = (Ok (s', True, None) :: ('e, _) res)"
    using addr g get s'(1) by (simp add: VoteSet_AddVote_def VoteSet_addVote_def)
  with s' show ?thesis by blast
qed

text \<open>The loop of \<open>CommitToVoteSet\<close> on the signatures from index \<open>k\<close> on.\<close>

lemma replay:
  assumes "vset_inv E s" "tidy s" "k + length sigs = length (vset_votes s)" "\<forall>j < length (vset_votes s). k \<le> j \<longrightarrow> vset_votes s ! j = None"
    and "length votes = length sigs" "sigs = map sigOf votes" "int (length (vset_votes s)) \<le> MaxInt32"
    and "\<And>j v. j < length votes \<Longrightarrow> votes ! j = Some v \<Longrightarrow>
      GetVote commit (int (k + j)) = (Ok v :: ('e, _) res) \<and> good_vote E (ctx s) (k + j) v \<and> v_ValidatorAddress v \<noteq> []"
  shows "\<exists>s'. res_fold (\<lambda>voteSet (idx, commitSig).
           if Absent commitSig then Ok voteSet
           else res_bind (GetVote commit (wrap32 (int idx))) (\<lambda>vote.
             res_bind (VoteSet_AddVote E (Some voteSet) (Some vote)) (\<lambda>(voteSet, added, err).
               if \<not> added \<or> err \<noteq> None then Panic ''Failed to reconstruct LastCommit'' else Ok voteSet)))
         s (enumerate k sigs) = (Ok s' :: ('e, _) res) \<and> vset_inv E s' \<and> tidy s' \<and> ctx s' = ctx s \<and>
         vset_votes s' = take k (vset_votes s) @ votes"
  using assms
proof (induction sigs arbitrary: s k votes)
  case Nil
  then show ?case by auto
next
  case (Cons cs sigs)
  obtain ov ovs where votes: "votes = ov # ovs" using Cons.prems(5) by (cases votes) auto
  have k: "k < length (vset_votes s)" "vset_votes s ! k = None" using Cons.prems(3,4) by auto
  have w: "wrap32 (int k) = int k" using k(1) Cons.prems(7) by (intro wrap32_id) (simp add: is_int32_def int_limits)
  have cs: "cs = sigOf ov" "sigs = map sigOf ovs" using Cons.prems(6) votes by simp_all
  define t where "t = (vset_votes s)[k := ov]"
  obtain s1 where s1: "(if Absent cs then Ok s else res_bind (GetVote commit (wrap32 (int k))) (\<lambda>vote.
      res_bind (VoteSet_AddVote E (Some s) (Some vote)) (\<lambda>(voteSet, added, err).
        if \<not> added \<or> err \<noteq> None then Panic ''Failed to reconstruct LastCommit'' else Ok voteSet))) = (Ok s1 :: ('e, _) res)"
    "vset_inv E s1" "tidy s1" "ctx s1 = ctx s" "vset_votes s1 = t"
  proof (cases ov)
    case None
    then show ?thesis using Cons.prems(1,2) cs(1) k(2) that [of s] sigOf_flags(1) list_update_id [of "vset_votes s" k]
      by (simp add: t_def)
  next
    case (Some v)
    then have v: "GetVote commit (int k) = (Ok v :: ('e, _) res)" "good_vote E (ctx s) k v" "v_ValidatorAddress v \<noteq> []"
      using Cons.prems(8) [of 0 v] votes by simp_all
    obtain s1 where "VoteSet_AddVote E (Some s) (Some v) = (Ok (s1, True, None) :: ('e, _) res)" "vset_inv E s1" "ctx s1 = ctx s" "tidy s1"
      "vset_votes s1 = (vset_votes s)[k := Some v]"
      using addVote_fresh [OF Cons.prems(1,2) k(1) v(2) k(2) v(3)] by blast
    then show ?thesis using that [of s1] v(1) w cs(1) Some sigOf_flags(3) by (simp add: t_def)
  qed
  have "\<exists>s'. res_fold (\<lambda>voteSet (idx, commitSig).
           if Absent commitSig then Ok voteSet
           else res_bind (GetVote commit (wrap32 (int idx))) (\<lambda>vote.
             res_bind (VoteSet_AddVote E (Some voteSet) (Some vote)) (\<lambda>(voteSet, added, err).
               if \<not> added \<or> err \<noteq> None then Panic ''Failed to reconstruct LastCommit'' else Ok voteSet)))
         s1 (enumerate (Suc k) sigs) = (Ok s' :: ('e, _) res) \<and> vset_inv E s' \<and> tidy s' \<and> ctx s' = ctx s1 \<and>
         vset_votes s' = take (Suc k) (vset_votes s1) @ ovs"
  proof (rule Cons.IH [OF s1(2,3)])
    show "Suc k + length sigs = length (vset_votes s1)" using Cons.prems(3) by (simp add: s1(5) t_def)
    show "\<forall>j < length (vset_votes s1). Suc k \<le> j \<longrightarrow> vset_votes s1 ! j = None" using Cons.prems(4) by (simp add: s1(5) t_def)
    show "GetVote commit (int (Suc k + j)) = (Ok v :: ('e, _) res) \<and> good_vote E (ctx s1) (Suc k + j) v \<and> v_ValidatorAddress v \<noteq> []"
      if "j < length ovs" "ovs ! j = Some v" for j v
      using Cons.prems(8) [of "Suc j" v] that votes s1(4) by simp
  qed (use Cons.prems votes cs in \<open>simp_all add: s1(5) t_def\<close>)
  moreover have "take (Suc k) t @ ovs = take k (vset_votes s) @ votes"
    using k(1) by (simp add: t_def votes take_Suc_conv_app_nth)
  ultimately show ?case using s1 by auto
qed


text \<open>Without conflicting votes, a block with more than two thirds has the majority.\<close>

lemma tidy_majority:
  assumes inv: "vset_inv E s" and tidy: "tidy s" and b: "bid_ok b"
    and p: "2 * powers (Validators (vset_valSet s)) <
      3 * powerOf (Validators (vset_valSet s)) (\<lambda>i. \<exists>v. vset_votes s ! i = Some v \<and> v_BlockID v = b)"
  shows "vset_maj23 s = Some b"
proof -
  let ?vs = "Validators (vset_valSet s)" and ?P = "\<lambda>b i. \<exists>v. vset_votes s ! i = Some v \<and> v_BlockID v = b"
  have vals: "vals_ok ?vs" "length (vset_votes s) = length ?vs" using inv by (simp_all add: vset_inv_def valset_ok_def slots_ok_def)
  have good: "bid_ok (v_BlockID v)" if "i < length ?vs" "vset_votes s ! i = Some v" for i v
    using inv that vals(2) by (auto simp: vset_inv_def slots_ok_def good_vote_def)
  have block: "bv_sum bv = powerOf ?vs (?P m)" if "vset_votesByBlock s (bkey m) = Some bv" "bid_ok m" for m bv
  proof -
    have "bv_sum bv = powerOf ?vs (\<lambda>i. bv_votes bv ! i \<noteq> None)"
      using inv that(1) by (simp add: vset_inv_def block_ok_def slots_ok_def)
    also have "\<dots> = powerOf ?vs (?P m)"
    proof (rule powerOf_cong)
      fix i assume i: "i < length ?vs"
      then show "(bv_votes bv ! i \<noteq> None) = ?P m i"
        using tidy_block [OF tidy that(1), of i] vals(2) good [OF i] that(2) by (cases "vset_votes s ! i") (auto simp: bkey_inj)
    qed
    finally show ?thesis .
  qed
  obtain i where i: "i < length ?vs" "?P b i"
    using p powerOf_cong [of ?vs "?P b" "\<lambda>_. False"] powers_nonneg [OF vals(1)] by fastforce
  then obtain bv where bv: "vset_votesByBlock s (bkey b) = Some bv"
    using tidy vals(2) unfolding tidy_def by (metis not_None_eq)
  have q: "quorumOf (ctx s) \<le> bv_sum bv" using p block [OF bv b] by (simp add: quorumOf_def)
  show ?thesis
  proof (cases "vset_maj23 s")
    case None
    then show ?thesis using inv bv q by (fastforce simp: vset_inv_def maj_ok_def)
  next
    case (Some m)
    then obtain bm where bm: "bid_ok m" "vset_votesByBlock s (bkey m) = Some bm" "quorumOf (ctx s) \<le> bv_sum bm"
      using inv by (auto simp: vset_inv_def maj_ok_def)
    have "m = b"
    proof (rule ccontr)
      assume "m \<noteq> b"
      then have "powerOf ?vs (\<lambda>i. ?P b i \<and> ?P m i) = powerOf ?vs (\<lambda>_. False)" by (intro powerOf_cong) auto
      with powerOf_overlap [OF vals(1), of "?P b" "?P m"] bm(3) q block [OF bv b] block [OF bm(2,1)]
      have "2 * quorumOf (ctx s) \<le> powers ?vs" by simp
      then show False using powers_nonneg [OF vals(1)] by (auto simp: quorumOf_def)
    qed
    with Some show ?thesis by simp
  qed
qed

text \<open>
  C11: \<open>CommitToVoteSet\<close> is the inverse of \<open>MakeCommit\<close> but for votes for other blocks: from the commit
  that a vote set makes, it rebuilds, without panic, a vote set with the same majority and the votes
  for the block and for nil, which makes the same commit again.
\<close>

theorem commit_vote_set_roundtrip:
  assumes "vset_inv E s" "vset_signedMsgType s = PrecommitType" "TwoThirdsMajority (Some s) = (b, True)" "vset_height s \<noteq> 0"
    and "\<forall>v \<in> set (Validators (vset_valSet s)). val_Address v \<noteq> []"
  shows "\<exists>commit s'. MakeCommit s = (Ok commit :: (voteset_error, _) res) \<and>
    CommitToVoteSet E (vset_chainID s) commit (vset_valSet s) = (Ok s' :: (voteset_error, _) res) \<and>
    TwoThirdsMajority (Some s') = (b, True) \<and> vset_votes s' = map (keptVote b) (vset_votes s) \<and>
    MakeCommit s' = (Ok commit :: (voteset_error, _) res)"
proof -
  let ?votes = "map (keptVote b) (vset_votes s)" and ?vs = "Validators (vset_valSet s)"
  let ?c = "NewCommit (vset_height s) (vset_round s) b (map (\<lambda>v. sigOf (keptVote b v)) (vset_votes s))"
  have b: "vset_maj23 s = Some b" "bid_ok b" using assms(1,3) by (auto simp: TwoThirdsMajority_iff vset_inv_def maj_ok_def)
  have vals: "valset_ok (vset_valSet s)" "length (vset_votes s) = length ?vs" using assms(1) by (simp_all add: vset_inv_def slots_ok_def)
  obtain s0 where s0: "NewVoteSet (vset_chainID s) (vset_height s) (vset_round s) PrecommitType (vset_valSet s) = (Ok s0 :: (voteset_error, _) res)"
    "vset_inv E s0" "ctx s0 = ctx s"
    using NewVoteSet_inv [OF vals(1) assms(4), of "vset_chainID s" "vset_round s" PrecommitType E] assms(2) by (auto simp: ctx_def)
  then have empty: "vset_votes s0 = replicate (length ?vs) None" "vset_votesByBlock s0 = Map.empty"
    using assms(4) by (auto simp: NewVoteSet_def vs_Size_def)
  then have "tidy s0" by (simp add: tidy_def)
  have kept: "GetVote ?c (int j) = (Ok v :: (voteset_error, _) res) \<and> good_vote E (ctx s0) j v \<and> v_ValidatorAddress v \<noteq> []"
    if j: "j < length ?votes" "?votes ! j = Some v" for j v
  proof -
    have k: "keptVote b (vset_votes s ! j) = Some v" "j < length (vset_votes s)" using j by simp_all
    then have "vset_votes s ! j = Some v" by (auto simp: keptVote_def split: option.splits if_splits)
    then have "good_vote E (ctx s) j v" using assms(1) k(2) by (auto simp: vset_inv_def slots_ok_def)
    moreover have "GetVote ?c (int j) = (Ok v :: (voteset_error, _) res)" by (rule GetVote_made [OF assms(1,2) k(2,1)])
    ultimately show ?thesis using assms(5) k(2) vals(2) s0(3) by (simp add: good_vote_def)
  qed
  obtain s' where run: "CommitToVoteSet E (vset_chainID s) ?c (vset_valSet s) = (Ok s' :: (voteset_error, _) res)"
    and s': "vset_inv E s'" "tidy s'" "ctx s' = ctx s" "vset_votes s' = ?votes"
  proof -
    have m: "int (length (vset_votes s0)) \<le> MaxInt32" using vals(1) empty by (simp add: valset_ok_def)
    have "\<exists>s'. res_fold (\<lambda>voteSet (idx, commitSig).
           if Absent commitSig then Ok voteSet
           else res_bind (GetVote ?c (wrap32 (int idx))) (\<lambda>vote.
             res_bind (VoteSet_AddVote E (Some voteSet) (Some vote)) (\<lambda>(voteSet, added, err).
               if \<not> added \<or> err \<noteq> None then Panic ''Failed to reconstruct LastCommit'' else Ok voteSet)))
         s0 (enumerate 0 (map sigOf ?votes)) = (Ok s' :: (voteset_error, _) res) \<and> vset_inv E s' \<and> tidy s' \<and> ctx s' = ctx s0 \<and>
         vset_votes s' = take 0 (vset_votes s0) @ ?votes"
      by (rule replay [OF s0(2) \<open>tidy s0\<close> _ _ _ refl m]) (use empty vals(2) kept in simp_all)
    moreover have "c_Height ?c = vset_height s" "c_Round ?c = vset_round s" "c_Signatures ?c = map sigOf ?votes"
      by (simp_all add: NewCommit_def)
    ultimately show thesis using that s0(1,3) unfolding CommitToVoteSet_def by auto
  qed
  have same: "vset_chainID s' = vset_chainID s" "vset_height s' = vset_height s" "vset_round s' = vset_round s"
    "vset_signedMsgType s' = PrecommitType" "Validators (vset_valSet s') = ?vs"
    using s'(3) assms(2) by (simp_all add: ctx_def)
  have "powerOf ?vs (\<lambda>i. \<exists>v. vset_votes s ! i = Some v \<and> v_BlockID v = b \<and> good_vote E (ctx s) i v) \<le>
      powerOf ?vs (\<lambda>i. \<exists>v. vset_votes s' ! i = Some v \<and> v_BlockID v = b)"
    using vals by (intro powerOf_mono) (auto simp: s'(4) keptVote_def valset_ok_def)
  then have maj: "vset_maj23 s' = Some b"
    using maj_signed [OF assms(1) b(1)] same(5) by (intro tidy_majority [OF s'(1,2) b(2)]) simp
  have "keptVote b (keptVote b ov) = keptVote b ov" for ov by (auto simp: keptVote_def split: option.splits)
  then have "MakeCommit s' = (Ok ?c :: (voteset_error, _) res)"
    using MakeCommit_eq [OF s'(1) same(4) maj] s'(4) same by (simp add: o_def)
  moreover have "MakeCommit s = (Ok ?c :: (voteset_error, _) res)" by (rule MakeCommit_eq [OF assms(1,2) b(1)])
  ultimately show ?thesis using run maj s'(4) by (intro exI [of _ ?c] exI [of _ s']) (simp add: TwoThirdsMajority_iff)
qed


theorem commit_vote_set_roundtrip_witness:
  "\<exists>commit s'. MakeCommit voted = (Ok commit :: (voteset_error, _) res) \<and>
    CommitToVoteSet sample_env (vset_chainID voted) commit (vset_valSet voted) = (Ok s' :: (voteset_error, _) res) \<and>
    TwoThirdsMajority (Some s') = (voter_block, True) \<and> vset_votes s' = map (keptVote voter_block) (vset_votes voted) \<and>
    MakeCommit s' = (Ok commit :: (voteset_error, _) res)"
proof (rule commit_vote_set_roundtrip [OF voted_inv _ voted_majority])
  note c = new_run(2) [OF voter_set_ok voted_run]
  show "vset_signedMsgType voted = PrecommitType" "vset_height voted \<noteq> 0" using c by (simp_all add: ctx_def)
  have "Validators (vset_valSet voted) = [voter]" using c by (simp add: ctx_def voter_set_def)
  then show "\<forall>v \<in> set (Validators (vset_valSet voted)). val_Address v \<noteq> []" by (simp add: voter_def)
qed


text \<open>
  \<open>VerifyCommit\<close> does not look at the addresses in a commit, while \<open>AddVote\<close> does: there is a commit that is
  valid and accepted, and from which \<open>CommitToVoteSet\<close> panics.
\<close>

definition forged_commit :: Commit where
  "forged_commit = NewCommit 5 0 voter_block [NewCommitSigForBlock (v_Signature (voter_vote PrecommitType voter_block)) (replicate 20 8) 100]"

lemma accepted_commit_not_rebuilt:
  "Commit_ValidateBasic forged_commit = Ok ()"
  "snd (VerifyCommit sample_env [] (Some voter_set) voter_block 5 (Some forged_commit)) = Ok ()"
  "is_panic (CommitToVoteSet sample_env [] forged_commit voter_set :: (voteset_error, VoteSet) res)"
  by code_simp+

end
