(* ===== verification/HeightVoteSet.thy ===== *)
theory HeightVoteSet
  imports VoteSet
begin

text \<open>
  The votes of a height (\<open>internal/consensus/types/height_vote_set.go\<close>): the prevotes and precommits of
  every round so far, and of up to two later rounds for each peer. The vote sets share the validator
  set by a pointer; in the model each carries it, as they only cache the total power in it.
\<close>

datatype hvs_error =
    VoteSetError voteset_error
  | ErrGotVoteFromUnwantedRound
  | ErrSetPeerMaj23Type int32

section \<open>Operations\<close>

record RoundVoteSet =
  Prevotes :: VoteSet
  Precommits :: VoteSet

record HeightVoteSet =
  hvs_chainID :: bytes
  hvs_height :: int64
  hvs_valSet :: ValidatorSet
  hvs_round :: int32
  hvs_roundVoteSets :: "int32 \<rightharpoonup> RoundVoteSet"
  hvs_peerCatchupRounds :: "bytes \<rightharpoonup> int32 list"

definition addRound :: "HeightVoteSet \<Rightarrow> int32 \<Rightarrow> (hvs_error, HeightVoteSet) res" where
  "addRound hvs round =
     (if hvs_roundVoteSets hvs round \<noteq> None then Panic ''addRound() for an existing round''
      else res_bind (NewVoteSet (hvs_chainID hvs) (hvs_height hvs) round PrevoteType (hvs_valSet hvs)) (\<lambda>prevotes.
        res_bind (NewVoteSet (hvs_chainID hvs) (hvs_height hvs) round PrecommitType (hvs_valSet hvs)) (\<lambda>precommits.
          Ok (hvs\<lparr>hvs_roundVoteSets := (hvs_roundVoteSets hvs)(round \<mapsto> \<lparr>Prevotes = prevotes, Precommits = precommits\<rparr>)\<rparr>))))"

definition HeightVoteSet_Reset :: "HeightVoteSet \<Rightarrow> int64 \<Rightarrow> ValidatorSet \<Rightarrow> (hvs_error, HeightVoteSet) res" where
  "HeightVoteSet_Reset hvs height valSet =
     res_bind (addRound (hvs\<lparr>hvs_height := height, hvs_valSet := valSet, hvs_roundVoteSets := Map.empty,
                           hvs_peerCatchupRounds := Map.empty\<rparr>) 0) (\<lambda>hvs.
       Ok (hvs\<lparr>hvs_round := 0\<rparr>))"

definition NewHeightVoteSet :: "bytes \<Rightarrow> int64 \<Rightarrow> ValidatorSet \<Rightarrow> (hvs_error, HeightVoteSet) res" where
  "NewHeightVoteSet chainID height valSet =
     HeightVoteSet_Reset \<lparr>hvs_chainID = chainID, hvs_height = 0, hvs_valSet = vs_empty, hvs_round = 0,
       hvs_roundVoteSets = Map.empty, hvs_peerCatchupRounds = Map.empty\<rparr> height valSet"

definition hvs_Height :: "HeightVoteSet \<Rightarrow> int64" where "hvs_Height hvs = hvs_height hvs"
definition hvs_Round :: "HeightVoteSet \<Rightarrow> int32" where "hvs_Round hvs = hvs_round hvs"

text \<open>
  The loop of \<open>SetRound\<close> counts with an \<open>int32\<close>, which wraps around after the largest: then the
  loop does not end.
\<close>

partial_function (option) setRoundLoop :: "int32 \<Rightarrow> int32 \<Rightarrow> HeightVoteSet \<Rightarrow> (hvs_error, HeightVoteSet) res option" where
  "setRoundLoop r round hvs =
     (if r \<le> round then
        (case (if hvs_roundVoteSets hvs r \<noteq> None then Ok hvs else addRound hvs r) of
           Ok hvs' \<Rightarrow> setRoundLoop (wrap32 (r + 1)) round hvs'
         | Err e \<Rightarrow> Some (Err e)
         | Panic p \<Rightarrow> Some (Panic p))
      else Some (Ok hvs))"

declare setRoundLoop.simps [code]

definition SetRound :: "HeightVoteSet \<Rightarrow> int32 \<Rightarrow> (hvs_error, HeightVoteSet) res option" where
  "SetRound hvs round =
     (case SafeSubInt32 (hvs_round hvs) 1 of
        Err _ \<Rightarrow> Some (Panic ''int32 overflow'')
      | Panic p \<Rightarrow> Some (Panic p)
      | Ok newRound \<Rightarrow>
          if hvs_round hvs \<noteq> 0 \<and> round < newRound then Some (Panic ''SetRound() must increment hvs.round'')
          else map_option (\<lambda>r. res_bind r (\<lambda>hvs. Ok (hvs\<lparr>hvs_round := round\<rparr>))) (setRoundLoop newRound round hvs))"

definition getVoteSet :: "HeightVoteSet \<Rightarrow> int32 \<Rightarrow> int32 \<Rightarrow> (hvs_error, VoteSet option) res" where
  "getVoteSet hvs round voteType =
     (case hvs_roundVoteSets hvs round of None \<Rightarrow> Ok None
      | Some rvs \<Rightarrow>
          if voteType = PrevoteType then Ok (Some (Prevotes rvs))
          else if voteType = PrecommitType then Ok (Some (Precommits rvs))
          else Panic ''Unexpected vote type'')"

text \<open>The vote set is changed through its pointer.\<close>

definition putVoteSet :: "HeightVoteSet \<Rightarrow> int32 \<Rightarrow> int32 \<Rightarrow> VoteSet \<Rightarrow> HeightVoteSet" where
  "putVoteSet hvs round voteType s =
     (case hvs_roundVoteSets hvs round of None \<Rightarrow> hvs
      | Some rvs \<Rightarrow> hvs\<lparr>hvs_roundVoteSets := (hvs_roundVoteSets hvs)(round \<mapsto>
          (if voteType = PrevoteType then rvs\<lparr>Prevotes := s\<rparr> else rvs\<lparr>Precommits := s\<rparr>))\<rparr>)"

definition HeightVoteSet_AddVote :: "env \<Rightarrow> HeightVoteSet \<Rightarrow> Vote option \<Rightarrow> bytes \<Rightarrow> (hvs_error, HeightVoteSet \<times> bool \<times> hvs_error option) res" where
  "HeightVoteSet_AddVote E hvs ovote peerID =
     (case ovote of None \<Rightarrow> Panic ''nil pointer dereference''
      | Some vote \<Rightarrow>
          if \<not> IsVoteTypeValid (v_Type vote) then Ok (hvs, False, None)
          else res_bind (getVoteSet hvs (v_Round vote) (v_Type vote)) (\<lambda>known.
            let rndz = case_option [] id (hvs_peerCatchupRounds hvs peerID)
            in if known = None \<and> \<not> length rndz < 2 then Ok (hvs, False, Some ErrGotVoteFromUnwantedRound)
               else res_bind (if known = None
                     then res_bind (addRound hvs (v_Round vote)) (\<lambda>hvs.
                            Ok (hvs\<lparr>hvs_peerCatchupRounds := (hvs_peerCatchupRounds hvs)(peerID \<mapsto> rndz @ [v_Round vote])\<rparr>))
                     else Ok hvs) (\<lambda>hvs.
                 res_bind (getVoteSet hvs (v_Round vote) (v_Type vote)) (\<lambda>voteSet.
                   res_bind (VoteSet_AddVote E voteSet (Some vote)) (\<lambda>(s, added, err).
                     Ok (putVoteSet hvs (v_Round vote) (v_Type vote) s, added, map_option VoteSetError err))))))"

definition hvs_Prevotes :: "HeightVoteSet \<Rightarrow> int32 \<Rightarrow> (hvs_error, VoteSet option) res" where
  "hvs_Prevotes hvs round = getVoteSet hvs round PrevoteType"

definition hvs_Precommits :: "HeightVoteSet \<Rightarrow> int32 \<Rightarrow> (hvs_error, VoteSet option) res" where
  "hvs_Precommits hvs round = getVoteSet hvs round PrecommitType"

text \<open>The loop of \<open>POLInfo\<close> from round \<open>r - 1\<close> down.\<close>

fun polLoop :: "HeightVoteSet \<Rightarrow> nat \<Rightarrow> (hvs_error, int32 \<times> BlockID) res" where
  "polLoop hvs 0 = Ok (-1, bid_zero)"
| "polLoop hvs (Suc r) =
     res_bind (getVoteSet hvs (int r) PrevoteType) (\<lambda>rvs.
       case TwoThirdsMajority rvs of
         (polBlockID, True) \<Rightarrow> Ok (int r, polBlockID)
       | (_, False) \<Rightarrow> polLoop hvs r)"

definition POLInfo :: "HeightVoteSet \<Rightarrow> (hvs_error, int32 \<times> BlockID) res" where
  "POLInfo hvs = polLoop hvs (nat (hvs_round hvs + 1))"

definition HeightVoteSet_SetPeerMaj23 :: "HeightVoteSet \<Rightarrow> int32 \<Rightarrow> int32 \<Rightarrow> bytes \<Rightarrow> BlockID \<Rightarrow> (hvs_error, HeightVoteSet \<times> hvs_error option) res" where
  "HeightVoteSet_SetPeerMaj23 hvs round voteType peerID blockID =
     (if \<not> IsVoteTypeValid voteType then Ok (hvs, Some (ErrSetPeerMaj23Type voteType))
      else res_bind (getVoteSet hvs round voteType) (\<lambda>voteSet.
        case voteSet of None \<Rightarrow> Ok (hvs, None)
        | Some s \<Rightarrow> res_bind (VoteSet_SetPeerMaj23 (Some s) peerID blockID) (\<lambda>(s, err).
            Ok (putVoteSet hvs round voteType s, map_option VoteSetError err))))"


section \<open>The invariant\<close>

definition roundCtx :: "HeightVoteSet \<Rightarrow> int32 \<Rightarrow> int32 \<Rightarrow> vote_ctx" where
  "roundCtx hvs round type =
     \<lparr>x_chainID = hvs_chainID hvs, x_height = hvs_height hvs, x_round = round, x_type = type, x_vals = Validators (hvs_valSet hvs)\<rparr>"

definition round_ok :: "env \<Rightarrow> HeightVoteSet \<Rightarrow> int32 \<Rightarrow> RoundVoteSet \<Rightarrow> bool" where
  "round_ok E hvs r rvs \<longleftrightarrow> vset_inv E (Prevotes rvs) \<and> ctx (Prevotes rvs) = roundCtx hvs r PrevoteType \<and>
     vset_inv E (Precommits rvs) \<and> ctx (Precommits rvs) = roundCtx hvs r PrecommitType"

text \<open>
  All rounds up to the current one are tracked. Rounds that a peer had us track are remembered, at most
  two for each peer.
\<close>

definition hvs_inv :: "env \<Rightarrow> HeightVoteSet \<Rightarrow> bool" where
  "hvs_inv E hvs \<longleftrightarrow> valset_ok (hvs_valSet hvs) \<and> hvs_height hvs \<noteq> 0 \<and> 0 \<le> hvs_round hvs \<and> hvs_round hvs < MaxInt32 \<and>
     (\<forall>r rvs. hvs_roundVoteSets hvs r = Some rvs \<longrightarrow> round_ok E hvs r rvs) \<and>
     (\<forall>r. 0 \<le> r \<and> r \<le> hvs_round hvs \<longrightarrow> hvs_roundVoteSets hvs r \<noteq> None) \<and>
     (\<forall>r. hvs_roundVoteSets hvs r \<noteq> None \<longrightarrow> -1 \<le> r \<and> r \<le> hvs_round hvs \<or> (\<exists>p rs. hvs_peerCatchupRounds hvs p = Some rs \<and> r \<in> set rs)) \<and>
     (\<forall>p rs. hvs_peerCatchupRounds hvs p = Some rs \<longrightarrow> length rs \<le> 2) \<and>
     finite (dom (hvs_peerCatchupRounds hvs))"

lemma addRound_Ok:
  assumes "valset_ok (hvs_valSet hvs)" "hvs_height hvs \<noteq> 0" "hvs_roundVoteSets hvs r = None"
  shows "\<exists>rvs. addRound hvs r = Ok (hvs\<lparr>hvs_roundVoteSets := (hvs_roundVoteSets hvs)(r \<mapsto> rvs)\<rparr>) \<and> round_ok E hvs r rvs \<and>
    vset_maj23 (Prevotes rvs) = None"
proof -
  obtain a where a: "NewVoteSet (hvs_chainID hvs) (hvs_height hvs) r PrevoteType (hvs_valSet hvs) = (Ok a :: (hvs_error, _) res)"
    "vset_inv E a" "vset_maj23 a = None" "ctx a = roundCtx hvs r PrevoteType"
    using NewVoteSet_inv [OF assms(1,2), where 'e = hvs_error] unfolding roundCtx_def by blast
  obtain b where b: "NewVoteSet (hvs_chainID hvs) (hvs_height hvs) r PrecommitType (hvs_valSet hvs) = (Ok b :: (hvs_error, _) res)"
    "vset_inv E b" "ctx b = roundCtx hvs r PrecommitType"
    using NewVoteSet_inv [OF assms(1,2), where 'e = hvs_error] unfolding roundCtx_def by blast
  show ?thesis using a b assms(3) by (intro exI [of _ "\<lparr>Prevotes = a, Precommits = b\<rparr>"]) (simp add: addRound_def round_ok_def)
qed

lemma round_ok_frame [simp]:
  "round_ok E (hvs\<lparr>hvs_roundVoteSets := m\<rparr>) r rvs = round_ok E hvs r rvs"
  "round_ok E (hvs\<lparr>hvs_round := n\<rparr>) r rvs = round_ok E hvs r rvs"
  "round_ok E (hvs\<lparr>hvs_peerCatchupRounds := p\<rparr>) r rvs = round_ok E hvs r rvs"
  by (simp_all add: round_ok_def roundCtx_def)

lemma wrap32_succ: "is_int32 r \<Longrightarrow> r < MaxInt32 \<Longrightarrow> wrap32 (r + 1) = r + 1"
  by (intro wrap32_id) (auto simp: is_int32_def)

text \<open>The loop ends unless it counts up to the largest round, and tracks the rounds it counts through.\<close>

lemma setRoundLoop_Ok:
  assumes "valset_ok (hvs_valSet hvs)" "hvs_height hvs \<noteq> 0" "is_int32 r" "round < MaxInt32" "n = nat (round + 1 - r)"
    and "\<And>r rvs. hvs_roundVoteSets hvs r = Some rvs \<Longrightarrow> round_ok E hvs r rvs"
  shows "\<exists>sets. setRoundLoop r round hvs = Some (Ok (hvs\<lparr>hvs_roundVoteSets := sets\<rparr>)) \<and>
    (\<forall>q rvs. sets q = Some rvs \<longrightarrow> round_ok E hvs q rvs) \<and>
    dom sets = dom (hvs_roundVoteSets hvs) \<union> {r..round}"
  using assms
proof (induction n arbitrary: hvs r)
  case 0
  then show ?case by (subst setRoundLoop.simps) (auto intro!: exI [of _ "hvs_roundVoteSets hvs"])
next
  case (Suc n)
  then have r: "r \<le> round" "wrap32 (r + 1) = r + 1" "is_int32 (r + 1)" "n = nat (round + 1 - (r + 1))"
    by (auto simp: wrap32_succ is_int32_def)
  obtain m where m: "(if hvs_roundVoteSets hvs r \<noteq> None then Ok hvs else addRound hvs r) = Ok (hvs\<lparr>hvs_roundVoteSets := m\<rparr>)"
    "\<And>q rvs. m q = Some rvs \<Longrightarrow> round_ok E hvs q rvs" "dom m = insert r (dom (hvs_roundVoteSets hvs))"
  proof (cases "hvs_roundVoteSets hvs r")
    case None
    from addRound_Ok [OF Suc.prems(1,2) None, of E] obtain rvs where
      "addRound hvs r = Ok (hvs\<lparr>hvs_roundVoteSets := (hvs_roundVoteSets hvs)(r \<mapsto> rvs)\<rparr>)" "round_ok E hvs r rvs" by blast
    then show thesis using None Suc.prems(6) by (intro that [of "(hvs_roundVoteSets hvs)(r \<mapsto> rvs)"]) (auto split: if_splits)
  next
    case (Some a)
    then show thesis using Suc.prems(6) by (intro that [of "hvs_roundVoteSets hvs"]) auto
  qed
  let ?h = "hvs\<lparr>hvs_roundVoteSets := m\<rparr>"
  from Suc.IH [of ?h "r + 1"] Suc.prems r m(2)
  obtain sets where "setRoundLoop (r + 1) round ?h = Some (Ok (?h\<lparr>hvs_roundVoteSets := sets\<rparr>))"
    "\<forall>q rvs. sets q = Some rvs \<longrightarrow> round_ok E hvs q rvs" "dom sets = dom m \<union> {r + 1..round}"
    by auto
  moreover have "setRoundLoop r round hvs = setRoundLoop (r + 1) round ?h"
    using r m(1) by (subst setRoundLoop.simps) simp
  ultimately show ?case using m(3) r(1) by (intro exI [of _ sets]) auto
qed

lemma SetRound_inv:
  assumes inv: "hvs_inv E hvs" and r: "hvs_round hvs \<le> round" "round < MaxInt32"
  shows "\<exists>hvs'. SetRound hvs round = Some (Ok hvs') \<and> hvs_inv E hvs' \<and> hvs_round hvs' = round"
proof -
  have h: "0 \<le> hvs_round hvs" "hvs_round hvs < MaxInt32" using inv by (auto simp: hvs_inv_def)
  then have sub: "SafeSubInt32 (hvs_round hvs) 1 = Ok (hvs_round hvs - 1)" "is_int32 (hvs_round hvs - 1)"
    by (simp_all add: SafeSubInt32_exact is_int32_def int_limits)
  obtain sets where s: "setRoundLoop (hvs_round hvs - 1) round hvs = Some (Ok (hvs\<lparr>hvs_roundVoteSets := sets\<rparr>))"
    "\<And>q rvs. sets q = Some rvs \<Longrightarrow> round_ok E hvs q rvs" "dom sets = dom (hvs_roundVoteSets hvs) \<union> {hvs_round hvs - 1..round}"
    using setRoundLoop_Ok [OF _ _ sub(2) r(2) refl, of hvs E] inv unfolding hvs_inv_def by auto
  let ?h = "hvs\<lparr>hvs_roundVoteSets := sets, hvs_round := round\<rparr>"
  have sets: "sets q \<noteq> None \<longleftrightarrow> hvs_roundVoteSets hvs q \<noteq> None \<or> hvs_round hvs - 1 \<le> q \<and> q \<le> round" for q
    using s(3) by (auto simp: domIff set_eq_iff)
  have "sets q \<noteq> None" if "0 \<le> q" "q \<le> round" for q
  proof (cases "q \<le> hvs_round hvs")
    case True
    with that inv show ?thesis unfolding sets hvs_inv_def by blast
  qed (use that sets in auto)
  moreover have "-1 \<le> q \<and> q \<le> round \<or> (\<exists>p rs. hvs_peerCatchupRounds hvs p = Some rs \<and> q \<in> set rs)" if "sets q \<noteq> None" for q
  proof (cases "hvs_roundVoteSets hvs q = None")
    case False
    then have "-1 \<le> q \<and> q \<le> hvs_round hvs \<or> (\<exists>p rs. hvs_peerCatchupRounds hvs p = Some rs \<and> q \<in> set rs)"
      using inv unfolding hvs_inv_def by blast
    then show ?thesis using r(1) by auto
  qed (use that sets h(1) in auto)
  ultimately have "hvs_inv E ?h" using inv r h(1) s(2) unfolding hvs_inv_def by simp
  then show ?thesis using s(1) sub(1) r by (simp add: SetRound_def)
qed


lemma getVoteSet_valid:
  assumes "IsVoteTypeValid type"
  shows "getVoteSet hvs r type = Ok (map_option (if type = PrevoteType then Prevotes else Precommits) (hvs_roundVoteSets hvs r))"
  using assms by (cases "hvs_roundVoteSets hvs r") (auto simp: getVoteSet_def IsVoteTypeValid_def msg_types)

lemma round_ok_sel:
  assumes "round_ok E hvs r rvs" "IsVoteTypeValid type"
  shows "vset_inv E ((if type = PrevoteType then Prevotes else Precommits) rvs)"
    "ctx ((if type = PrevoteType then Prevotes else Precommits) rvs) = roundCtx hvs r type"
  using assms by (auto simp: round_ok_def IsVoteTypeValid_def)

lemma putVoteSet_inv:
  assumes inv: "hvs_inv E hvs" and s: "vset_inv E s" "ctx s = roundCtx hvs r type" and t: "IsVoteTypeValid type"
  shows "hvs_inv E (putVoteSet hvs r type s)"
proof (cases "hvs_roundVoteSets hvs r")
  case (Some rvs)
  then have "round_ok E hvs r rvs" using inv by (simp add: hvs_inv_def)
  then have "round_ok E hvs r (if type = PrevoteType then rvs\<lparr>Prevotes := s\<rparr> else rvs\<lparr>Precommits := s\<rparr>)"
    using s t by (auto simp: round_ok_def IsVoteTypeValid_def)
  then show ?thesis using inv Some by (auto simp: hvs_inv_def putVoteSet_def)
qed (use inv in \<open>simp add: putVoteSet_def\<close>)

text \<open>Tracking a round for a peer.\<close>

lemma catchup_inv:
  assumes inv: "hvs_inv E hvs" and new: "hvs_roundVoteSets hvs r = None"
    and len: "length (case_option [] id (hvs_peerCatchupRounds hvs peer)) < 2"
  shows "\<exists>hvs'. addRound hvs r = Ok hvs' \<and>
    hvs_inv E (hvs'\<lparr>hvs_peerCatchupRounds := (hvs_peerCatchupRounds hvs')(peer \<mapsto> case_option [] id (hvs_peerCatchupRounds hvs peer) @ [r])\<rparr>) \<and>
    hvs_roundVoteSets hvs' r \<noteq> None \<and> hvs_peerCatchupRounds hvs' = hvs_peerCatchupRounds hvs"
proof -
  let ?rs = "case_option [] id (hvs_peerCatchupRounds hvs peer) @ [r]"
  obtain rvs where rvs: "addRound hvs r = Ok (hvs\<lparr>hvs_roundVoteSets := (hvs_roundVoteSets hvs)(r \<mapsto> rvs)\<rparr>)" "round_ok E hvs r rvs"
    using addRound_Ok [of hvs r E] inv new by (auto simp: hvs_inv_def)
  let ?h = "hvs\<lparr>hvs_roundVoteSets := (hvs_roundVoteSets hvs)(r \<mapsto> rvs), hvs_peerCatchupRounds := (hvs_peerCatchupRounds hvs)(peer \<mapsto> ?rs)\<rparr>"
  have "-1 \<le> q \<and> q \<le> hvs_round hvs \<or> (\<exists>p rs. hvs_peerCatchupRounds ?h p = Some rs \<and> q \<in> set rs)" if "hvs_roundVoteSets ?h q \<noteq> None" for q
  proof (cases "q = r")
    case True
    then show ?thesis by (intro disjI2 exI [of _ peer] exI [of _ ?rs]) simp
  next
    case False
    with that inv have "-1 \<le> q \<and> q \<le> hvs_round hvs \<or> (\<exists>p rs. hvs_peerCatchupRounds hvs p = Some rs \<and> q \<in> set rs)" by (simp add: hvs_inv_def)
    then show ?thesis
    proof (elim disjE exE conjE)
      fix p rs assume "hvs_peerCatchupRounds hvs p = Some rs" "q \<in> set rs"
      then show ?thesis
        by (intro disjI2 exI [of _ p] exI [of _ "if p = peer then ?rs else rs"]) auto
    qed simp
  qed
  moreover have "length rs \<le> 2" if "hvs_peerCatchupRounds ?h p = Some rs" for p rs
    using that inv len by (auto simp: hvs_inv_def split: if_splits)
  ultimately have "hvs_inv E ?h" using inv rvs(2) by (auto simp: hvs_inv_def)
  with rvs(1) show ?thesis by (intro exI [of _ "hvs\<lparr>hvs_roundVoteSets := (hvs_roundVoteSets hvs)(r \<mapsto> rvs)\<rparr>"]) simp
qed

lemma tracked_AddVote:
  assumes inv: "hvs_inv E hvs" and r: "hvs_roundVoteSets hvs (v_Round vote) = Some rvs" and msg: "vote_msg_ok E vote"
  shows "\<exists>s added err. VoteSet_AddVote E (Some ((if v_Type vote = PrevoteType then Prevotes else Precommits) rvs)) (Some vote) =
      (Ok (s, added, err) :: (hvs_error, _) res) \<and> hvs_inv E (putVoteSet hvs (v_Round vote) (v_Type vote) s)"
proof -
  have t: "IsVoteTypeValid (v_Type vote)" using msg Vote_ValidateBasic_Ok(1) by (auto simp: vote_msg_ok_def)
  have "round_ok E hvs (v_Round vote) rvs" using inv r by (simp add: hvs_inv_def)
  note ok = round_ok_sel [OF this t]
  from addVote_inv [OF ok(1) msg, where 'e = hvs_error] ok(2) putVoteSet_inv [OF inv _ _ t] show ?thesis
    by (fastforce simp: VoteSet_AddVote_def)
qed

lemma HeightVoteSet_AddVote_inv:
  assumes inv: "hvs_inv E hvs" and msg: "vote_msg_ok E vote"
  shows "\<exists>hvs' added err. HeightVoteSet_AddVote E hvs (Some vote) peer = Ok (hvs', added, err) \<and> hvs_inv E hvs'"
proof -
  have t: "IsVoteTypeValid (v_Type vote)" using msg Vote_ValidateBasic_Ok(1) by (auto simp: vote_msg_ok_def)
  let ?rs = "case_option [] id (hvs_peerCatchupRounds hvs peer)" and ?r = "v_Round vote"
  show ?thesis
  proof (cases "hvs_roundVoteSets hvs ?r")
    case (Some rvs)
    with tracked_AddVote [OF inv Some msg] t show ?thesis
      by (auto simp: HeightVoteSet_AddVote_def getVoteSet_valid Let_def)
  next
    case None
    show ?thesis
    proof (cases "length ?rs < 2")
      case True
      obtain h where h: "addRound hvs ?r = Ok h" "hvs_roundVoteSets h ?r \<noteq> None" "hvs_peerCatchupRounds h = hvs_peerCatchupRounds hvs"
        "hvs_inv E (h\<lparr>hvs_peerCatchupRounds := (hvs_peerCatchupRounds h)(peer \<mapsto> ?rs @ [?r])\<rparr>)" (is "hvs_inv E ?h")
        using catchup_inv [OF inv None True] by blast
      then obtain rvs where "hvs_roundVoteSets ?h ?r = Some rvs" by auto
      with tracked_AddVote [OF h(4) this msg] t h(1) None True show ?thesis
        by (auto simp: HeightVoteSet_AddVote_def getVoteSet_valid Let_def)
    next
      case False
      with None t inv show ?thesis by (auto simp: HeightVoteSet_AddVote_def getVoteSet_valid Let_def)
    qed
  qed
qed

lemma HeightVoteSet_SetPeerMaj23_inv:
  assumes inv: "hvs_inv E hvs"
  shows "\<exists>hvs' err. HeightVoteSet_SetPeerMaj23 hvs r type peer b = Ok (hvs', err) \<and> hvs_inv E hvs'"
proof (cases "IsVoteTypeValid type \<and> hvs_roundVoteSets hvs r \<noteq> None")
  case True
  then obtain rvs where r: "hvs_roundVoteSets hvs r = Some rvs" and t: "IsVoteTypeValid type" by auto
  have "round_ok E hvs r rvs" using inv r by (simp add: hvs_inv_def)
  note ok = round_ok_sel [OF this t]
  obtain s err where s: "VoteSet_SetPeerMaj23 (Some ((if type = PrevoteType then Prevotes else Precommits) rvs)) peer b = (Ok (s, err) :: (hvs_error, _) res)"
    "vset_inv E s" "ctx s = roundCtx hvs r type"
    using SetPeerMaj23_inv [OF ok(1), of peer b, where 'e = hvs_error] ok(2) by auto
  from putVoteSet_inv [OF inv s(2,3) t] r t s(1) show ?thesis
    by (simp add: HeightVoteSet_SetPeerMaj23_def getVoteSet_valid)
next
  case False
  with inv show ?thesis by (auto simp: HeightVoteSet_SetPeerMaj23_def getVoteSet_valid)
qed


lemma NewHeightVoteSet_inv:
  assumes "valset_ok vals" "height \<noteq> 0"
  shows "\<exists>hvs. NewHeightVoteSet chainID height vals = Ok hvs \<and> hvs_inv E hvs \<and> hvs_round hvs = 0"
proof -
  let ?h = "\<lparr>hvs_chainID = chainID, hvs_height = height, hvs_valSet = vals, hvs_round = 0,
       hvs_roundVoteSets = Map.empty, hvs_peerCatchupRounds = Map.empty\<rparr>"
  from addRound_Ok [of ?h 0 E] assms show ?thesis
    by (auto simp: NewHeightVoteSet_def HeightVoteSet_Reset_def hvs_inv_def round_ok_def roundCtx_def int_limits split: if_splits)
qed

section \<open>Runs\<close>

text \<open>
  Votes and claims come from peers, who are not trusted; a vote that does not validate is dropped by the reactor before it
  gets here. The consensus state only moves the round up, and not to the largest \<open>int32\<close>, where \<open>SetRound\<close> does not return.
\<close>

datatype hvs_op = PeerVote Vote bytes | PeerClaim int32 int32 bytes BlockID | MoveRound int32

definition hvs_step :: "env \<Rightarrow> HeightVoteSet \<Rightarrow> hvs_op \<Rightarrow> (hvs_error, HeightVoteSet) res" where
  "hvs_step E hvs op =
     (case op of
        PeerVote vote peer \<Rightarrow>
          if vote_msg_ok E vote then res_bind (HeightVoteSet_AddVote E hvs (Some vote) peer) (\<lambda>(hvs, _). Ok hvs) else Ok hvs
      | PeerClaim r type peer b \<Rightarrow> res_bind (HeightVoteSet_SetPeerMaj23 hvs r type peer b) (\<lambda>(hvs, _). Ok hvs)
      | MoveRound r \<Rightarrow>
          if hvs_round hvs \<le> r \<and> r < MaxInt32
          then (case SetRound hvs r of Some res \<Rightarrow> res | None \<Rightarrow> Panic ''SetRound() does not return'')
          else Ok hvs)"

lemma hvs_step_Ok:
  assumes "hvs_inv E hvs"
  shows "\<exists>hvs'. hvs_step E hvs op = Ok hvs' \<and> hvs_inv E hvs'"
proof (cases op)
  case (PeerVote vote peer)
  then show ?thesis using HeightVoteSet_AddVote_inv [OF assms, of vote peer] assms
    by (cases "vote_msg_ok E vote") (auto simp: hvs_step_def)
next
  case (PeerClaim r type peer b)
  then show ?thesis using HeightVoteSet_SetPeerMaj23_inv [OF assms, of r type peer b] by (auto simp: hvs_step_def)
next
  case (MoveRound r)
  then show ?thesis using SetRound_inv [OF assms, of r] assms
    by (cases "hvs_round hvs \<le> r \<and> r < MaxInt32") (auto simp: hvs_step_def)
qed

interpretation hvs: safe_machine "hvs_step E" "\<lambda>hvs. hvs_inv E hvs"
proof unfold_locales
  fix s s' op assume "hvs_inv E s"
  from hvs_step_Ok [OF this, of op] show "hvs_step E s op = Ok s' \<Longrightarrow> hvs_inv E s'" "\<not> is_panic (hvs_step E s op)"
    by auto
qed

lemma hvs_run:
  assumes "valset_ok vals" "height \<noteq> 0"
  shows "\<not> is_panic (res_bind (NewHeightVoteSet chainID height vals) (\<lambda>hvs. res_fold (hvs_step E) hvs ops))"
    "res_bind (NewHeightVoteSet chainID height vals) (\<lambda>hvs. res_fold (hvs_step E) hvs ops) = Ok hvs \<Longrightarrow> hvs_inv E hvs"
proof -
  obtain h where h: "NewHeightVoteSet chainID height vals = Ok h" "hvs_inv E h" using NewHeightVoteSet_inv [OF assms] by blast
  show "\<not> is_panic (res_bind (NewHeightVoteSet chainID height vals) (\<lambda>hvs. res_fold (hvs_step E) hvs ops))"
    using hvs.run_safe [of E h ops] h by auto
  show "res_bind (NewHeightVoteSet chainID height vals) (\<lambda>hvs. res_fold (hvs_step E) hvs ops) = Ok hvs \<Longrightarrow> hvs_inv E hvs"
    using hvs.run_inv [of E h ops hvs] h by auto
qed

section \<open>Bounds, termination and the last proof of lock\<close>

lemma card_catchup:
  assumes "finite (dom m)" "\<And>p rs. m p = Some rs \<Longrightarrow> length rs \<le> n"
  shows "finite {r. \<exists>p rs. m p = Some rs \<and> r \<in> set rs} \<and> card {r. \<exists>p rs. m p = Some rs \<and> r \<in> set rs} \<le> n * card (dom m)"
proof -
  have eq: "{r. \<exists>p rs. m p = Some rs \<and> r \<in> set rs} = (\<Union>p \<in> dom m. set (the (m p)))" by fastforce
  have "card (\<Union>p \<in> dom m. set (the (m p))) \<le> (\<Sum>p \<in> dom m. card (set (the (m p))))" by (rule card_UN_le [OF assms(1)])
  also have "\<dots> \<le> (\<Sum>p \<in> dom m. n)"
    using assms(2) by (intro sum_mono) (auto intro: order_trans [OF card_length])
  finally show ?thesis unfolding eq using assms(1) by (simp add: mult.commute)
qed

lemma tracked_card:
  assumes inv: "hvs_inv E hvs"
  shows "card (dom (hvs_roundVoteSets hvs)) \<le> nat (hvs_round hvs + 2) + 2 * card (dom (hvs_peerCatchupRounds hvs))"
proof -
  let ?C = "{r. \<exists>p rs. hvs_peerCatchupRounds hvs p = Some rs \<and> r \<in> set rs}"
  have "dom (hvs_roundVoteSets hvs) \<subseteq> {-1..hvs_round hvs} \<union> ?C" using inv unfolding hvs_inv_def dom_def by fastforce
  moreover have C: "finite ?C" "card ?C \<le> 2 * card (dom (hvs_peerCatchupRounds hvs))"
    using card_catchup [of "hvs_peerCatchupRounds hvs" 2] inv by (simp_all add: hvs_inv_def)
  ultimately have "card (dom (hvs_roundVoteSets hvs)) \<le> card ({-1..hvs_round hvs} \<union> ?C)" by (intro card_mono) simp_all
  also have "\<dots> \<le> card {-1..hvs_round hvs} + card ?C" by (rule card_Un_le)
  finally show ?thesis using C(2) by simp
qed


text \<open>With the largest round the loop of \<open>SetRound\<close> never returns.\<close>

lemma setRoundLoop_max:
  assumes "setRoundLoop r MaxInt32 hvs = Some x" "is_int32 r" "valset_ok (hvs_valSet hvs)" "hvs_height hvs \<noteq> 0"
  shows False
proof -
  have "round = MaxInt32 \<longrightarrow> is_int32 r \<longrightarrow> valset_ok (hvs_valSet hvs) \<longrightarrow> hvs_height hvs \<noteq> 0 \<longrightarrow> False"
    if "setRoundLoop r round hvs = Some x" for r round hvs x
    using that
  proof (induction rule: setRoundLoop.raw_induct [rotated, consumes 1, case_names step])
    case (step loop r round hvs y)
    show ?case
    proof (intro impI)
      assume a: "round = MaxInt32" "is_int32 r" "valset_ok (hvs_valSet hvs)" "hvs_height hvs \<noteq> 0"
      then have r: "r \<le> round" "is_int32 (wrap32 (r + 1))" by (simp add: is_int32_def) simp
      obtain m where m: "(if hvs_roundVoteSets hvs r \<noteq> None then Ok hvs else addRound hvs r) = Ok (hvs\<lparr>hvs_roundVoteSets := m\<rparr>)"
        using addRound_Ok [OF a(3,4), of r] by (cases "hvs_roundVoteSets hvs r") (auto intro: that [of "hvs_roundVoteSets hvs"])
      have "loop (wrap32 (r + 1)) round (hvs\<lparr>hvs_roundVoteSets := m\<rparr>) = Some y"
        using step(2) r(1) m by simp
      from step(1) [OF this] a r(2) show False by simp
    qed
  qed
  then show False using assms by blast
qed

lemma polLoop_Ok:
  "\<exists>r b. polLoop hvs n = Ok (r, b) \<and>
     (if r = -1 then \<forall>q < int n. 0 \<le> q \<longrightarrow> (\<forall>rvs. hvs_roundVoteSets hvs q = Some rvs \<longrightarrow> vset_maj23 (Prevotes rvs) = None)
      else 0 \<le> r \<and> r < int n \<and> (\<exists>rvs. hvs_roundVoteSets hvs r = Some rvs \<and> vset_maj23 (Prevotes rvs) = Some b) \<and>
        (\<forall>q < int n. r < q \<longrightarrow> (\<forall>rvs. hvs_roundVoteSets hvs q = Some rvs \<longrightarrow> vset_maj23 (Prevotes rvs) = None)))"
proof (induction n)
  case (Suc n)
  have get: "getVoteSet hvs (int n) PrevoteType = Ok (map_option Prevotes (hvs_roundVoteSets hvs (int n)))"
    by (simp add: getVoteSet_valid IsVoteTypeValid_def)
  show ?case
  proof (cases "\<exists>rvs b. hvs_roundVoteSets hvs (int n) = Some rvs \<and> vset_maj23 (Prevotes rvs) = Some b")
    case True
    then obtain rvs b where rvs: "hvs_roundVoteSets hvs (int n) = Some rvs" "vset_maj23 (Prevotes rvs) = Some b" by blast
    then have "polLoop hvs (Suc n) = Ok (int n, b)" by (simp add: get TwoThirdsMajority_def)
    with rvs show ?thesis by auto
  next
    case False
    then have "snd (TwoThirdsMajority (map_option Prevotes (hvs_roundVoteSets hvs (int n)))) = False"
      by (auto simp: TwoThirdsMajority_def split: option.splits)
    then have "polLoop hvs (Suc n) = polLoop hvs n" by (auto simp: get split: prod.splits)
    moreover have "q < int (Suc n) \<longleftrightarrow> q < int n \<or> q = int n" for q by auto
    ultimately show ?thesis using Suc False by fastforce
  qed
qed simp


section \<open>Properties\<close>

definition demo_hvs :: HeightVoteSet where
  "demo_hvs = (case res_bind (NewHeightVoteSet [] 5 voter_set) (\<lambda>hvs. res_fold (hvs_step sample_env) hvs
      [MoveRound 1, PeerVote (voter_vote PrevoteType voter_block) [1]]) of Ok hvs \<Rightarrow> hvs | _ \<Rightarrow> undefined)"

lemma hvs_total_run:
  assumes "valset_ok vals" "height \<noteq> 0"
  shows "\<exists>hvs. res_bind (NewHeightVoteSet chainID height vals) (\<lambda>hvs. res_fold (hvs_step E) hvs ops) = Ok hvs"
proof -
  obtain h where h: "NewHeightVoteSet chainID height vals = Ok h" "hvs_inv E h" using NewHeightVoteSet_inv [OF assms] by blast
  from h(2) have "\<exists>hvs. res_fold (hvs_step E) h ops = Ok hvs"
  proof (induction ops arbitrary: h)
    case (Cons op ops)
    from hvs_step_Ok [OF Cons.prems, of op] Cons.IH show ?case by auto
  qed simp
  with h show ?thesis by simp
qed

lemma demo_hvs_run:
  "res_bind (NewHeightVoteSet [] 5 voter_set) (\<lambda>hvs. res_fold (hvs_step sample_env) hvs
      [MoveRound 1, PeerVote (voter_vote PrevoteType voter_block) [1]]) = Ok demo_hvs"
  using hvs_total_run [OF voter_set_ok, of 5 "[]" sample_env "[MoveRound 1, PeerVote (voter_vote PrevoteType voter_block) [1]]"]
  unfolding demo_hvs_def by (auto simp del: res_fold.simps)

text \<open>
  C14: The memory for the votes of a height is bounded: after any votes and claims of peers and
  moves of the round, no operation panics, all rounds up to the current one are tracked, and the
  number of tracked rounds is at most the rounds so far, and round -1, and two for each peer that sent votes for
  other rounds.
\<close>

theorem height_votes_bounded:
  assumes "valset_ok vals" "height \<noteq> 0"
  shows "\<exists>hvs. res_bind (NewHeightVoteSet chainID height vals) (\<lambda>hvs. res_fold (hvs_step E) hvs ops) = Ok hvs \<and>
    {0..hvs_round hvs} \<subseteq> dom (hvs_roundVoteSets hvs) \<and>
    card (dom (hvs_roundVoteSets hvs)) \<le> nat (hvs_round hvs + 2) + 2 * card (dom (hvs_peerCatchupRounds hvs))"
proof -
  obtain hvs where run: "res_bind (NewHeightVoteSet chainID height vals) (\<lambda>hvs. res_fold (hvs_step E) hvs ops) = Ok hvs"
    using hvs_total_run [OF assms] by blast
  from hvs_run(2) [OF assms this] have inv: "hvs_inv E hvs" .
  then have "{0..hvs_round hvs} \<subseteq> dom (hvs_roundVoteSets hvs)" by (auto simp: hvs_inv_def)
  with run tracked_card [OF inv] show ?thesis by blast
qed

theorem height_votes_bounded_witness:
  "\<exists>hvs. res_bind (NewHeightVoteSet [] 5 voter_set) (\<lambda>hvs. res_fold (hvs_step sample_env) hvs
      [MoveRound 1, PeerVote (voter_vote PrevoteType voter_block) [1]]) = Ok hvs \<and>
    {0..hvs_round hvs} \<subseteq> dom (hvs_roundVoteSets hvs) \<and>
    card (dom (hvs_roundVoteSets hvs)) \<le> nat (hvs_round hvs + 2) + 2 * card (dom (hvs_peerCatchupRounds hvs))"
  by (rule height_votes_bounded [OF voter_set_ok]) simp

text \<open>
  C15: \<open>SetRound\<close> to a later round returns, except for the largest \<open>int32\<close>, for which its loop counter
  wraps around and it does not return.
\<close>

theorem set_round_terminates:
  assumes "valset_ok vals" "height \<noteq> 0" "is_int32 round"
    and "res_bind (NewHeightVoteSet chainID height vals) (\<lambda>hvs. res_fold (hvs_step E) hvs ops) = Ok hvs" "hvs_round hvs \<le> round"
  shows "(\<exists>hvs'. SetRound hvs round = Some (Ok hvs')) = (round \<noteq> MaxInt32) \<and> (SetRound hvs round = None) = (round = MaxInt32)"
proof -
  have inv: "hvs_inv E hvs" using hvs_run(2) [OF assms(1,2,4)] .
  have "SetRound hvs MaxInt32 = None" if "round = MaxInt32"
  proof -
    have h: "0 \<le> hvs_round hvs" "hvs_round hvs < MaxInt32" using inv by (auto simp: hvs_inv_def)
    then have sub: "SafeSubInt32 (hvs_round hvs) 1 = Ok (hvs_round hvs - 1)" "is_int32 (hvs_round hvs - 1)"
      by (simp_all add: SafeSubInt32_exact is_int32_def int_limits)
    have "setRoundLoop (hvs_round hvs - 1) MaxInt32 hvs = None"
      using setRoundLoop_max [OF _ sub(2)] inv by (cases "setRoundLoop (hvs_round hvs - 1) MaxInt32 hvs") (auto simp: hvs_inv_def)
    then show ?thesis using sub(1) h by (simp add: SetRound_def)
  qed
  moreover have "\<exists>hvs'. SetRound hvs round = Some (Ok hvs')" if "round \<noteq> MaxInt32"
    using SetRound_inv [OF inv assms(5)] that assms(3) by (auto simp: is_int32_def)
  ultimately show ?thesis by (cases "round = MaxInt32"; fastforce)
qed

theorem set_round_terminates_witness:
  "(\<exists>hvs'. SetRound demo_hvs 7 = Some (Ok hvs')) \<and> SetRound demo_hvs MaxInt32 = None"
proof -
  have r: "hvs_round demo_hvs = 1" by code_simp
  have "is_int32 7" "is_int32 MaxInt32" "(7::int) \<noteq> MaxInt32" "hvs_round demo_hvs \<le> 7" "hvs_round demo_hvs \<le> MaxInt32"
    by (simp_all add: is_int32_def int_limits r)
  then show ?thesis
    using set_round_terminates [OF voter_set_ok _ _ demo_hvs_run, of 7] set_round_terminates [OF voter_set_ok _ _ demo_hvs_run, of MaxInt32] by simp
qed

text \<open>
  C13: \<open>POLInfo\<close> looks at the rounds from 0 to the current one only. It returns the last of them in which a block or nil has a
  majority of prevotes, together with this block, or round -1 if none of them has a majority; validators with more than two thirds of
  the power have signed prevotes for the block in this round. A majority in a later round, which votes of peers for
  catch-up rounds can make, is not reported.
\<close>

theorem pol_info_last:
  assumes "valset_ok vals" "height \<noteq> 0"
    and "res_bind (NewHeightVoteSet chainID height vals) (\<lambda>hvs. res_fold (hvs_step E) hvs ops) = Ok hvs"
  shows "\<exists>r b. POLInfo hvs = Ok (r, b) \<and>
    (\<forall>q rvs. max 0 (r + 1) \<le> q \<and> q \<le> hvs_round hvs \<longrightarrow> hvs_roundVoteSets hvs q = Some rvs \<longrightarrow> \<not> HasTwoThirdsMajority (Some (Prevotes rvs))) \<and>
    (r \<noteq> -1 \<longrightarrow> 0 \<le> r \<and> r \<le> hvs_round hvs \<and>
      (\<exists>rvs. hvs_roundVoteSets hvs r = Some rvs \<and> TwoThirdsMajority (Some (Prevotes rvs)) = (b, True)) \<and>
      2 * powers (Validators (hvs_valSet hvs)) < 3 * powerOf (Validators (hvs_valSet hvs)) (\<lambda>i. \<exists>v. v_BlockID v = b \<and>
        good_vote E (roundCtx hvs r PrevoteType) i v))"
proof -
  have inv: "hvs_inv E hvs" using hvs_run(2) [OF assms] .
  then have n: "int (nat (hvs_round hvs + 1)) = hvs_round hvs + 1" by (simp add: hvs_inv_def)
  obtain r b where pol: "POLInfo hvs = Ok (r, b)" and rb: "if r = -1 then \<forall>q < hvs_round hvs + 1. 0 \<le> q \<longrightarrow> (\<forall>rvs. hvs_roundVoteSets hvs q = Some rvs \<longrightarrow> vset_maj23 (Prevotes rvs) = None)
      else 0 \<le> r \<and> r < hvs_round hvs + 1 \<and> (\<exists>rvs. hvs_roundVoteSets hvs r = Some rvs \<and> vset_maj23 (Prevotes rvs) = Some b) \<and>
        (\<forall>q < hvs_round hvs + 1. r < q \<longrightarrow> (\<forall>rvs. hvs_roundVoteSets hvs q = Some rvs \<longrightarrow> vset_maj23 (Prevotes rvs) = None))"
    using polLoop_Ok [of hvs "nat (hvs_round hvs + 1)"] unfolding POLInfo_def n by blast
  have signed: "2 * powers (Validators (hvs_valSet hvs)) < 3 * powerOf (Validators (hvs_valSet hvs)) (\<lambda>i. \<exists>v. v_BlockID v = b \<and>
        good_vote E (roundCtx hvs r PrevoteType) i v)" if r: "r \<noteq> -1"
  proof -
    obtain rvs where rvs: "hvs_roundVoteSets hvs r = Some rvs" "vset_maj23 (Prevotes rvs) = Some b" using rb r by auto
    have ok: "vset_inv E (Prevotes rvs)" "ctx (Prevotes rvs) = roundCtx hvs r PrevoteType"
      using inv rvs(1) by (auto simp: hvs_inv_def round_ok_def)
    have vals: "Validators (vset_valSet (Prevotes rvs)) = Validators (hvs_valSet hvs)" using ok(2) by (simp add: ctx_def roundCtx_def)
    have "powerOf (Validators (hvs_valSet hvs)) (\<lambda>i. \<exists>v. vset_votes (Prevotes rvs) ! i = Some v \<and> v_BlockID v = b \<and> good_vote E (roundCtx hvs r PrevoteType) i v) \<le>
        powerOf (Validators (hvs_valSet hvs)) (\<lambda>i. \<exists>v. v_BlockID v = b \<and> good_vote E (roundCtx hvs r PrevoteType) i v)"
      using inv by (intro powerOf_mono) (auto simp: hvs_inv_def valset_ok_def)
    with maj_signed [OF ok(1) rvs(2)] show ?thesis unfolding vals ok(2) by linarith
  qed
  show ?thesis using pol rb signed by (intro exI [of _ r] exI [of _ b]) (auto simp: HasTwoThirdsMajority_def TwoThirdsMajority_iff split: if_splits)
qed

theorem pol_info_last_witness:
  "\<exists>r b. POLInfo demo_hvs = Ok (r, b) \<and> r = 0 \<and> b = voter_block \<and>
    2 * powers (Validators (hvs_valSet demo_hvs)) < 3 * powerOf (Validators (hvs_valSet demo_hvs)) (\<lambda>i. \<exists>v. v_BlockID v = b \<and>
        good_vote sample_env (roundCtx demo_hvs r PrevoteType) i v)"
proof -
  have "POLInfo demo_hvs = Ok (0, voter_block)" by code_simp
  then show ?thesis using pol_info_last [OF voter_set_ok _ demo_hvs_run] by auto
qed

text \<open>
  A majority in a round after the current one is not found, although the comment on \<open>POLInfo\<close> speaks of the last round without a
  bound: one peer sends a prevote for round 3 by the only validator while the current round is 0.
\<close>

definition catchup_vote :: Vote where
  "catchup_vote =
     (let v = (voter_vote PrevoteType voter_block)\<lparr>v_Round := 3\<rparr>
      in v\<lparr>v_Signature := sample_sig voter_key (case (VoteSignBytes sample_env [] v :: (vote_error, bytes) res) of Ok sb \<Rightarrow> sb | _ \<Rightarrow> [])\<rparr>)"

lemma pol_ignores_catchup:
  "case res_bind (NewHeightVoteSet [] 5 voter_set) (\<lambda>hvs. res_fold (hvs_step sample_env) hvs [PeerVote catchup_vote [1]]) of
     Ok hvs \<Rightarrow> POLInfo hvs = Ok (-1, bid_zero) \<and>
       (case hvs_roundVoteSets hvs 3 of Some rvs \<Rightarrow> TwoThirdsMajority (Some (Prevotes rvs)) = (voter_block, True) | None \<Rightarrow> False)
   | _ \<Rightarrow> False"
  by code_simp

end
