(* ===== verification/ProtoIO.thy ===== *)
theory ProtoIO
  imports Wire
begin

text \<open>
  Reading length-delimited messages (\<open>internal/libs/protoio/reader.go\<close>). The decoder of the message,
  which is generated code, is a parameter.
\<close>

datatype read_error = ErrEOF | ErrVarintOverflow | ErrMessageLength nat | ErrMessageTooBig nat nat | ErrUnexpectedEOF | ErrUnmarshal

text \<open>\<open>binary.ReadUvarint\<close>, after \<open>i\<close> bytes: at most ten bytes, of which the last is at most one.\<close>

fun readUvarint :: "nat \<Rightarrow> bytes \<Rightarrow> (read_error, nat \<times> bytes) res" where
  "readUvarint i [] = Err (if i = 0 then ErrEOF else ErrUnexpectedEOF)"
| "readUvarint i (b # bs) =
     (if b < 0x80 then (if i = 9 \<and> b > 1 then Err ErrVarintOverflow else Ok (unat b, bs))
      else if i \<ge> 9 then Err ErrVarintOverflow
      else res_bind (readUvarint (Suc i) bs) (\<lambda>(x, r). Ok (unat (b AND 0x7f) + 128 * x, r)))"

definition readMsg :: "(bytes \<Rightarrow> 'm option) \<Rightarrow> nat \<Rightarrow> bytes \<Rightarrow> (read_error, 'm) res" where
  "readMsg unmarshal maxSize r =
     res_bind (readUvarint 0 r) (\<lambda>(l, rest).
       let n = length r - length rest
       in if int l \<ge> MaxInt64 \<or> wrap64 (int n + int l) < 0 then Err (ErrMessageLength l)
          else if l > maxSize then Err (ErrMessageTooBig l maxSize)
          else if length rest < l then Err ErrUnexpectedEOF
          else (case unmarshal (take l rest) of None \<Rightarrow> Err ErrUnmarshal | Some m \<Rightarrow> Ok m))"

definition UnmarshalDelimited :: "(bytes \<Rightarrow> 'm option) \<Rightarrow> bytes \<Rightarrow> (read_error, 'm) res" where
  "UnmarshalDelimited unmarshal data = readMsg unmarshal (length data) data"

lemma readUvarint_put:
  assumes "n < 2 ^ (64 - 7 * i)" "i \<le> 9"
  shows "readUvarint i (putUvarint n @ xs) = Ok (n, xs)"
  using assms
proof (induction n arbitrary: i rule: putUvarint.induct)
  case (1 n)
  show ?case
  proof (cases "n < 128")
    case True
    then have "unat (word_of_nat n :: byte) = n" by (simp add: unat_of_nat)
    moreover have "(word_of_nat n :: byte) < 0x80" using True by (simp add: word_less_nat_alt unat_of_nat)
    moreover have "i = 9 \<Longrightarrow> n < 2" using 1(2) by simp
    then have "i = 9 \<Longrightarrow> \<not> (1 :: byte) < word_of_nat n" using True by (simp add: word_less_nat_alt unat_of_nat)
    ultimately show ?thesis using True by (simp add: putUvarint.simps [of n])
  next
    case False
    have i: "i < 9"
    proof (rule ccontr)
      assume "\<not> i < 9"
      with 1(2,3) False show False by simp
    qed
    then have "64 - 7 * i = 7 + (64 - 7 * Suc i)" by simp
    then have "(2::nat) ^ (64 - 7 * i) = 2 ^ 7 * 2 ^ (64 - 7 * Suc i)" by (simp only: power_add)
    then have "(2::nat) ^ (64 - 7 * i) = 128 * 2 ^ (64 - 7 * Suc i)" by simp
    then have "n div 128 < 2 ^ (64 - 7 * Suc i)" using 1(2) by (simp add: div_less_iff_less_mult mult.commute)
    from 1(1) [OF _ this] False i have "readUvarint (Suc i) (putUvarint (n div 128) @ xs) = Ok (n div 128, xs)" by simp
    moreover define b where "b = (word_of_nat (n mod 128 + 128) :: byte)"
    moreover have u: "unat b = n mod 128 + 128"
      unfolding b_def unat_of_nat by (rule mod_less) (use mod_less_divisor [of 128 n] in simp)
    then have "\<not> b < 0x80" by (simp add: word_less_nat_alt)
    moreover have "b AND 0x7f = take_bit 7 b" by (simp add: take_bit_eq_mask mask_eq_exp_minus_1)
    then have "unat (b AND 0x7f) = take_bit 7 (unat b)" by (simp only: unsigned_take_bit_eq)
    then have "unat (b AND 0x7f) = n mod 128" unfolding u by (simp add: take_bit_eq_mod)
    ultimately show ?thesis using False i by (simp add: putUvarint.simps [of n])
  qed
qed

lemma UnmarshalDelimited_written:
  assumes "varintWrittenBytes (length acc) acc = Ok data" "int (length data) < MaxInt64"
  shows "UnmarshalDelimited unmarshal data = (case unmarshal acc of None \<Rightarrow> Err ErrUnmarshal | Some m \<Rightarrow> Ok m)"
proof -
  have d: "data = putUvarint (length acc) @ acc" using assms(1) by (simp add: varintWrittenBytes_def)
  then have "int (length acc) < MaxInt64" "length (putUvarint (length acc)) + length acc = length data" using assms(2) by auto
  moreover have "length acc < 2 ^ (64 - 7 * 0)" using calculation by (simp add: int_limits)
  from readUvarint_put [OF this, of acc] have "readUvarint 0 data = Ok (length acc, acc)" by (simp add: d)
  moreover have "wrap64 (int (length data)) = int (length data)" using assms(2) by (intro wrap64_id) (simp add: is_int64_def int_limits)
  ultimately show ?thesis
    by (simp add: UnmarshalDelimited_def readMsg_def Let_def flip: of_nat_add)
qed

end
