(* ===== verification/PrivVal.thy ===== *)
theory PrivVal
  imports Votes ProtoIO
begin

text \<open>
  The file-based signer of a validator (\<open>privval/file.go\<close>): it keeps the height, round and step it
  signed last, with the sign bytes and the signature, in a file that is written before a signature leaves
  it, and refuses to sign anything that conflicts with it. The files are a map from paths to the
  structs they encode; a JSON file that holds another struct does not decode.
\<close>

datatype pv_error =
    ErrHeightRegression int int | ErrRoundRegression int int int | ErrStepRegression int int int int | ErrNoSignBytes
  | ErrConflictingData | ErrSign | ErrReadFile bytes | ErrDecodeFile bytes | ErrKeyType string

definition stepNone :: int where "stepNone = 0"
definition stepPropose :: int where "stepPropose = 1"
definition stepPrevote :: int where "stepPrevote = 2"
definition stepPrecommit :: int where "stepPrecommit = 3"

lemmas step_defs = stepNone_def stepPropose_def stepPrevote_def stepPrecommit_def

definition voteToStep :: "Vote \<Rightarrow> (pv_error, int) res" where
  "voteToStep vote =
     (if v_Type vote = PrevoteType then Ok stepPrevote
      else if v_Type vote = PrecommitType then Ok stepPrecommit
      else Panic ''Unknown vote type'')"

section \<open>The state of the signer\<close>

text \<open>The interface of a private key; its methods are those of a key of some type.\<close>

record PrivKey =
  pk_PubKey :: PubKey
  pk_Sign :: "bytes \<Rightarrow> bytes option"

record FilePVKey =
  pvk_Address :: bytes
  pvk_PubKey :: PubKey
  pvk_PrivKey :: PrivKey
  pvk_filePath :: bytes

record FilePVLastSignState =
  lss_Height :: int64
  lss_Round :: int32
  lss_Step :: int
  lss_Signature :: "bytes option"
  lss_SignBytes :: "bytes option"
  lss_filePath :: bytes

record FilePV =
  pv_Key :: FilePVKey
  pv_LastSignState :: FilePVLastSignState

datatype pv_file = KeyFile FilePVKey | StateFile FilePVLastSignState

type_synonym files = "bytes \<rightharpoonup> pv_file"

text \<open>
  What the signer is given from outside: whether a path can be written, and the generated decoders of the
  canonical messages.
\<close>

record pv_env =
  canWrite :: "bytes \<Rightarrow> bool"
  um_Vote :: "bytes \<Rightarrow> CanonicalVote option"
  um_Proposal :: "bytes \<Rightarrow> CanonicalProposal option"

definition key_Save :: "pv_env \<Rightarrow> FilePVKey \<Rightarrow> files \<Rightarrow> (pv_error, files) res" where
  "key_Save P pvKey fs =
     (if pvk_filePath pvKey = [] then Panic ''cannot save PrivValidator key: filePath not set''
      else if \<not> canWrite P (pvk_filePath pvKey) then Panic ''write error''
      else Ok (fs(pvk_filePath pvKey \<mapsto> KeyFile (pvKey\<lparr>pvk_filePath := []\<rparr>))))"

definition lss_Save :: "pv_env \<Rightarrow> FilePVLastSignState \<Rightarrow> files \<Rightarrow> (pv_error, files) res" where
  "lss_Save P lss fs =
     (if lss_filePath lss = [] then Panic ''cannot save FilePVLastSignState: filePath not set''
      else if \<not> canWrite P (lss_filePath lss) then Panic ''write error''
      else Ok (fs(lss_filePath lss \<mapsto> StateFile (lss\<lparr>lss_filePath := []\<rparr>))))"

definition CheckHRS :: "FilePVLastSignState \<Rightarrow> int64 \<Rightarrow> int32 \<Rightarrow> int \<Rightarrow> (pv_error, bool) res" where
  "CheckHRS lss height round step =
     (if lss_Height lss > height then Err (ErrHeightRegression height (lss_Height lss))
      else if lss_Height lss = height then
        (if lss_Round lss > round then Err (ErrRoundRegression height round (lss_Round lss))
         else if lss_Round lss = round then
           (if lss_Step lss > step then Err (ErrStepRegression height round step (lss_Step lss))
            else if lss_Step lss = step then
              (if lss_SignBytes lss \<noteq> None
               then (if lss_Signature lss = None then Panic ''pv: Signature is nil but SignBytes is not!'' else Ok True)
               else Err ErrNoSignBytes)
            else Ok False)
         else Ok False)
      else Ok False)"

definition emptySignState :: FilePVLastSignState where
  "emptySignState = \<lparr>lss_Height = 0, lss_Round = 0, lss_Step = 0, lss_Signature = None, lss_SignBytes = None, lss_filePath = []\<rparr>"

definition NewFilePV :: "env \<Rightarrow> PrivKey \<Rightarrow> bytes \<Rightarrow> bytes \<Rightarrow> (pv_error, FilePV) res" where
  "NewFilePV E privKey keyFilePath stateFilePath =
     res_bind (PubKey_Address E (pk_PubKey privKey)) (\<lambda>addr.
       Ok \<lparr>pv_Key = \<lparr>pvk_Address = addr, pvk_PubKey = pk_PubKey privKey, pvk_PrivKey = privKey, pvk_filePath = keyFilePath\<rparr>,
           pv_LastSignState = emptySignState\<lparr>lss_Step := stepNone, lss_filePath := stateFilePath\<rparr>\<rparr>)"

definition GenFilePV :: "env \<Rightarrow> PrivKey \<Rightarrow> PrivKey \<Rightarrow> bytes \<Rightarrow> bytes \<Rightarrow> string \<Rightarrow> (pv_error, FilePV) res" where
  "GenFilePV E genSecp256k1 genEd25519 keyFilePath stateFilePath keyType =
     (if keyType = ''secp256k1'' then NewFilePV E genSecp256k1 keyFilePath stateFilePath
      else if keyType = '''' \<or> keyType = ''ed25519'' then NewFilePV E genEd25519 keyFilePath stateFilePath
      else Err (ErrKeyType keyType))"

definition loadFilePV :: "env \<Rightarrow> files \<Rightarrow> bytes \<Rightarrow> bytes \<Rightarrow> bool \<Rightarrow> (pv_error, FilePV) res" where
  "loadFilePV E fs keyFilePath stateFilePath loadState =
     (case fs keyFilePath of
        None \<Rightarrow> Err (ErrReadFile keyFilePath)
      | Some (StateFile _) \<Rightarrow> Err (ErrDecodeFile keyFilePath)
      | Some (KeyFile pvKey) \<Rightarrow>
          (let pubKey = pk_PubKey (pvk_PrivKey pvKey)
           in res_bind (PubKey_Address E pubKey) (\<lambda>addr.
             let pvKey = pvKey\<lparr>pvk_PubKey := pubKey, pvk_Address := addr, pvk_filePath := keyFilePath\<rparr>
             in res_bind
                  (if loadState then
                     (case fs stateFilePath of
                        None \<Rightarrow> Err (ErrReadFile stateFilePath)
                      | Some (KeyFile _) \<Rightarrow> Err (ErrDecodeFile stateFilePath)
                      | Some (StateFile st) \<Rightarrow> Ok st)
                   else Ok emptySignState) (\<lambda>pvState.
                  Ok \<lparr>pv_Key = pvKey, pv_LastSignState = pvState\<lparr>lss_filePath := stateFilePath\<rparr>\<rparr>))))"

definition LoadFilePV :: "env \<Rightarrow> files \<Rightarrow> bytes \<Rightarrow> bytes \<Rightarrow> (pv_error, FilePV) res" where
  "LoadFilePV E fs keyFilePath stateFilePath = loadFilePV E fs keyFilePath stateFilePath True"

definition LoadFilePVEmptyState :: "env \<Rightarrow> files \<Rightarrow> bytes \<Rightarrow> bytes \<Rightarrow> (pv_error, FilePV) res" where
  "LoadFilePVEmptyState E fs keyFilePath stateFilePath = loadFilePV E fs keyFilePath stateFilePath False"

definition pv_Save :: "pv_env \<Rightarrow> FilePV \<Rightarrow> files \<Rightarrow> (pv_error, files) res" where
  "pv_Save P pv fs = res_bind (key_Save P (pv_Key pv) fs) (\<lambda>fs. lss_Save P (pv_LastSignState pv) fs)"

definition LoadOrGenFilePV :: "env \<Rightarrow> pv_env \<Rightarrow> PrivKey \<Rightarrow> files \<Rightarrow> bytes \<Rightarrow> bytes \<Rightarrow> (pv_error, FilePV \<times> files) res" where
  "LoadOrGenFilePV E P genEd25519 fs keyFilePath stateFilePath =
     (if fs keyFilePath \<noteq> None then res_bind (LoadFilePV E fs keyFilePath stateFilePath) (\<lambda>pv. Ok (pv, fs))
      else res_bind (GenFilePV E genEd25519 genEd25519 keyFilePath stateFilePath '''') (\<lambda>pv.
        res_bind (pv_Save P pv fs) (\<lambda>fs. Ok (pv, fs))))"

definition pv_GetAddress :: "FilePV \<Rightarrow> bytes" where "pv_GetAddress pv = pvk_Address (pv_Key pv)"
definition pv_GetPubKey :: "FilePV \<Rightarrow> PubKey" where "pv_GetPubKey pv = pvk_PubKey (pv_Key pv)"

definition pv_Reset :: "pv_env \<Rightarrow> FilePV \<Rightarrow> files \<Rightarrow> (pv_error, FilePV \<times> files) res" where
  "pv_Reset P pv fs =
     (let pv = pv\<lparr>pv_LastSignState := (pv_LastSignState pv)\<lparr>lss_Height := 0, lss_Round := 0, lss_Step := 0,
            lss_Signature := None, lss_SignBytes := None\<rparr>\<rparr>
      in res_bind (pv_Save P pv fs) (\<lambda>fs. Ok (pv, fs)))"

section \<open>Signing\<close>

definition saveSigned :: "pv_env \<Rightarrow> FilePV \<Rightarrow> files \<Rightarrow> int64 \<Rightarrow> int32 \<Rightarrow> int \<Rightarrow> bytes \<Rightarrow> bytes \<Rightarrow> (pv_error, FilePV \<times> files) res" where
  "saveSigned P pv fs height round step signBytes sig =
     (let pv = pv\<lparr>pv_LastSignState := (pv_LastSignState pv)\<lparr>lss_Height := height, lss_Round := round, lss_Step := step,
            lss_Signature := Some sig, lss_SignBytes := Some signBytes\<rparr>\<rparr>
      in res_bind (lss_Save P (pv_LastSignState pv) fs) (\<lambda>fs. Ok (pv, fs)))"

text \<open>The bytes of a slice; a nil slice has none.\<close>

definition slice :: "bytes option \<Rightarrow> bytes" where "slice b = (case b of None \<Rightarrow> [] | Some bs \<Rightarrow> bs)"

definition checkVotesOnlyDifferByTimestamp :: "pv_env \<Rightarrow> bytes \<Rightarrow> bytes \<Rightarrow> ('e, time \<times> bool) res" where
  "checkVotesOnlyDifferByTimestamp P lastSignBytes newSignBytes =
     (case UnmarshalDelimited (um_Vote P) lastSignBytes of
        Ok lastVote \<Rightarrow>
          (case UnmarshalDelimited (um_Vote P) newSignBytes of
             Ok newVote \<Rightarrow>
               (let now = 0
                in Ok (cv_Timestamp lastVote, newVote\<lparr>cv_Timestamp := now\<rparr> = lastVote\<lparr>cv_Timestamp := now\<rparr>))
           | _ \<Rightarrow> Panic ''signBytes cannot be unmarshalled into vote'')
      | _ \<Rightarrow> Panic ''LastSignBytes cannot be unmarshalled into vote'')"

definition checkProposalsOnlyDifferByTimestamp :: "pv_env \<Rightarrow> bytes \<Rightarrow> bytes \<Rightarrow> ('e, time \<times> bool) res" where
  "checkProposalsOnlyDifferByTimestamp P lastSignBytes newSignBytes =
     (case UnmarshalDelimited (um_Proposal P) lastSignBytes of
        Ok lastProposal \<Rightarrow>
          (case UnmarshalDelimited (um_Proposal P) newSignBytes of
             Ok newProposal \<Rightarrow>
               (let now = 0
                in Ok (cp_Timestamp lastProposal, newProposal\<lparr>cp_Timestamp := now\<rparr> = lastProposal\<lparr>cp_Timestamp := now\<rparr>))
           | _ \<Rightarrow> Panic ''signBytes cannot be unmarshalled into proposal'')
      | _ \<Rightarrow> Panic ''LastSignBytes cannot be unmarshalled into proposal'')"

definition signVote :: "env \<Rightarrow> pv_env \<Rightarrow> bytes \<Rightarrow> FilePV \<Rightarrow> files \<Rightarrow> Vote \<Rightarrow> (pv_error, FilePV \<times> files \<times> Vote) res" where
  "signVote E P chainID pv fs vote =
     res_bind (voteToStep vote) (\<lambda>step.
     let lss = pv_LastSignState pv
     in res_bind (CheckHRS lss (v_Height vote) (v_Round vote) step) (\<lambda>sameHRS.
        res_bind (VoteSignBytes E chainID vote) (\<lambda>signBytes.
          if sameHRS then
            (if signBytes = slice (lss_SignBytes lss) then Ok (pv, fs, vote\<lparr>v_Signature := slice (lss_Signature lss)\<rparr>)
             else res_bind (checkVotesOnlyDifferByTimestamp P (slice (lss_SignBytes lss)) signBytes) (\<lambda>(timestamp, ok).
               if ok then Ok (pv, fs, vote\<lparr>v_Timestamp := timestamp, v_Signature := slice (lss_Signature lss)\<rparr>)
               else Err ErrConflictingData))
          else (case pk_Sign (pvk_PrivKey (pv_Key pv)) signBytes of
                  None \<Rightarrow> Err ErrSign
                | Some sig \<Rightarrow>
                    res_bind (saveSigned P pv fs (v_Height vote) (v_Round vote) step signBytes sig) (\<lambda>(pv, fs).
                      Ok (pv, fs, vote\<lparr>v_Signature := sig\<rparr>))))))"

definition signProposal :: "env \<Rightarrow> pv_env \<Rightarrow> bytes \<Rightarrow> FilePV \<Rightarrow> files \<Rightarrow> Proposal \<Rightarrow> (pv_error, FilePV \<times> files \<times> Proposal) res" where
  "signProposal E P chainID pv fs proposal =
     (let lss = pv_LastSignState pv
      in res_bind (CheckHRS lss (p_Height proposal) (p_Round proposal) stepPropose) (\<lambda>sameHRS.
        res_bind (ProposalSignBytes E chainID proposal) (\<lambda>signBytes.
          if sameHRS then
            (if signBytes = slice (lss_SignBytes lss) then Ok (pv, fs, proposal\<lparr>p_Signature := slice (lss_Signature lss)\<rparr>)
             else res_bind (checkProposalsOnlyDifferByTimestamp P (slice (lss_SignBytes lss)) signBytes) (\<lambda>(timestamp, ok).
               if ok then Ok (pv, fs, proposal\<lparr>p_Timestamp := timestamp, p_Signature := slice (lss_Signature lss)\<rparr>)
               else Err ErrConflictingData))
          else (case pk_Sign (pvk_PrivKey (pv_Key pv)) signBytes of
                  None \<Rightarrow> Err ErrSign
                | Some sig \<Rightarrow>
                    res_bind (saveSigned P pv fs (p_Height proposal) (p_Round proposal) stepPropose signBytes sig) (\<lambda>(pv, fs).
                      Ok (pv, fs, proposal\<lparr>p_Signature := sig\<rparr>))))))"

text \<open>The exported operations only wrap the error.\<close>

definition SignVote :: "env \<Rightarrow> pv_env \<Rightarrow> bytes \<Rightarrow> FilePV \<Rightarrow> files \<Rightarrow> Vote \<Rightarrow> (pv_error, FilePV \<times> files \<times> Vote) res" where
  "SignVote E P chainID pv fs vote = signVote E P chainID pv fs vote"

definition SignProposal :: "env \<Rightarrow> pv_env \<Rightarrow> bytes \<Rightarrow> FilePV \<Rightarrow> files \<Rightarrow> Proposal \<Rightarrow> (pv_error, FilePV \<times> files \<times> Proposal) res" where
  "SignProposal E P chainID pv fs proposal = signProposal E P chainID pv fs proposal"


section \<open>Requests, crashes and what is released\<close>

datatype msg = MVote bytes Vote | MProposal bytes Proposal

fun m_hrs :: "msg \<Rightarrow> int \<times> int \<times> int" where
  "m_hrs (MVote c v) = (v_Height v, v_Round v, if v_Type v = PrevoteType then stepPrevote else stepPrecommit)"
| "m_hrs (MProposal c p) = (p_Height p, p_Round p, stepPropose)"

fun m_sig :: "msg \<Rightarrow> bytes" where
  "m_sig (MVote c v) = v_Signature v"
| "m_sig (MProposal c p) = p_Signature p"

fun m_bytes :: "env \<Rightarrow> msg \<Rightarrow> (pv_error, bytes) res" where
  "m_bytes E (MVote c v) = VoteSignBytes E c v"
| "m_bytes E (MProposal c p) = ProposalSignBytes E c p"

fun m_ranges :: "msg \<Rightarrow> bool" where
  "m_ranges (MVote c v) = (IsVoteTypeValid (v_Type v) \<and> vote_ranges v)"
| "m_ranges (MProposal c p) = proposal_ranges p"

text \<open>The generated decoder inverts the encoder on a message, which fits into memory.\<close>

fun m_decodes :: "env \<Rightarrow> pv_env \<Rightarrow> msg \<Rightarrow> bool" where
  "m_decodes E P (MVote c v) =
     (case CanonicalVote_MarshalToSizedBuffer E (cv_of c v) of None \<Rightarrow> True
      | Some acc \<Rightarrow> um_Vote P acc = Some (cv_of c v) \<and> int (length (putUvarint (length acc) @ acc)) < MaxInt64)"
| "m_decodes E P (MProposal c p) =
     (case CanonicalProposal_MarshalToSizedBuffer E (cp_of c p) of None \<Rightarrow> True
      | Some acc \<Rightarrow> um_Proposal P acc = Some (cp_of c p) \<and> int (length (putUvarint (length acc) @ acc)) < MaxInt64)"

fun sign_msg :: "env \<Rightarrow> pv_env \<Rightarrow> FilePV \<Rightarrow> files \<Rightarrow> msg \<Rightarrow> (pv_error, FilePV \<times> files \<times> msg) res" where
  "sign_msg E P pv fs (MVote c v) = res_bind (SignVote E P c pv fs v) (\<lambda>(pv, fs, v). Ok (pv, fs, MVote c v))"
| "sign_msg E P pv fs (MProposal c p) = res_bind (SignProposal E P c pv fs p) (\<lambda>(pv, fs, p). Ok (pv, fs, MProposal c p))"

text \<open>
  A run of the signer: requests, of which the answer may be lost in a crash after the file was written,
  and restarts, which load the files again. A panic is a crash. The third component is what was released.
\<close>

datatype pv_op = Sign msg | SignAndCrash msg | Restart

type_synonym pv_state = "FilePV \<times> files \<times> msg list"

definition reload :: "env \<Rightarrow> bytes \<Rightarrow> bytes \<Rightarrow> files \<Rightarrow> msg list \<Rightarrow> (pv_error, pv_state) res" where
  "reload E kp sp fs outs = res_bind (LoadFilePV E fs kp sp) (\<lambda>pv. Ok (pv, fs, outs))"

fun pv_step :: "env \<Rightarrow> pv_env \<Rightarrow> bytes \<Rightarrow> bytes \<Rightarrow> pv_state \<Rightarrow> pv_op \<Rightarrow> (pv_error, pv_state) res" where
  "pv_step E P kp sp (pv, fs, outs) (Sign m) =
     (case sign_msg E P pv fs m of
        Ok (pv', fs', m') \<Rightarrow> Ok (pv', fs', outs @ [m'])
      | Err _ \<Rightarrow> Ok (pv, fs, outs)
      | Panic _ \<Rightarrow> reload E kp sp fs outs)"
| "pv_step E P kp sp (pv, fs, outs) (SignAndCrash m) =
     (case sign_msg E P pv fs m of
        Ok (pv', fs', m') \<Rightarrow> reload E kp sp fs' outs
      | Err _ \<Rightarrow> reload E kp sp fs outs
      | Panic _ \<Rightarrow> reload E kp sp fs outs)"
| "pv_step E P kp sp (pv, fs, outs) Restart = reload E kp sp fs outs"

definition pv_start :: "env \<Rightarrow> pv_env \<Rightarrow> PrivKey \<Rightarrow> bytes \<Rightarrow> bytes \<Rightarrow> (pv_error, pv_state) res" where
  "pv_start E P K kp sp =
     res_bind (NewFilePV E K kp sp) (\<lambda>pv. res_bind (pv_Save P pv Map.empty) (\<lambda>fs. Ok (pv, fs, [])))"

fun op_msgs :: "pv_op \<Rightarrow> msg set" where
  "op_msgs (Sign m) = {m}" | "op_msgs (SignAndCrash m) = {m}" | "op_msgs Restart = {}"

section \<open>The invariant\<close>

fun hrs_less :: "int \<times> int \<times> int \<Rightarrow> int \<times> int \<times> int \<Rightarrow> bool" where
  "hrs_less (h, r, s) (h', r', s') \<longleftrightarrow> h < h' \<or> h = h' \<and> (r < r' \<or> r = r' \<and> s < s')"

lemma hrs_less_simps: "\<not> hrs_less x x" "hrs_less x y \<Longrightarrow> hrs_less y z \<Longrightarrow> hrs_less x z"
  by (cases x; cases y; cases z; auto)+

definition lss_hrs :: "FilePVLastSignState \<Rightarrow> int \<times> int \<times> int" where
  "lss_hrs lss = (lss_Height lss, lss_Round lss, lss_Step lss)"

lemma CheckHRS_iff:
  "CheckHRS lss h r s = Ok False \<longleftrightarrow> hrs_less (lss_hrs lss) (h, r, s)"
  "CheckHRS lss h r s = Ok True \<longleftrightarrow> lss_hrs lss = (h, r, s) \<and> lss_SignBytes lss \<noteq> None \<and> lss_Signature lss \<noteq> None"
  by (auto simp: CheckHRS_def lss_hrs_def)

text \<open>The last signed bytes stem from a request, and their signature from the key.\<close>

definition lss_ok :: "env \<Rightarrow> pv_env \<Rightarrow> PrivKey \<Rightarrow> FilePVLastSignState \<Rightarrow> bool" where
  "lss_ok E P K lss \<longleftrightarrow>
     (\<forall>sb. lss_SignBytes lss = Some sb \<longrightarrow> lss_Signature lss = pk_Sign K sb \<and> pk_Sign K sb \<noteq> None \<and>
        (\<exists>m. m_hrs m = lss_hrs lss \<and> m_bytes E m = Ok sb \<and> m_ranges m \<and> m_decodes E P m))"

text \<open>What the invariant says of what was released, relative to the last signed state.\<close>

definition out_ok :: "env \<Rightarrow> PrivKey \<Rightarrow> FilePVLastSignState \<Rightarrow> msg \<Rightarrow> bool" where
  "out_ok E K lss m \<longleftrightarrow> m_ranges m \<and> (m_hrs m = lss_hrs lss \<or> hrs_less (m_hrs m) (lss_hrs lss)) \<and>
     (\<exists>sb. m_bytes E m = Ok sb \<and> pk_Sign K sb = Some (m_sig m) \<and> (m_hrs m = lss_hrs lss \<longrightarrow> lss_SignBytes lss = Some sb))"

definition outs_ok :: "env \<Rightarrow> PrivKey \<Rightarrow> FilePVLastSignState \<Rightarrow> msg list \<Rightarrow> bool" where
  "outs_ok E K lss outs \<longleftrightarrow> (\<forall>m \<in> set outs. out_ok E K lss m) \<and>
     (\<forall>m \<in> set outs. \<forall>m' \<in> set outs. m_hrs m = m_hrs m' \<longrightarrow> m_bytes E m = m_bytes E m')"

definition files_ok :: "PrivKey \<Rightarrow> bytes \<Rightarrow> bytes \<Rightarrow> FilePVLastSignState \<Rightarrow> files \<Rightarrow> bool" where
  "files_ok K kp sp lss fs \<longleftrightarrow> kp \<noteq> sp \<and> lss_filePath lss = sp \<and>
     (\<exists>k. fs kp = Some (KeyFile k) \<and> pvk_PrivKey k = K) \<and> fs sp = Some (StateFile (lss\<lparr>lss_filePath := []\<rparr>))"

definition pv_inv :: "env \<Rightarrow> pv_env \<Rightarrow> PrivKey \<Rightarrow> bytes \<Rightarrow> bytes \<Rightarrow> pv_state \<Rightarrow> bool" where
  "pv_inv E P K kp sp s \<longleftrightarrow> (case s of (pv, fs, outs) \<Rightarrow>
     pvk_PrivKey (pv_Key pv) = K \<and> files_ok K kp sp (pv_LastSignState pv) fs \<and>
     lss_ok E P K (pv_LastSignState pv) \<and> outs_ok E K (pv_LastSignState pv) outs)"

lemma UnmarshalDelimited_vote:
  assumes "VoteSignBytes E c v = (Ok sb :: (pv_error, _) res)" "m_decodes E P (MVote c v)"
  shows "UnmarshalDelimited (um_Vote P) sb = Ok (cv_of c v)"
proof -
  have cv: "CanonicalizeVote c v = (Ok (cv_of c v) :: (pv_error, _) res)"
    using assms(1) by (auto simp: VoteSignBytes_def CanonicalizeVote_def res_simps CanonicalizeBlockID_Ok_iff cv_of_def)
  from assms(1) obtain acc where acc: "CanonicalVote_MarshalToSizedBuffer E (cv_of c v) = Some acc"
    "varintWrittenBytes (CanonicalVote_Size E (cv_of c v)) acc = (Ok sb :: (pv_error, _) res)"
    by (auto simp: VoteSignBytes_def cv split: option.splits)
  have "length acc = CanonicalVote_Size E (cv_of c v)" using CanonicalVote_Size_exact [OF acc(1)] by simp
  with acc have "sb = putUvarint (length acc) @ acc" by (auto simp: varintWrittenBytes_def)
  then show ?thesis
    using UnmarshalDelimited_written [of acc sb "um_Vote P"] assms(2) acc(1) by (simp add: varintWrittenBytes_def)
qed

lemma UnmarshalDelimited_proposal:
  assumes "ProposalSignBytes E c p = (Ok sb :: (pv_error, _) res)" "m_decodes E P (MProposal c p)"
  shows "UnmarshalDelimited (um_Proposal P) sb = Ok (cp_of c p)"
proof -
  have cp: "CanonicalizeProposal c p = (Ok (cp_of c p) :: (pv_error, _) res)"
    using assms(1) by (auto simp: ProposalSignBytes_def CanonicalizeProposal_def res_simps CanonicalizeBlockID_Ok_iff cp_of_def)
  from assms(1) obtain acc where acc: "CanonicalProposal_MarshalToSizedBuffer E (cp_of c p) = Some acc"
    "varintWrittenBytes (CanonicalProposal_Size E (cp_of c p)) acc = (Ok sb :: (pv_error, _) res)"
    by (auto simp: ProposalSignBytes_def cp split: option.splits)
  have "length acc = CanonicalProposal_Size E (cp_of c p)" using CanonicalProposal_Size_exact [OF acc(1)] by simp
  with acc have "sb = putUvarint (length acc) @ acc" by (auto simp: varintWrittenBytes_def)
  then show ?thesis
    using UnmarshalDelimited_written [of acc sb "um_Proposal P"] assms(2) acc(1) by (simp add: varintWrittenBytes_def)
qed

text \<open>The sign bytes are a function of the canonical message.\<close>

lemma VoteSignBytes_cong:
  assumes "VoteSignBytes E c v = (Ok sb :: ('e, _) res)" "cv_of c v = cv_of c' v'"
  shows "VoteSignBytes E c' v' = (Ok sb :: ('e, _) res)"
proof -
  have "v_BlockID v' = v_BlockID v" "c' = c" "v_Type v' = v_Type v" "v_Height v' = v_Height v" "v_Round v' = v_Round v" "v_Timestamp v' = v_Timestamp v"
    using assms(2) by (auto simp: cv_of_def split: if_splits)
  with assms(1) show ?thesis by (simp add: VoteSignBytes_def CanonicalizeVote_def)
qed

lemma ProposalSignBytes_cong:
  assumes "ProposalSignBytes E c p = (Ok sb :: ('e, _) res)" "cp_of c p = cp_of c' p'"
  shows "ProposalSignBytes E c' p' = (Ok sb :: ('e, _) res)"
proof -
  have "p_BlockID p' = p_BlockID p" "c' = c" "p_Height p' = p_Height p" "p_Round p' = p_Round p" "p_POLRound p' = p_POLRound p" "p_Timestamp p' = p_Timestamp p"
    using assms(2) by (auto simp: cp_of_def split: if_splits)
  with assms(1) show ?thesis by (simp add: ProposalSignBytes_def CanonicalizeProposal_def)
qed


text \<open>
  How a request is answered: with the last signature, for the same height, round and step, or with
  a new one, for a later one, which is then in the state and in its file.
\<close>

definition reused :: "env \<Rightarrow> FilePVLastSignState \<Rightarrow> msg \<Rightarrow> msg \<Rightarrow> bool" where
  "reused E lss m m' \<longleftrightarrow> lss_hrs lss = m_hrs m \<and>
     (\<exists>sb. lss_SignBytes lss = Some sb \<and> m_bytes E m' = Ok sb \<and> lss_Signature lss = Some (m_sig m'))"

definition signed_new :: "env \<Rightarrow> PrivKey \<Rightarrow> FilePV \<Rightarrow> files \<Rightarrow> msg \<Rightarrow> FilePV \<Rightarrow> files \<Rightarrow> msg \<Rightarrow> bool" where
  "signed_new E K pv fs m pv' fs' m' \<longleftrightarrow> hrs_less (lss_hrs (pv_LastSignState pv)) (m_hrs m) \<and>
     (\<exists>sb lss. m_bytes E m = Ok sb \<and> m_bytes E m' = Ok sb \<and> pk_Sign K sb = Some (m_sig m') \<and>
        pv' = pv\<lparr>pv_LastSignState := lss\<rparr> \<and> fs' = fs(lss_filePath lss \<mapsto> StateFile (lss\<lparr>lss_filePath := []\<rparr>)) \<and>
        lss_hrs lss = m_hrs m \<and> lss_SignBytes lss = Some sb \<and> lss_Signature lss = Some (m_sig m') \<and>
        lss_filePath lss = lss_filePath (pv_LastSignState pv))"

lemma saveSigned_Ok:
  assumes "saveSigned P pv fs h r st sb sig = Ok (pv', fs')"
  shows "\<exists>lss. pv' = pv\<lparr>pv_LastSignState := lss\<rparr> \<and> fs' = fs(lss_filePath lss \<mapsto> StateFile (lss\<lparr>lss_filePath := []\<rparr>)) \<and>
    lss_hrs lss = (h, r, st) \<and> lss_SignBytes lss = Some sb \<and> lss_Signature lss = Some sig \<and>
    lss_filePath lss = lss_filePath (pv_LastSignState pv)"
  using assms by (auto simp: saveSigned_def lss_Save_def lss_hrs_def Let_def res_simps split: if_splits)

lemma VoteSignBytes_upd [simp]: "VoteSignBytes E c (v\<lparr>v_Signature := x\<rparr>) = VoteSignBytes E c v"
  by (simp add: VoteSignBytes_def CanonicalizeVote_def)

lemma ProposalSignBytes_upd [simp]: "ProposalSignBytes E c (p\<lparr>p_Signature := x\<rparr>) = ProposalSignBytes E c p"
  by (simp add: ProposalSignBytes_def CanonicalizeProposal_def)

lemma origin_vote:
  assumes "lss_ok E P K lss" "lss_SignBytes lss = Some sb" "lss_hrs lss = m_hrs (MVote c v)"
  obtains c' v' where "VoteSignBytes E c' v' = (Ok sb :: (pv_error, _) res)" "m_decodes E P (MVote c' v')"
proof -
  obtain m where m: "m_hrs m = lss_hrs lss" "m_bytes E m = Ok sb" "m_decodes E P m" using assms(1,2) by (auto simp: lss_ok_def)
  then obtain c' v' where "m = MVote c' v'" using assms(3) by (cases m) (auto simp: step_defs split: if_splits)
  with m that show ?thesis by simp
qed

lemma origin_proposal:
  assumes "lss_ok E P K lss" "lss_SignBytes lss = Some sb" "lss_hrs lss = m_hrs (MProposal c v)"
  obtains c' v' where "ProposalSignBytes E c' v' = (Ok sb :: (pv_error, _) res)" "m_decodes E P (MProposal c' v')"
proof -
  obtain m where m: "m_hrs m = lss_hrs lss" "m_bytes E m = Ok sb" "m_decodes E P m" using assms(1,2) by (auto simp: lss_ok_def)
  then obtain c' v' where "m = MProposal c' v'" using assms(3) by (cases m) (auto simp: step_defs split: if_splits)
  with m that show ?thesis by simp
qed

lemma same_vote_bytes:
  assumes ok: "lss_ok E P K lss" "lss_SignBytes lss = Some sb0" "lss_hrs lss = m_hrs (MVote c v)"
    and v: "VoteSignBytes E c v = (Ok sb :: (pv_error, _) res)" "m_decodes E P (MVote c v)"
    and check: "checkVotesOnlyDifferByTimestamp P sb0 sb = (Ok (t, True) :: (pv_error, _) res)"
  shows "VoteSignBytes E c (v\<lparr>v_Timestamp := t\<rparr>) = (Ok sb0 :: (pv_error, _) res)"
proof -
  obtain c' v' where v': "VoteSignBytes E c' v' = (Ok sb0 :: (pv_error, _) res)" "m_decodes E P (MVote c' v')"
    by (rule origin_vote [OF ok])
  have "t = v_Timestamp v'" "(cv_of c v)\<lparr>cv_Timestamp := 0\<rparr> = (cv_of c' v')\<lparr>cv_Timestamp := 0\<rparr>"
    using check by (simp_all add: checkVotesOnlyDifferByTimestamp_def UnmarshalDelimited_vote [OF v] UnmarshalDelimited_vote [OF v'] Let_def)
      (simp_all add: cv_of_def)
  then have "cv_of c' v' = cv_of c (v\<lparr>v_Timestamp := t\<rparr>)" by (auto simp: cv_of_def split: if_splits)
  with VoteSignBytes_cong [OF v'(1)] show ?thesis .
qed

lemma same_proposal_bytes:
  assumes ok: "lss_ok E P K lss" "lss_SignBytes lss = Some sb0" "lss_hrs lss = m_hrs (MProposal c v)"
    and v: "ProposalSignBytes E c v = (Ok sb :: (pv_error, _) res)" "m_decodes E P (MProposal c v)"
    and check: "checkProposalsOnlyDifferByTimestamp P sb0 sb = (Ok (t, True) :: (pv_error, _) res)"
  shows "ProposalSignBytes E c (v\<lparr>p_Timestamp := t\<rparr>) = (Ok sb0 :: (pv_error, _) res)"
proof -
  obtain c' v' where v': "ProposalSignBytes E c' v' = (Ok sb0 :: (pv_error, _) res)" "m_decodes E P (MProposal c' v')"
    by (rule origin_proposal [OF ok])
  have "t = p_Timestamp v'" "(cp_of c v)\<lparr>cp_Timestamp := 0\<rparr> = (cp_of c' v')\<lparr>cp_Timestamp := 0\<rparr>"
    using check by (simp_all add: checkProposalsOnlyDifferByTimestamp_def UnmarshalDelimited_proposal [OF v] UnmarshalDelimited_proposal [OF v'] Let_def)
      (simp_all add: cp_of_def)
  then have "cp_of c' v' = cp_of c (v\<lparr>p_Timestamp := t\<rparr>)" by (auto simp: cp_of_def split: if_splits)
  with ProposalSignBytes_cong [OF v'(1)] show ?thesis .
qed

lemma signVote_Ok:
  assumes ok: "lss_ok E P K (pv_LastSignState pv)" "K = pvk_PrivKey (pv_Key pv)" "m_decodes E P (MVote c v)" "m_ranges (MVote c v)"
    and sign: "signVote E P c pv fs v = Ok (pv', fs', v')"
  shows "m_hrs (MVote c v') = m_hrs (MVote c v) \<and> m_ranges (MVote c v') \<and>
    (pv' = pv \<and> fs' = fs \<and> reused E (pv_LastSignState pv) (MVote c v) (MVote c v') \<or>
     signed_new E K pv fs (MVote c v) pv' fs' (MVote c v'))"
proof -
  let ?lss = "pv_LastSignState pv"
  obtain st where st: "voteToStep v = Ok st" "m_hrs (MVote c v) = (v_Height v, v_Round v, st)"
    using ok(4) by (auto simp: voteToStep_def IsVoteTypeValid_def msg_types)
  from sign obtain same sb where same: "CheckHRS ?lss (v_Height v) (v_Round v) st = Ok same"
    and sb: "VoteSignBytes E c v = (Ok sb :: (pv_error, _) res)"
    by (auto simp: signVote_def st Let_def res_simps)
  show ?thesis
  proof (cases same)
    case True
    then obtain sb0 sig0 where l: "lss_hrs ?lss = m_hrs (MVote c v)" "lss_SignBytes ?lss = Some sb0" "lss_Signature ?lss = Some sig0"
      using same CheckHRS_iff(2) st(2) by auto
    have "\<exists>t. v' = v\<lparr>v_Timestamp := t, v_Signature := sig0\<rparr> \<and> VoteSignBytes E c (v\<lparr>v_Timestamp := t\<rparr>) = (Ok sb0 :: (pv_error, _) res)
      \<and> pv' = pv \<and> fs' = fs"
    proof (cases "sb = sb0")
      case True
      then show ?thesis using sign same \<open>same\<close> sb l
        by (intro exI [of _ "v_Timestamp v"]) (simp add: signVote_def st slice_def Let_def)
    next
      case False
      then obtain t where "checkVotesOnlyDifferByTimestamp P sb0 sb = (Ok (t, True) :: (pv_error, _) res)"
        "v' = v\<lparr>v_Timestamp := t, v_Signature := sig0\<rparr>" "pv' = pv" "fs' = fs"
        using sign same \<open>same\<close> sb l by (auto simp: signVote_def st slice_def Let_def res_simps split: if_splits)
      then show ?thesis using same_vote_bytes [OF ok(1) l(2,1) sb ok(3)] by blast
    qed
    then obtain t where t: "v' = v\<lparr>v_Timestamp := t, v_Signature := sig0\<rparr>" "VoteSignBytes E c (v\<lparr>v_Timestamp := t\<rparr>) = (Ok sb0 :: (pv_error, _) res)"
      "pv' = pv" "fs' = fs" by blast
    with l ok(4) show ?thesis by (simp add: reused_def vote_ranges_def)
  next
    case False
    then have less: "hrs_less (lss_hrs ?lss) (m_hrs (MVote c v))" using same CheckHRS_iff(1) st(2) by simp
    obtain sig where sig: "pk_Sign K sb = Some sig" "saveSigned P pv fs (v_Height v) (v_Round v) st sb sig = Ok (pv', fs')" "v' = v\<lparr>v_Signature := sig\<rparr>"
      using sign same False sb ok(2) by (auto simp: signVote_def st Let_def res_simps split: option.splits)
    from saveSigned_Ok [OF sig(2)] less sb sig(1,3) st(2) ok(4) show ?thesis by (auto simp: signed_new_def vote_ranges_def)
  qed
qed

lemma signProposal_Ok:
  assumes ok: "lss_ok E P K (pv_LastSignState pv)" "K = pvk_PrivKey (pv_Key pv)" "m_decodes E P (MProposal c v)" "m_ranges (MProposal c v)"
    and sign: "signProposal E P c pv fs v = Ok (pv', fs', v')"
  shows "m_hrs (MProposal c v') = m_hrs (MProposal c v) \<and> m_ranges (MProposal c v') \<and>
    (pv' = pv \<and> fs' = fs \<and> reused E (pv_LastSignState pv) (MProposal c v) (MProposal c v') \<or>
     signed_new E K pv fs (MProposal c v) pv' fs' (MProposal c v'))"
proof -
  let ?lss = "pv_LastSignState pv"
  from sign obtain same sb where same: "CheckHRS ?lss (p_Height v) (p_Round v) stepPropose = Ok same"
    and sb: "ProposalSignBytes E c v = (Ok sb :: (pv_error, _) res)"
    by (auto simp: signProposal_def Let_def res_simps)
  show ?thesis
  proof (cases same)
    case True
    then obtain sb0 sig0 where l: "lss_hrs ?lss = m_hrs (MProposal c v)" "lss_SignBytes ?lss = Some sb0" "lss_Signature ?lss = Some sig0"
      using same CheckHRS_iff(2) by auto
    have "\<exists>t. v' = v\<lparr>p_Timestamp := t, p_Signature := sig0\<rparr> \<and> ProposalSignBytes E c (v\<lparr>p_Timestamp := t\<rparr>) = (Ok sb0 :: (pv_error, _) res)
      \<and> pv' = pv \<and> fs' = fs"
    proof (cases "sb = sb0")
      case True
      then show ?thesis using sign same \<open>same\<close> sb l
        by (intro exI [of _ "p_Timestamp v"]) (simp add: signProposal_def slice_def Let_def)
    next
      case False
      then obtain t where "checkProposalsOnlyDifferByTimestamp P sb0 sb = (Ok (t, True) :: (pv_error, _) res)"
        "v' = v\<lparr>p_Timestamp := t, p_Signature := sig0\<rparr>" "pv' = pv" "fs' = fs"
        using sign same \<open>same\<close> sb l by (auto simp: signProposal_def slice_def Let_def res_simps split: if_splits)
      then show ?thesis using same_proposal_bytes [OF ok(1) l(2,1) sb ok(3)] by blast
    qed
    then obtain t where t: "v' = v\<lparr>p_Timestamp := t, p_Signature := sig0\<rparr>" "ProposalSignBytes E c (v\<lparr>p_Timestamp := t\<rparr>) = (Ok sb0 :: (pv_error, _) res)"
      "pv' = pv" "fs' = fs" by blast
    with l ok(4) show ?thesis by (simp add: reused_def proposal_ranges_def)
  next
    case False
    then have less: "hrs_less (lss_hrs ?lss) (m_hrs (MProposal c v))" using same CheckHRS_iff(1) by simp
    obtain sig where sig: "pk_Sign K sb = Some sig" "saveSigned P pv fs (p_Height v) (p_Round v) stepPropose sb sig = Ok (pv', fs')"
      "v' = v\<lparr>p_Signature := sig\<rparr>"
      using sign same False sb ok(2) by (auto simp: signProposal_def Let_def res_simps split: option.splits)
    from saveSigned_Ok [OF sig(2)] less sb sig(1,3) ok(4) show ?thesis by (auto simp: signed_new_def proposal_ranges_def)
  qed
qed

lemma sign_msg_Ok:
  assumes "lss_ok E P K (pv_LastSignState pv)" "K = pvk_PrivKey (pv_Key pv)" "m_decodes E P m" "m_ranges m"
    and "sign_msg E P pv fs m = Ok (pv', fs', m')"
  shows "m_hrs m' = m_hrs m \<and> m_ranges m' \<and>
    (pv' = pv \<and> fs' = fs \<and> reused E (pv_LastSignState pv) m m' \<or> signed_new E K pv fs m pv' fs' m')"
proof (cases m)
  case (MVote c v)
  then obtain v' where "m' = MVote c v'" "signVote E P c pv fs v = Ok (pv', fs', v')"
    using assms(5) by (auto simp: SignVote_def res_simps)
  with signVote_Ok [OF assms(1,2) assms(3,4) [unfolded MVote]] MVote show ?thesis by blast
next
  case (MProposal c v)
  then obtain v' where "m' = MProposal c v'" "signProposal E P c pv fs v = Ok (pv', fs', v')"
    using assms(5) by (auto simp: SignProposal_def res_simps)
  with signProposal_Ok [OF assms(1,2) assms(3,4) [unfolded MProposal]] MProposal show ?thesis by blast
qed


lemmas pv_inv_iff = pv_inv_def prod.case

lemma out_ok_later:
  assumes "out_ok E K lss m" "hrs_less (lss_hrs lss) (lss_hrs lss')"
  shows "out_ok E K lss' m"
proof -
  have "hrs_less (m_hrs m) (lss_hrs lss')"
    using assms hrs_less_simps(2) [of "m_hrs m" "lss_hrs lss" "lss_hrs lss'"] unfolding out_ok_def by auto
  moreover from this have "m_hrs m \<noteq> lss_hrs lss'" using hrs_less_simps(1) by metis
  ultimately show ?thesis using assms(1) unfolding out_ok_def by blast
qed

lemma outs_ok_later: "outs_ok E K lss outs \<Longrightarrow> hrs_less (lss_hrs lss) (lss_hrs lss') \<Longrightarrow> outs_ok E K lss' outs"
  unfolding outs_ok_def using out_ok_later by blast

lemma outs_ok_add:
  assumes "outs_ok E K lss outs" "m_ranges m" "m_hrs m = lss_hrs lss" "m_bytes E m = Ok sb" "pk_Sign K sb = Some (m_sig m)" "lss_SignBytes lss = Some sb"
  shows "outs_ok E K lss (outs @ [m])"
proof -
  have "out_ok E K lss m" using assms(2-6) by (simp add: out_ok_def)
  moreover have "m_bytes E z = m_bytes E m" if "z \<in> set outs" "m_hrs z = m_hrs m" for z
  proof -
    have "out_ok E K lss z" using assms(1) that(1) unfolding outs_ok_def by blast
    then show ?thesis using that(2) assms(3,4,6) unfolding out_ok_def by auto
  qed
  ultimately show ?thesis using assms(1) unfolding outs_ok_def set_append list.set by (metis UnE singletonD empty_iff insertE)
qed

lemma reload_inv:
  assumes "files_ok K kp sp lss fs" "lss_ok E P K lss" "outs_ok E K lss outs" "reload E kp sp fs outs = Ok s"
  shows "pv_inv E P K kp sp s"
proof -
  from assms(1) obtain k where k: "fs kp = Some (KeyFile k)" "pvk_PrivKey k = K" "fs sp = Some (StateFile (lss\<lparr>lss_filePath := []\<rparr>))"
    "lss_filePath lss = sp"
    by (auto simp: files_ok_def)
  have same: "lss\<lparr>lss_filePath := sp\<rparr> = lss" using k(4) by simp
  obtain pv where pv: "LoadFilePV E fs kp sp = Ok pv" "s = (pv, fs, outs)" using assms(4) by (auto simp: reload_def res_simps)
  then have "pvk_PrivKey (pv_Key pv) = K" "pv_LastSignState pv = lss"
    using k same by (auto simp: LoadFilePV_def loadFilePV_def Let_def res_simps)
  with assms pv(2) show ?thesis by (simp add: pv_inv_iff)
qed

lemma sign_inv:
  assumes inv: "pv_inv E P K kp sp (pv, fs, outs)" and m: "m_decodes E P m" "m_ranges m"
    and sign: "sign_msg E P pv fs m = Ok (pv', fs', m')"
  shows "pvk_PrivKey (pv_Key pv') = K \<and> files_ok K kp sp (pv_LastSignState pv') fs' \<and> lss_ok E P K (pv_LastSignState pv') \<and>
    outs_ok E K (pv_LastSignState pv') outs \<and> outs_ok E K (pv_LastSignState pv') (outs @ [m'])"
proof -
  let ?lss = "pv_LastSignState pv"
  have i: "pvk_PrivKey (pv_Key pv) = K" "files_ok K kp sp ?lss fs" "lss_ok E P K ?lss" "outs_ok E K ?lss outs"
    using inv by (simp_all add: pv_inv_iff)
  have "m_hrs m' = m_hrs m" "m_ranges m'" and cases: "pv' = pv \<and> fs' = fs \<and> reused E ?lss m m' \<or> signed_new E K pv fs m pv' fs' m'"
    using sign_msg_Ok [OF i(3) i(1) [symmetric] m sign] by blast+
  note m' = this(1,2)
  from cases show ?thesis
  proof (elim disjE conjE)
    assume *: "pv' = pv" "fs' = fs" "reused E ?lss m m'"
    then obtain sb where sb: "lss_hrs ?lss = m_hrs m" "lss_SignBytes ?lss = Some sb" "m_bytes E m' = Ok sb" "lss_Signature ?lss = Some (m_sig m')"
      by (auto simp: reused_def)
    with i(3) have "pk_Sign K sb = Some (m_sig m')" by (auto simp: lss_ok_def)
    from outs_ok_add [OF i(4) m'(2) _ sb(3) this sb(2)] m'(1) sb(1) i * show ?thesis by simp
  next
    assume "signed_new E K pv fs m pv' fs' m'"
    then obtain sb lss where s: "hrs_less (lss_hrs ?lss) (lss_hrs lss)" "m_bytes E m = Ok sb" "m_bytes E m' = Ok sb" "pk_Sign K sb = Some (m_sig m')"
      "pv' = pv\<lparr>pv_LastSignState := lss\<rparr>" "fs' = fs(lss_filePath lss \<mapsto> StateFile (lss\<lparr>lss_filePath := []\<rparr>))" "lss_hrs lss = m_hrs m"
      "lss_SignBytes lss = Some sb" "lss_Signature lss = Some (m_sig m')" "lss_filePath lss = lss_filePath ?lss"
      by (auto simp: signed_new_def)
    have later: "outs_ok E K lss outs" by (rule outs_ok_later [OF i(4) s(1)])
    have "outs_ok E K lss (outs @ [m'])" using m' s by (intro outs_ok_add [OF later m'(2) _ s(3,4,8)]) simp
    moreover have "lss_ok E P K lss" using s m by (auto simp: lss_ok_def)
    moreover have "files_ok K kp sp lss fs'" using i(2) s(6,10) by (auto simp: files_ok_def)
    ultimately show ?thesis using later s(5) i(1) by simp
  qed
qed

lemma pv_step_inv:
  assumes inv: "pv_inv E P K kp sp s" and op: "\<forall>m \<in> op_msgs op. m_ranges m \<and> m_decodes E P m" and step: "pv_step E P kp sp s op = Ok s'"
  shows "pv_inv E P K kp sp s'"
proof -
  obtain pv fs outs where s: "s = (pv, fs, outs)" by (cases s)
  have i: "files_ok K kp sp (pv_LastSignState pv) fs" "lss_ok E P K (pv_LastSignState pv)" "outs_ok E K (pv_LastSignState pv) outs"
    using inv by (simp_all add: s pv_inv_iff)
  show ?thesis
  proof (cases op)
    case Restart
    then show ?thesis using reload_inv [OF i] step by (simp add: s)
  next
    case (Sign m)
    show ?thesis
    proof (cases "sign_msg E P pv fs m")
      case (Ok r)
      obtain pv' fs' m' where r: "r = (pv', fs', m')" by (cases r)
      with sign_inv [OF inv [unfolded s] _ _ Ok [unfolded r]] op step Sign Ok show ?thesis by (auto simp: s pv_inv_iff)
    qed (use step Sign inv reload_inv [OF i] in \<open>auto simp: s\<close>)
  next
    case (SignAndCrash m)
    show ?thesis
    proof (cases "sign_msg E P pv fs m")
      case (Ok r)
      obtain pv' fs' m' where r: "r = (pv', fs', m')" by (cases r)
      with sign_inv [OF inv [unfolded s] _ _ Ok [unfolded r]] op SignAndCrash
      have "files_ok K kp sp (pv_LastSignState pv') fs'" "lss_ok E P K (pv_LastSignState pv')" "outs_ok E K (pv_LastSignState pv') outs" by auto
      from reload_inv [OF this] step SignAndCrash Ok r show ?thesis by (simp add: s)
    qed (use step SignAndCrash inv reload_inv [OF i] in \<open>auto simp: s\<close>)
  qed
qed

lemma pv_start_inv:
  assumes "pv_start E P K kp sp = Ok s" "kp \<noteq> sp"
  shows "pv_inv E P K kp sp s"
  using assms
  by (auto simp: pv_start_def NewFilePV_def pv_Save_def key_Save_def lss_Save_def res_simps pv_inv_iff files_ok_def lss_ok_def outs_ok_def
      emptySignState_def split: if_splits)

section \<open>Properties\<close>

text \<open>
  C1: A validator that signs with a \<open>FilePV\<close> never equivocates. Whatever votes and proposals it is asked
  to sign, and however often it crashes and restarts, before or after the state is written: two votes that
  it releases for the same height, round and type are for the same chain, block and timestamp and carry
  the same signature, likewise two proposals for the same height and round; and every signature released is
  the signature of the key on the sign bytes of what it is released with. The decoders of the canonical messages are assumed to
  invert the encoders on the requests.
\<close>

theorem no_double_signing:
  assumes "pv_start E P K kp sp = Ok s" "kp \<noteq> sp" "res_fold (pv_step E P kp sp) s ops = Ok (pv, fs, outs)" "time_inj E"
    and "\<forall>op \<in> set ops. \<forall>m \<in> op_msgs op. m_ranges m \<and> m_decodes E P m"
  shows "(\<forall>c v c' v'. MVote c v \<in> set outs \<longrightarrow> MVote c' v' \<in> set outs \<longrightarrow>
        v_Height v = v_Height v' \<longrightarrow> v_Round v = v_Round v' \<longrightarrow> v_Type v = v_Type v' \<longrightarrow>
        c = c' \<and> v_BlockID v = v_BlockID v' \<and> v_Timestamp v = v_Timestamp v' \<and> v_Signature v = v_Signature v') \<and>
    (\<forall>c p c' p'. MProposal c p \<in> set outs \<longrightarrow> MProposal c' p' \<in> set outs \<longrightarrow> p_Height p = p_Height p' \<longrightarrow> p_Round p = p_Round p' \<longrightarrow>
        ProposalSignBytes E c p = (ProposalSignBytes E c' p' :: (pv_error, _) res) \<and> p_Signature p = p_Signature p') \<and>
    (\<forall>m \<in> set outs. \<exists>sb. m_bytes E m = Ok sb \<and> pk_Sign K sb = Some (m_sig m))"
proof -
  have "pv_inv E P K kp sp (pv, fs, outs)"
    by (rule res_fold_invariant [where I = "pv_inv E P K kp sp", OF assms(3) pv_start_inv [OF assms(1,2)]])
      (rule pv_step_inv, assumption, use assms(5) in blast, assumption)
  then have out: "outs_ok E K (pv_LastSignState pv) outs" by (simp add: pv_inv_iff)
  have sig: "\<exists>sb. m_bytes E m = Ok sb \<and> pk_Sign K sb = Some (m_sig m)" "m_ranges m" if "m \<in> set outs" for m
    using out that unfolding outs_ok_def out_ok_def by blast+
  have same: "m_bytes E m = m_bytes E m' \<and> m_sig m = m_sig m'" if "m \<in> set outs" "m' \<in> set outs" "m_hrs m = m_hrs m'" for m m'
  proof -
    have "m_bytes E m = m_bytes E m'" using out that unfolding outs_ok_def by blast
    with sig(1) [OF that(1)] sig(1) [OF that(2)] show ?thesis by auto
  qed
  have "c = c' \<and> v_BlockID v = v_BlockID v' \<and> v_Timestamp v = v_Timestamp v' \<and> v_Signature v = v_Signature v'"
    if v: "MVote c v \<in> set outs" "MVote c' v' \<in> set outs" "v_Height v = v_Height v'" "v_Round v = v_Round v'" "v_Type v = v_Type v'" for c v c' v'
  proof -
    obtain sb where sb: "VoteSignBytes E c v = (Ok sb :: (pv_error, _) res)" using sig(1) [OF v(1)] by auto
    have "VoteSignBytes E c' v' = (Ok sb :: (pv_error, _) res)" "v_Signature v = v_Signature v'"
      using same [OF v(1,2)] v(3-5) sb by simp_all
    with VoteSignBytes_inj [OF sb this(1) _ _ assms(4)] sig(2) [OF v(1)] sig(2) [OF v(2)] show ?thesis by simp
  qed
  moreover have "ProposalSignBytes E c p = (ProposalSignBytes E c' p' :: (pv_error, _) res) \<and> p_Signature p = p_Signature p'"
    if "MProposal c p \<in> set outs" "MProposal c' p' \<in> set outs" "p_Height p = p_Height p'" "p_Round p = p_Round p'" for c p c' p'
    using same [OF that(1,2)] that(3,4) by simp
  ultimately show ?thesis using sig(1) by blast
qed

text \<open>
  A signer whose decoder knows two votes for a block that differ in the time. It is asked to sign
  the first, restarts, is asked to sign a vote for nil, which it refuses, and then the second.
\<close>

definition demo_sign :: "bytes \<Rightarrow> bytes option" where
  "demo_sign m = Some (sample_sig (replicate 32 7) m)"

definition demo_can_write :: "bytes \<Rightarrow> bool" where "demo_can_write p \<longleftrightarrow> p \<in> {[1], [2]}"

definition demo_PrivKey :: PrivKey where
  "demo_PrivKey = \<lparr>pk_PubKey = Ed25519 (replicate 32 7), pk_Sign = demo_sign\<rparr>"

definition demo_request :: "BlockID \<Rightarrow> time \<Rightarrow> msg" where
  "demo_request b t = MVote [67] (sample_vote\<lparr>v_BlockID := b, v_Timestamp := t\<rparr>)"

fun demo_um :: "bytes \<Rightarrow> CanonicalVote option" where
  "demo_um [] = None"
| "demo_um (x # xs) =
     find (\<lambda>cv. CanonicalVote_MarshalToSizedBuffer sample_env cv = Some (x # xs))
       (map (\<lambda>m. case m of MVote c v \<Rightarrow> cv_of c v)
         [demo_request (v_BlockID sample_vote) 100, demo_request (v_BlockID sample_vote) 200, demo_request bid_zero 100])"

definition demo_pv_env :: pv_env where
  "demo_pv_env = \<lparr>canWrite = demo_can_write, um_Vote = demo_um, um_Proposal = (\<lambda>_. None)\<rparr>"

definition demo_ops :: "pv_op list" where
  "demo_ops = [Sign (demo_request (v_BlockID sample_vote) 100), Restart, Sign (demo_request bid_zero 100),
     Sign (demo_request (v_BlockID sample_vote) 200)]"

definition demo_run :: "(pv_error, pv_state) res" where
  "demo_run = res_bind (pv_start sample_env demo_pv_env demo_PrivKey [1] [2]) (\<lambda>s.
     res_fold (pv_step sample_env demo_pv_env [1] [2]) s demo_ops)"

fun same_step_votes :: "(pv_error, pv_state) res \<Rightarrow> bool" where
  "same_step_votes (Ok (pv, fs, [MVote c v, MVote c' v'])) \<longleftrightarrow> v_Height v = v_Height v' \<and> v_Round v = v_Round v' \<and> v_Type v = v_Type v'"
| "same_step_votes _ \<longleftrightarrow> False"

lemma demo_run_outs: "same_step_votes demo_run"
  by code_simp

lemma demo_requests_ok: "list_all (\<lambda>op. \<forall>m \<in> op_msgs op. m_ranges m \<and> m_decodes sample_env demo_pv_env m) demo_ops"
  by code_simp

theorem no_double_signing_witness:
  "\<exists>pv fs c v c' v'. demo_run = Ok (pv, fs, [MVote c v, MVote c' v']) \<and>
    v_BlockID v = v_BlockID v' \<and> v_Timestamp v = v_Timestamp v' \<and> v_Signature v = v_Signature v'"
proof -
  obtain pv fs c v c' v' where run: "demo_run = Ok (pv, fs, [MVote c v, MVote c' v'])"
    "v_Height v = v_Height v'" "v_Round v = v_Round v'" "v_Type v = v_Type v'"
    by (rule same_step_votes.elims(2) [OF demo_run_outs]) (rule that, assumption, simp_all)
  then obtain s where s: "pv_start sample_env demo_pv_env demo_PrivKey [1] [2] = Ok s"
    "res_fold (pv_step sample_env demo_pv_env [1] [2]) s demo_ops = Ok (pv, fs, [MVote c v, MVote c' v'])"
    by (auto simp: demo_run_def res_simps)
  have "\<forall>op \<in> set demo_ops. \<forall>m \<in> op_msgs op. m_ranges m \<and> m_decodes sample_env demo_pv_env m"
    using demo_requests_ok by (simp add: list_all_iff)
  note safe = no_double_signing [OF s(1) _ s(2) sample_env_time_inj this, THEN conjunct1, rule_format, of c v c' v']
  have "v_BlockID v = v_BlockID v' \<and> v_Timestamp v = v_Timestamp v' \<and> v_Signature v = v_Signature v'"
    using safe run(2-4) by simp
  with run(1) show ?thesis by blast
qed

end
