(* ===== verification/BlockHeader.thy ===== *)
theory BlockHeader
  imports Commits
begin

text \<open>
  Transactions (\<open>types/tx.go\<close>), the data of a block, block headers (\<open>types/block.go\<close>, \<open>types/encoding_helper.go\<close>,
  \<open>types/utils.go\<close>, \<open>version/version.go\<close>), signed headers and light blocks (\<open>types/light.go\<close>).

  The three hashes that \<open>fillHeader\<close> tests against \<open>nil\<close> are options; of every other hash the code reads nothing but
  its bytes. The wrapper messages of the protobuf library that \<open>cdcEncode\<close> uses are the record \<open>wkt\<close>.

  What the lemmas show: a Merkle root, a data hash and a header hash each determine what they are computed
  from, as long as the hash does not collide on what is hashed.
\<close>

datatype header_error =
    ErrBlockProtocol uint64 | ErrChainIDTooLong int | ErrHeaderNegativeHeight | ErrHeaderZeroHeight
  | ErrLastBlockID basic_error | ErrLastCommitHash basic_error | ErrDataHash basic_error | ErrEvidenceHash basic_error
  | ErrProposerAddressSize int | ErrValidatorsHash basic_error | ErrNextValidatorsHash basic_error
  | ErrConsensusHash basic_error | ErrLastResultsHash basic_error | ErrNilHeader | ErrHeaderBlockID basic_error | ErrNilData

section \<open>Transactions\<close>

definition Tx_Key :: "env \<Rightarrow> bytes \<Rightarrow> bytes" where "Tx_Key E tx = Sum256 E tx"

definition Tx_Hash :: "env \<Rightarrow> bytes \<Rightarrow> bytes" where "Tx_Hash E tx = Sum256 E tx"

definition Txs_Hash :: "env \<Rightarrow> bytes list \<Rightarrow> bytes" where
  "Txs_Hash E txs = HashFromByteSlices (Sum256 E) (map (Tx_Hash E) txs)"

fun indexLoop :: "('a \<Rightarrow> bool) \<Rightarrow> int \<Rightarrow> 'a list \<Rightarrow> int" where
  "indexLoop P i [] = -1"
| "indexLoop P i (x # xs) = (if P x then i else indexLoop P (i + 1) xs)"

definition Txs_Index :: "bytes list \<Rightarrow> bytes \<Rightarrow> int" where
  "Txs_Index txs tx = indexLoop (\<lambda>t. t = tx) 0 txs"

definition Txs_IndexByHash :: "env \<Rightarrow> bytes list \<Rightarrow> bytes \<Rightarrow> int" where
  "Txs_IndexByHash E txs hash = indexLoop (\<lambda>t. Tx_Hash E t = hash) 0 txs"

record TxProof =
  tp_RootHash :: bytes
  tp_Data :: bytes
  tp_Proof :: Proof

datatype tx_error = ErrDifferentDataHash | ErrNegativeProofIndex | ErrProofTotalNotPositive | ErrProofInconsistent
  | ErrTxProof merkle_error

text \<open>\<open>None\<close>: a nil dereference in the construction of the proofs.\<close>

definition Txs_Proof :: "env \<Rightarrow> bytes list \<Rightarrow> int \<Rightarrow> ('e, TxProof) res" where
  "Txs_Proof E txs i =
     (case ProofsFromByteSlices (Sum256 E) (map (Tx_Hash E) txs) of
        None \<Rightarrow> Panic ''nil pointer dereference''
      | Some (root, proofs) \<Rightarrow>
          if i < 0 \<or> i \<ge> int (length txs) then Panic ''index out of range''
          else Ok \<lparr>tp_RootHash = root, tp_Data = txs ! nat i, tp_Proof = proofs ! nat i\<rparr>)"

definition TxProof_Leaf :: "env \<Rightarrow> TxProof \<Rightarrow> bytes" where
  "TxProof_Leaf E tp = Tx_Hash E (tp_Data tp)"

definition TxProof_Validate :: "env \<Rightarrow> TxProof \<Rightarrow> bytes \<Rightarrow> (tx_error, unit) res" where
  "TxProof_Validate E tp dataHash =
     (if dataHash \<noteq> tp_RootHash tp then Err ErrDifferentDataHash
      else if Index (tp_Proof tp) < 0 then Err ErrNegativeProofIndex
      else if Total (tp_Proof tp) \<le> 0 then Err ErrProofTotalNotPositive
      else case Proof_Verify (Sum256 E) (tp_Proof tp) (tp_RootHash tp) (TxProof_Leaf E tp) of
             Ok _ \<Rightarrow> Ok ()
           | Err _ \<Rightarrow> Err ErrProofInconsistent
           | Panic s \<Rightarrow> Panic s)"

record protoTxProof =
  ptp_RootHash :: bytes
  ptp_Data :: bytes
  ptp_Proof :: "protoProof option"

definition TxProof_ToProto :: "TxProof \<Rightarrow> protoTxProof" where
  "TxProof_ToProto tp =
     \<lparr>ptp_RootHash = tp_RootHash tp, ptp_Data = tp_Data tp, ptp_Proof = Proof_ToProto (Some (tp_Proof tp))\<rparr>"

definition TxProofFromProto :: "protoTxProof \<Rightarrow> (tx_error, TxProof) res" where
  "TxProofFromProto pb =
     (case ProofFromProto (ptp_Proof pb) of
        Err e \<Rightarrow> Err (ErrTxProof e)
      | Panic s \<Rightarrow> Panic s
      | Ok pbProof \<Rightarrow> Ok \<lparr>tp_RootHash = ptp_RootHash pb, tp_Data = ptp_Data pb, tp_Proof = pbProof\<rparr>)"

section \<open>Data\<close>

record Data =
  d_Txs :: "bytes list"
  d_hash :: "bytes option"

definition Data_Hash :: "env \<Rightarrow> Data option \<Rightarrow> Data option \<times> bytes" where
  "Data_Hash E od =
     (case od of None \<Rightarrow> (None, Txs_Hash E [])
      | Some data \<Rightarrow>
          (case d_hash data of Some h \<Rightarrow> (Some data, h)
           | None \<Rightarrow> (let h = Txs_Hash E (d_Txs data) in (Some (data\<lparr>d_hash := Some h\<rparr>), h))))"

text \<open>The message \<open>Data\<close> is its list of transactions.\<close>

definition Data_ToProto :: "Data \<Rightarrow> bytes list" where
  "Data_ToProto data = (if length (d_Txs data) > 0 then map (\<lambda>i. d_Txs data ! i) [0..<length (d_Txs data)] else [])"

definition DataFromProto :: "bytes list option \<Rightarrow> (header_error, Data) res" where
  "DataFromProto dp =
     (case dp of None \<Rightarrow> Err ErrNilData
      | Some txs \<Rightarrow>
          Ok \<lparr>d_Txs = (if length txs > 0 then map (\<lambda>i. txs ! i) [0..<length txs] else []), d_hash = None\<rparr>)"

text \<open>\<open>Data.Size\<close> of the generated code.\<close>

definition protoData_Size :: "bytes list \<Rightarrow> nat" where
  "protoData_Size txs = (if length txs > 0 then fold (\<lambda>b n. n + (1 + length b + sov (length b))) txs 0 else 0)"

definition ComputeProtoSizeForTxs :: "bytes list \<Rightarrow> int64" where
  "ComputeProtoSizeForTxs txs = int (protoData_Size (Data_ToProto \<lparr>d_Txs = txs, d_hash = None\<rparr>))"

section \<open>Headers\<close>

definition BlockProtocol :: "64 word" where "BlockProtocol = 11"

record Consensus =
  ver_Block :: "64 word"
  ver_App :: "64 word"

definition Consensus_ToProto :: "Consensus \<Rightarrow> Consensus" where
  "Consensus_ToProto c = \<lparr>ver_Block = ver_Block c, ver_App = ver_App c\<rparr>"

definition Consensus_MarshalToSizedBuffer :: "Consensus \<Rightarrow> bytes" where
  "Consensus_MarshalToSizedBuffer m =
     (let acc = [];
          acc = (if ver_App m \<noteq> 0 then 0x10 # encodeVarint acc (unat (ver_App m)) else acc);
          acc = (if ver_Block m \<noteq> 0 then 0x08 # encodeVarint acc (unat (ver_Block m)) else acc)
      in acc)"

definition Consensus_Size :: "Consensus \<Rightarrow> nat" where
  "Consensus_Size m =
     (let n = (if ver_Block m \<noteq> 0 then 1 + sov (unat (ver_Block m)) else 0)
      in if ver_App m \<noteq> 0 then n + (1 + sov (unat (ver_App m))) else n)"

definition Consensus_Marshal :: "Consensus \<Rightarrow> ('e, bytes) res" where
  "Consensus_Marshal m = marshalSized (Consensus_Size m) (Consensus_MarshalToSizedBuffer m)"

text \<open>The wrapper messages of the protobuf library; \<open>None\<close> is an error.\<close>

record wkt =
  StringValue_Marshal :: "bytes \<Rightarrow> bytes option"
  Int64Value_Marshal :: "int64 \<Rightarrow> bytes option"
  BytesValue_Marshal :: "bytes \<Rightarrow> bytes option"

datatype cdc_item = CdcString bytes | CdcInt64 int64 | CdcBytes bytes

fun isEmpty :: "cdc_item \<Rightarrow> bool" where
  "isEmpty (CdcString s) \<longleftrightarrow> length s = 0"
| "isEmpty (CdcInt64 i) \<longleftrightarrow> False"
| "isEmpty (CdcBytes b) \<longleftrightarrow> length b = 0"

text \<open>A nil slice is empty as well, so that the test for a typed nil adds nothing on these items.\<close>

fun cdcEncode :: "wkt \<Rightarrow> cdc_item \<Rightarrow> bytes" where
  "cdcEncode W item =
     (if \<not> isEmpty item
      then (case item of
              CdcString s \<Rightarrow> case_option [] id (StringValue_Marshal W s)
            | CdcInt64 i \<Rightarrow> case_option [] id (Int64Value_Marshal W i)
            | CdcBytes b \<Rightarrow> case_option [] id (BytesValue_Marshal W b))
      else [])"

definition MaxChainIDLen :: int where "MaxChainIDLen = 50"

record Header =
  h_Version :: Consensus
  h_ChainID :: bytes
  h_Height :: int64
  h_Time :: time
  h_LastBlockID :: BlockID
  h_LastCommitHash :: "bytes option"
  h_DataHash :: "bytes option"
  h_ValidatorsHash :: bytes
  h_NextValidatorsHash :: bytes
  h_ConsensusHash :: bytes
  h_AppHash :: bytes
  h_LastResultsHash :: bytes
  h_EvidenceHash :: "bytes option"
  h_ProposerAddress :: bytes

definition Header_Populate :: "Header \<Rightarrow> Consensus \<Rightarrow> bytes \<Rightarrow> time \<Rightarrow> BlockID \<Rightarrow> bytes \<Rightarrow> bytes \<Rightarrow> bytes \<Rightarrow> bytes \<Rightarrow> bytes \<Rightarrow> bytes \<Rightarrow> Header" where
  "Header_Populate h version chainID timestamp lastBlockID valHash nextValHash consensusHash appHash lastResultsHash proposerAddress =
     h\<lparr>h_Version := version, h_ChainID := chainID, h_Time := timestamp, h_LastBlockID := lastBlockID,
       h_ValidatorsHash := valHash, h_NextValidatorsHash := nextValHash, h_ConsensusHash := consensusHash,
       h_AppHash := appHash, h_LastResultsHash := lastResultsHash, h_ProposerAddress := proposerAddress\<rparr>"

text \<open>An error of \<open>ValidateHash\<close> wrapped with the name of its field.\<close>

definition checkHash :: "(basic_error \<Rightarrow> 'e) \<Rightarrow> bytes \<Rightarrow> ('e, unit) res" where
  "checkHash wrap h = (case ValidateHash h of Err e \<Rightarrow> Err (wrap e) | Panic s \<Rightarrow> Panic s | Ok _ \<Rightarrow> Ok ())"

definition Header_ValidateBasic :: "Header \<Rightarrow> (header_error, unit) res" where
  "Header_ValidateBasic h =
     (if ver_Block (h_Version h) \<noteq> BlockProtocol then Err (ErrBlockProtocol (uint (ver_Block (h_Version h))))
      else if int (length (h_ChainID h)) > MaxChainIDLen then Err (ErrChainIDTooLong (int (length (h_ChainID h))))
      else if h_Height h < 0 then Err ErrHeaderNegativeHeight
      else if h_Height h = 0 then Err ErrHeaderZeroHeight
      else res_bind (case bid_ValidateBasic (h_LastBlockID h) of
                       Err e \<Rightarrow> Err (ErrLastBlockID e) | Panic s \<Rightarrow> Panic s | Ok _ \<Rightarrow> Ok ()) (\<lambda>_.
           res_bind (checkHash ErrLastCommitHash (go_bytes (h_LastCommitHash h))) (\<lambda>_.
           res_bind (checkHash ErrDataHash (go_bytes (h_DataHash h))) (\<lambda>_.
           res_bind (checkHash ErrEvidenceHash (go_bytes (h_EvidenceHash h))) (\<lambda>_.
           if length (h_ProposerAddress h) \<noteq> AddressSize then Err (ErrProposerAddressSize (int (length (h_ProposerAddress h))))
           else
           res_bind (checkHash ErrValidatorsHash (h_ValidatorsHash h)) (\<lambda>_.
           res_bind (checkHash ErrNextValidatorsHash (h_NextValidatorsHash h)) (\<lambda>_.
           res_bind (checkHash ErrConsensusHash (h_ConsensusHash h)) (\<lambda>_.
           checkHash ErrLastResultsHash (h_LastResultsHash h)))))))))"

definition BlockID_Marshal :: "BlockID \<Rightarrow> ('e, bytes) res" where
  "BlockID_Marshal m = marshalSized (BlockID_Size m) (BlockID_MarshalToSizedBuffer m)"

definition Header_Hash :: "env \<Rightarrow> wkt \<Rightarrow> Header option \<Rightarrow> ('e, bytes option) res" where
  "Header_Hash E W oh =
     (case oh of None \<Rightarrow> Ok None
      | Some h \<Rightarrow>
          if length (h_ValidatorsHash h) = 0 then Ok None
          else res_bind (Consensus_Marshal (Consensus_ToProto (h_Version h))) (\<lambda>hbz.
            case StdTimeMarshal E (h_Time h) of None \<Rightarrow> Ok None
            | Some pbt \<Rightarrow>
                res_bind (BlockID_Marshal (bid_ToProto (Some (h_LastBlockID h)))) (\<lambda>bzbi.
                  Ok (Some (HashFromByteSlices (Sum256 E)
                    [hbz, cdcEncode W (CdcString (h_ChainID h)), cdcEncode W (CdcInt64 (h_Height h)), pbt, bzbi,
                     cdcEncode W (CdcBytes (go_bytes (h_LastCommitHash h))), cdcEncode W (CdcBytes (go_bytes (h_DataHash h))),
                     cdcEncode W (CdcBytes (h_ValidatorsHash h)), cdcEncode W (CdcBytes (h_NextValidatorsHash h)),
                     cdcEncode W (CdcBytes (h_ConsensusHash h)), cdcEncode W (CdcBytes (h_AppHash h)),
                     cdcEncode W (CdcBytes (h_LastResultsHash h)), cdcEncode W (CdcBytes (go_bytes (h_EvidenceHash h))),
                     cdcEncode W (CdcBytes (h_ProposerAddress h))])))))"

text \<open>The protobuf header has the fields of the Go struct and is identified with it.\<close>

definition Header_ToProto :: "Header option \<Rightarrow> Header option" where
  "Header_ToProto oh =
     map_option (\<lambda>h. h\<lparr>h_Version := Consensus_ToProto (h_Version h), h_LastBlockID := bid_ToProto (Some (h_LastBlockID h))\<rparr>) oh"

definition HeaderFromProto :: "Header option \<Rightarrow> (header_error, Header) res" where
  "HeaderFromProto oph =
     (case oph of None \<Rightarrow> Err ErrNilHeader
      | Some ph \<Rightarrow>
          (case BlockIDFromProto (Some (h_LastBlockID ph)) of
             Err e \<Rightarrow> Err (ErrHeaderBlockID e)
           | Panic s \<Rightarrow> Panic s
           | Ok bi \<Rightarrow>
               (let h = \<lparr>h_Version = \<lparr>ver_Block = ver_Block (h_Version ph), ver_App = ver_App (h_Version ph)\<rparr>,
                    h_ChainID = h_ChainID ph, h_Height = h_Height ph, h_Time = h_Time ph, h_LastBlockID = bi,
                    h_LastCommitHash = h_LastCommitHash ph, h_DataHash = h_DataHash ph,
                    h_ValidatorsHash = h_ValidatorsHash ph, h_NextValidatorsHash = h_NextValidatorsHash ph,
                    h_ConsensusHash = h_ConsensusHash ph, h_AppHash = h_AppHash ph, h_LastResultsHash = h_LastResultsHash ph,
                    h_EvidenceHash = h_EvidenceHash ph, h_ProposerAddress = h_ProposerAddress ph\<rparr>
                in res_bind (Header_ValidateBasic h) (\<lambda>_. Ok h))))"

section \<open>Signed headers and light blocks\<close>

datatype light_error =
    ErrMissingHeader | ErrMissingCommit | ErrInvalidHeaderBasic header_error | ErrInvalidCommitBasic commit_error
  | ErrOtherChain bytes bytes | ErrHeightMismatch int64 int64 | ErrCommitSignsOther bytes bytes
  | ErrMissingSignedHeader | ErrMissingValidatorSet | ErrInvalidSignedHeader light_error | ErrInvalidValidatorSet valset_error
  | ErrValidatorHashMismatch bytes bytes | ErrNilSignedHeader | ErrNilLightBlock
  | ErrLightHeader header_error | ErrLightCommit commit_error | ErrLightValidators valset_error

record SignedHeader =
  sh_Header :: "Header option"
  sh_Commit :: "Commit option"

definition SignedHeader_ValidateBasic :: "env \<Rightarrow> wkt \<Rightarrow> SignedHeader \<Rightarrow> bytes \<Rightarrow> (light_error, unit) res" where
  "SignedHeader_ValidateBasic E W sh chainID =
     (case sh_Header sh of None \<Rightarrow> Err ErrMissingHeader
      | Some h \<Rightarrow>
          (case sh_Commit sh of None \<Rightarrow> Err ErrMissingCommit
           | Some commit \<Rightarrow>
               (case Header_ValidateBasic h of Err e \<Rightarrow> Err (ErrInvalidHeaderBasic e) | Panic s \<Rightarrow> Panic s
                | Ok _ \<Rightarrow>
                    (case Commit_ValidateBasic commit of Err e \<Rightarrow> Err (ErrInvalidCommitBasic e) | Panic s \<Rightarrow> Panic s
                     | Ok _ \<Rightarrow>
                         if h_ChainID h \<noteq> chainID then Err (ErrOtherChain (h_ChainID h) chainID)
                         else if c_Height commit \<noteq> h_Height h then Err (ErrHeightMismatch (h_Height h) (c_Height commit))
                         else res_bind (Header_Hash E W (Some h)) (\<lambda>hhash.
                           let chash = bid_Hash (c_BlockID commit)
                           in if go_bytes hhash \<noteq> chash then Err (ErrCommitSignsOther chash (go_bytes hhash)) else Ok ())))))"

record protoSignedHeader =
  psh_Header :: "Header option"
  psh_Commit :: "protoCommit option"

definition SignedHeader_ToProto :: "SignedHeader option \<Rightarrow> protoSignedHeader option" where
  "SignedHeader_ToProto osh =
     map_option (\<lambda>sh. \<lparr>psh_Header = (case sh_Header sh of None \<Rightarrow> None | Some h \<Rightarrow> Header_ToProto (Some h)),
                       psh_Commit = (case sh_Commit sh of None \<Rightarrow> None | Some c \<Rightarrow> Commit_ToProto (Some c))\<rparr>) osh"

definition SignedHeaderFromProto :: "protoSignedHeader option \<Rightarrow> (light_error, SignedHeader) res" where
  "SignedHeaderFromProto oshp =
     (case oshp of None \<Rightarrow> Err ErrNilSignedHeader
      | Some shp \<Rightarrow>
          res_bind (case psh_Header shp of None \<Rightarrow> Ok None
                    | Some ph \<Rightarrow> (case HeaderFromProto (Some ph) of
                                   Err e \<Rightarrow> Err (ErrLightHeader e) | Panic s \<Rightarrow> Panic s | Ok h \<Rightarrow> Ok (Some h))) (\<lambda>h.
          res_bind (case psh_Commit shp of None \<Rightarrow> Ok None
                    | Some pc \<Rightarrow> (case CommitFromProto (Some pc) of
                                   Err e \<Rightarrow> Err (ErrLightCommit e) | Panic s \<Rightarrow> Panic s | Ok c \<Rightarrow> Ok (Some c))) (\<lambda>c.
            Ok \<lparr>sh_Header = h, sh_Commit = c\<rparr>)))"

record LightBlock =
  lb_SignedHeader :: "SignedHeader option"
  lb_ValidatorSet :: "ValidatorSet option"

definition LightBlock_ValidateBasic :: "env \<Rightarrow> wkt \<Rightarrow> LightBlock \<Rightarrow> bytes \<Rightarrow> (light_error, unit) res" where
  "LightBlock_ValidateBasic E W lb chainID =
     (case lb_SignedHeader lb of None \<Rightarrow> Err ErrMissingSignedHeader
      | Some sh \<Rightarrow>
          (case lb_ValidatorSet lb of None \<Rightarrow> Err ErrMissingValidatorSet
           | Some vals \<Rightarrow>
               (case SignedHeader_ValidateBasic E W sh chainID of Err e \<Rightarrow> Err (ErrInvalidSignedHeader e) | Panic s \<Rightarrow> Panic s
                | Ok _ \<Rightarrow>
                    (case ValidatorSet_ValidateBasic (Some vals) of Err e \<Rightarrow> Err (ErrInvalidValidatorSet e) | Panic s \<Rightarrow> Panic s
                     | Ok _ \<Rightarrow>
                         res_bind (ValidatorSet_Hash E vals) (\<lambda>valSetHash.
                           (case sh_Header sh of None \<Rightarrow> Panic ''nil pointer dereference''
                            | Some h \<Rightarrow>
                                if h_ValidatorsHash h \<noteq> valSetHash then Err (ErrValidatorHashMismatch (h_ValidatorsHash h) valSetHash)
                                else Ok ()))))))"

record protoLightBlock =
  plb_SignedHeader :: "protoSignedHeader option"
  plb_ValidatorSet :: "protoValidatorSet option"

definition LightBlock_ToProto :: "LightBlock option \<Rightarrow> (light_error, protoLightBlock option) res" where
  "LightBlock_ToProto olb =
     (case olb of None \<Rightarrow> Ok None
      | Some lb \<Rightarrow>
          (let sh = (case lb_SignedHeader lb of None \<Rightarrow> None | Some s \<Rightarrow> SignedHeader_ToProto (Some s))
           in case lb_ValidatorSet lb of
                None \<Rightarrow> Ok (Some \<lparr>plb_SignedHeader = sh, plb_ValidatorSet = None\<rparr>)
              | Some vals \<Rightarrow>
                  (case ValidatorSet_ToProto (Some vals) of
                     Err e \<Rightarrow> Err (ErrLightValidators e) | Panic s \<Rightarrow> Panic s
                   | Ok pvals \<Rightarrow> Ok (Some \<lparr>plb_SignedHeader = sh, plb_ValidatorSet = Some pvals\<rparr>))))"

definition LightBlockFromProto :: "protoLightBlock option \<Rightarrow> (light_error, LightBlock) res" where
  "LightBlockFromProto opb =
     (case opb of None \<Rightarrow> Err ErrNilLightBlock
      | Some pb \<Rightarrow>
          res_bind (case plb_SignedHeader pb of None \<Rightarrow> Ok None
                    | Some s \<Rightarrow> res_bind (SignedHeaderFromProto (Some s)) (\<lambda>sh. Ok (Some sh))) (\<lambda>sh.
          res_bind (case plb_ValidatorSet pb of None \<Rightarrow> Ok None
                    | Some v \<Rightarrow> (case ValidatorSetFromProto (Some v) of
                                  Err e \<Rightarrow> Err (ErrLightValidators e) | Panic s \<Rightarrow> Panic s | Ok vals \<Rightarrow> Ok (Some vals))) (\<lambda>vals.
            Ok \<lparr>lb_SignedHeader = sh, lb_ValidatorSet = vals\<rparr>)))"

section \<open>Hashes determine what they hash\<close>

lemma treeInputs_shape:
  "treeInputs H [] = [[]]" "treeInputs H [a] = [0 # a]"
  "2 \<le> length xs \<Longrightarrow> treeInputs H xs =
     (1 # hashFromByteSlices H (take (cut xs) xs) @ hashFromByteSlices H (drop (cut xs) xs)) #
     treeInputs H (take (cut xs) xs) @ treeInputs H (drop (cut xs) xs)"
  by (simp_all add: treeInputs.simps [of H "[]"] treeInputs.simps [of H "[a]"])
    (subst treeInputs.simps, cases xs, auto)

lemma hash_root_input: "hashFromByteSlices H xs = H (hd (treeInputs H xs))"
proof -
  consider "xs = []" | a where "xs = [a]" | "2 \<le> length xs" by (cases xs rule: remdups_adj.cases) auto
  then show ?thesis
    by cases (auto simp: treeInputs_shape emptyHash_def leafHash_eq hash_split innerHash_eq)
qed

lemma list_cases_012: obtains "xs = []" | a where "xs = [a]" | "2 \<le> length xs"
  by (cases xs rule: remdups_adj.cases) auto

lemma root_inj:
  assumes "hashFromByteSlices H xs = hashFromByteSlices H ys" "hash32 H"
    and "inj_on H (set (treeInputs H xs) \<union> set (treeInputs H ys))"
  shows "xs = ys"
  using assms(1,3)
proof (induction xs arbitrary: ys rule: length_induct)
  case (1 xs)
  have ne: "treeInputs H zs \<noteq> []" for zs by (subst treeInputs.simps) simp
  have "H (hd (treeInputs H xs)) = H (hd (treeInputs H ys))" using "1.prems"(1) by (simp add: hash_root_input)
  then have eq: "hd (treeInputs H xs) = hd (treeInputs H ys)"
    using "1.prems"(2) hd_in_set [OF ne] by (auto dest: inj_onD)
  show ?case
  proof (cases rule: list_cases_012 [of xs]; cases rule: list_cases_012 [of ys])
    assume len: "2 \<le> length xs" "2 \<le> length ys"
    let ?l = "take (cut xs) xs" and ?r = "drop (cut xs) xs" and ?l' = "take (cut ys) ys" and ?r' = "drop (cut ys) ys"
    have "hashFromByteSlices H ?l = hashFromByteSlices H ?l'" "hashFromByteSlices H ?r = hashFromByteSlices H ?r'"
      using eq computed_length [OF assms(2)] by (simp_all add: treeInputs_shape(3) [OF len(1)] treeInputs_shape(3) [OF len(2)])
    moreover have "inj_on H (set (treeInputs H ?l) \<union> set (treeInputs H ?l'))"
      "inj_on H (set (treeInputs H ?r) \<union> set (treeInputs H ?r'))"
      by (rule inj_on_subset [OF "1.prems"(2)]; use treeInputs_split [OF len(1)] treeInputs_split [OF len(2)] in blast)+
    moreover have "length ?l < length xs" "length ?r < length xs" using cut_bounds [OF len(1)] by simp_all
    ultimately have "?l = ?l'" "?r = ?r'" using "1.IH" by blast+
    then have "?l @ ?r = ?l' @ ?r'" by (rule arg_cong2)
    then show ?thesis by simp
  qed (use eq in \<open>auto simp: treeInputs_shape\<close>)
qed

lemma HashFromByteSlices_inj:
  "HashFromByteSlices H xs = HashFromByteSlices H ys \<Longrightarrow> hash32 H \<Longrightarrow>
    inj_on H (set (treeInputs H xs) \<union> set (treeInputs H ys)) \<Longrightarrow> xs = ys"
  by (auto simp: HashFromByteSlices_def dest: root_inj)

text \<open>What the wrapper messages promise: different values have different encodings, the zero value the empty one.\<close>

definition wkt_documented :: "wkt \<Rightarrow> bool" where
  "wkt_documented W \<longleftrightarrow>
     (\<forall>s. StringValue_Marshal W s \<noteq> None) \<and> (\<forall>i. is_int64 i \<longrightarrow> Int64Value_Marshal W i \<noteq> None) \<and> (\<forall>b. BytesValue_Marshal W b \<noteq> None) \<and>
     inj (StringValue_Marshal W) \<and> inj_on (Int64Value_Marshal W) {i. is_int64 i} \<and> inj (BytesValue_Marshal W) \<and>
     StringValue_Marshal W [] = Some [] \<and> BytesValue_Marshal W [] = Some []"

lemma cdcEncode_inj:
  assumes "wkt_documented W"
  shows "cdcEncode W (CdcString s) = cdcEncode W (CdcString s') \<Longrightarrow> s = s'"
    "cdcEncode W (CdcBytes b) = cdcEncode W (CdcBytes b') \<Longrightarrow> b = b'"
    "is_int64 i \<Longrightarrow> is_int64 i' \<Longrightarrow> cdcEncode W (CdcInt64 i) = cdcEncode W (CdcInt64 i') \<Longrightarrow> i = i'"
proof -
  note W = assms [unfolded wkt_documented_def]
  have n: "StringValue_Marshal W s \<noteq> None" "BytesValue_Marshal W b \<noteq> None" "is_int64 i \<Longrightarrow> Int64Value_Marshal W i \<noteq> None" for s b i
    using W by blast+
  have z: "StringValue_Marshal W [] = Some []" "BytesValue_Marshal W [] = Some []" using W by blast+
  have S: "StringValue_Marshal W s = Some (cdcEncode W (CdcString s))" for s
    using z n(1) [of s] by (cases "s = []") auto
  have B: "BytesValue_Marshal W b = Some (cdcEncode W (CdcBytes b))" for b
    using z n(2) [of b] by (cases "b = []") auto
  have I: "Int64Value_Marshal W i = Some (cdcEncode W (CdcInt64 i))" if "is_int64 i" for i
    using n(3) [OF that] by auto
  show "s = s'" if "cdcEncode W (CdcString s) = cdcEncode W (CdcString s')"
    by (rule injD [of "StringValue_Marshal W"]) (use W in blast, simp only: S that)
  show "b = b'" if "cdcEncode W (CdcBytes b) = cdcEncode W (CdcBytes b')"
    by (rule injD [of "BytesValue_Marshal W"]) (use W in blast, simp only: B that)
  show "i = i'" if "is_int64 i" "is_int64 i'" "cdcEncode W (CdcInt64 i) = cdcEncode W (CdcInt64 i')"
    by (rule inj_onD [of "Int64Value_Marshal W" "{i. is_int64 i}"]) (use W in blast, simp_all only: I that mem_Collect_eq)
qed

declare cdcEncode.simps [simp del]

definition verFields :: "Consensus \<Rightarrow> wire_field list" where
  "verFields m = opt_varint 0x08 (unat (ver_Block m)) @ opt_varint 0x10 (unat (ver_App m))"

lemma Consensus_Marshal_Ok: "Consensus_Marshal m = Ok (encFields (verFields m))"
proof -
  have "Consensus_MarshalToSizedBuffer m = encFields (verFields m)"
    by (simp add: Consensus_MarshalToSizedBuffer_def verFields_def opt_defs Let_def unat_eq_zero)
  moreover have "length (Consensus_MarshalToSizedBuffer m) = Consensus_Size m"
    by (simp add: Consensus_MarshalToSizedBuffer_def Consensus_Size_def Let_def sov_putUvarint)
  ultimately show ?thesis by (simp add: Consensus_Marshal_def)
qed

lemma verFields_inj: "encFields (verFields a) = encFields (verFields b) \<longleftrightarrow> a = b"
proof -
  have "list_all tagged (verFields m)" for m by (simp add: verFields_def)
  moreover have "verFields a = verFields b \<longleftrightarrow> a = b"
    by (cases a; cases b) (auto simp: verFields_def opt_defs unat_eq_zero simp flip: word_unat_eq_iff split: if_splits)
  ultimately show ?thesis by (simp add: encFields_inj)
qed

lemma BlockID_Marshal_Ok: "BlockID_Marshal b = Ok (BlockID_MarshalToSizedBuffer b)"
  by (simp add: BlockID_Marshal_def BlockID_Size_exact)

definition headerLeaves :: "wkt \<Rightarrow> Header \<Rightarrow> bytes \<Rightarrow> bytes list" where
  "headerLeaves W h t =
     [encFields (verFields (h_Version h)), cdcEncode W (CdcString (h_ChainID h)), cdcEncode W (CdcInt64 (h_Height h)), t,
      BlockID_MarshalToSizedBuffer (h_LastBlockID h),
      cdcEncode W (CdcBytes (go_bytes (h_LastCommitHash h))), cdcEncode W (CdcBytes (go_bytes (h_DataHash h))),
      cdcEncode W (CdcBytes (h_ValidatorsHash h)), cdcEncode W (CdcBytes (h_NextValidatorsHash h)),
      cdcEncode W (CdcBytes (h_ConsensusHash h)), cdcEncode W (CdcBytes (h_AppHash h)),
      cdcEncode W (CdcBytes (h_LastResultsHash h)), cdcEncode W (CdcBytes (go_bytes (h_EvidenceHash h))),
      cdcEncode W (CdcBytes (h_ProposerAddress h))]"

lemma Header_Hash_eq:
  "Header_Hash E W (Some h) = Ok (if h_ValidatorsHash h = [] then None else
     map_option (\<lambda>t. HashFromByteSlices (Sum256 E) (headerLeaves W h t)) (StdTimeMarshal E (h_Time h)))"
proof -
  have "Consensus_ToProto c = c" for c by (simp add: Consensus_ToProto_def)
  then show ?thesis
    by (simp add: Header_Hash_def Consensus_Marshal_Ok BlockID_Marshal_Ok bid_proto_id headerLeaves_def split: option.split)
qed

lemma headerLeaves_inj:
  assumes "headerLeaves W h t = headerLeaves W h' t'" "wkt_documented W" "is_int64 (h_Height h)" "is_int64 (h_Height h')"
  shows "t = t' \<and> h_Version h = h_Version h' \<and> h_ChainID h = h_ChainID h' \<and> h_Height h = h_Height h' \<and>
    h_LastBlockID h = h_LastBlockID h' \<and> go_bytes (h_LastCommitHash h) = go_bytes (h_LastCommitHash h') \<and>
    go_bytes (h_DataHash h) = go_bytes (h_DataHash h') \<and> h_ValidatorsHash h = h_ValidatorsHash h' \<and>
    h_NextValidatorsHash h = h_NextValidatorsHash h' \<and> h_ConsensusHash h = h_ConsensusHash h' \<and>
    h_AppHash h = h_AppHash h' \<and> h_LastResultsHash h = h_LastResultsHash h' \<and>
    go_bytes (h_EvidenceHash h) = go_bytes (h_EvidenceHash h') \<and> h_ProposerAddress h = h_ProposerAddress h'"
  using assms(1,3,4) unfolding headerLeaves_def
  by (simp add: verFields_inj BlockID_Marshal_inj) (metis cdcEncode_inj [OF assms(2)])

text \<open>A header up to the difference between a nil and an empty slice, which no hash and no encoding sees.\<close>

definition nil_norm :: "bytes option \<Rightarrow> bytes option" where
  "nil_norm s = (if go_bytes s = [] then None else s)"

lemma nil_norm_eq: "nil_norm a = nil_norm b \<longleftrightarrow> go_bytes a = go_bytes b"
  by (cases a; cases b) (auto simp: nil_norm_def go_bytes_def)

definition header_norm :: "Header \<Rightarrow> Header" where
  "header_norm h = h\<lparr>h_LastCommitHash := nil_norm (h_LastCommitHash h), h_DataHash := nil_norm (h_DataHash h),
     h_EvidenceHash := nil_norm (h_EvidenceHash h)\<rparr>"

text \<open>The byte strings hashed for a header.\<close>

definition headerInputs :: "env \<Rightarrow> wkt \<Rightarrow> Header \<Rightarrow> bytes list" where
  "headerInputs E W h = (case StdTimeMarshal E (h_Time h) of None \<Rightarrow> []
     | Some t \<Rightarrow> treeInputs (Sum256 E) (headerLeaves W h t))"

lemma Header_Hash_inj:
  assumes "Header_Hash E W (Some h) = (Ok (Some x) :: ('e, _) res)" "Header_Hash E W (Some h') = (Ok (Some x) :: ('e, _) res)"
    and "wkt_documented W" "time_inj E" "hash32 (Sum256 E)" "is_int64 (h_Height h)" "is_int64 (h_Height h')"
    and "inj_on (Sum256 E) (set (headerInputs E W h) \<union> set (headerInputs E W h'))"
  shows "header_norm h = header_norm h'"
proof -
  obtain t where t: "StdTimeMarshal E (h_Time h) = Some t" "x = HashFromByteSlices (Sum256 E) (headerLeaves W h t)"
    using assms(1) by (auto simp: Header_Hash_eq split: if_splits)
  obtain t' where t': "StdTimeMarshal E (h_Time h') = Some t'" "x = HashFromByteSlices (Sum256 E) (headerLeaves W h' t')"
    using assms(2) by (auto simp: Header_Hash_eq split: if_splits)
  have "headerLeaves W h t = headerLeaves W h' t'"
    by (rule HashFromByteSlices_inj [OF _ assms(5)]) (use t t' assms(8) in \<open>simp_all add: headerInputs_def\<close>)
  note eq = headerLeaves_inj [OF this assms(3,6,7)]
  moreover have "h_Time h = h_Time h'" using eq t(1) t'(1) assms(4) by (auto simp: time_inj_def)
  ultimately show ?thesis by (cases h; cases h') (simp add: header_norm_def nil_norm_eq)
qed

definition dataInputs :: "env \<Rightarrow> bytes list \<Rightarrow> bytes list" where
  "dataInputs E txs = txs @ treeInputs (Sum256 E) (map (Tx_Hash E) txs)"

lemma Txs_Hash_inj:
  assumes "Txs_Hash E txs = Txs_Hash E txs'" "hash32 (Sum256 E)"
    and "inj_on (Sum256 E) (set (dataInputs E txs) \<union> set (dataInputs E txs'))"
  shows "txs = txs'"
proof -
  have "map (Tx_Hash E) txs = map (Tx_Hash E) txs'"
    by (rule HashFromByteSlices_inj [OF assms(1) [unfolded Txs_Hash_def] assms(2)])
      (rule inj_on_subset [OF assms(3)], auto simp: dataInputs_def)
  moreover have "inj_on (Tx_Hash E) (set txs \<union> set txs')"
    by (rule inj_onI) (use assms(3) in \<open>auto simp: dataInputs_def Tx_Hash_def dest: inj_onD\<close>)
  ultimately show ?thesis by (simp add: inj_on_map_eq_map)
qed

end
