(* ===== verification/Messages.thy ===== *)
theory Messages
  imports BlockHeader
begin

text \<open>
  The marshalled forms of votes, commits, validators, validator sets, headers, signed headers and light blocks
  (\<open>proto/tendermint/types/types.pb.go\<close>, \<open>validator.pb.go\<close>). A \<open>MarshalToSizedBuffer\<close> is the bytes it writes
  below the end of its buffer, the last field first; \<open>None\<close> is the error of a timestamp that cannot be encoded.
  The writers \<open>wr_*\<close> and the sizes \<open>sz_*\<close> are the text that the generator repeats for each kind of field.

  What the lemmas show: every \<open>Size\<close> is the number of bytes written, and the bytes are those of a list of fields.
\<close>

section \<open>The kinds of fields\<close>

definition wr_bytes :: "byte \<Rightarrow> bytes \<Rightarrow> bytes option \<Rightarrow> bytes option" where
  "wr_bytes tag bs = map_option (\<lambda>acc. if length bs > 0 then tag # encodeVarint (bs @ acc) (length bs) else acc)"

definition wr_varint :: "byte \<Rightarrow> int64 \<Rightarrow> bytes option \<Rightarrow> bytes option" where
  "wr_varint tag v = map_option (\<lambda>acc. if v \<noteq> 0 then tag # encodeVarint acc (to_uint64 v) else acc)"

definition wr_msg :: "byte \<Rightarrow> bytes option \<Rightarrow> bytes option \<Rightarrow> bytes option" where
  "wr_msg tag sub oacc =
     (case oacc of None \<Rightarrow> None
      | Some acc \<Rightarrow> map_option (\<lambda>s. tag # encodeVarint (s @ acc) (length s)) sub)"

text \<open>A pointer is written when it is not nil, a slice from its last element to its first.\<close>

definition wr_ptr :: "byte \<Rightarrow> bytes option option \<Rightarrow> bytes option \<Rightarrow> bytes option" where
  "wr_ptr tag p acc = (case p of None \<Rightarrow> acc | Some sub \<Rightarrow> wr_msg tag sub acc)"

definition wr_msgs :: "byte \<Rightarrow> bytes option list \<Rightarrow> bytes option \<Rightarrow> bytes option" where
  "wr_msgs tag subs acc = foldr (wr_msg tag) subs acc"

definition sz_msg :: "nat \<Rightarrow> nat" where "sz_msg l = 1 + l + sov l"
definition sz_bytes :: "bytes \<Rightarrow> nat" where "sz_bytes bs = (let l = length bs in if l > 0 then 1 + l + sov l else 0)"
definition sz_varint :: "int64 \<Rightarrow> nat" where "sz_varint v = (if v \<noteq> 0 then 1 + sov (to_uint64 v) else 0)"
definition sz_ptr :: "nat option \<Rightarrow> nat" where "sz_ptr p = (case p of None \<Rightarrow> 0 | Some l \<Rightarrow> sz_msg l)"
definition sz_msgs :: "nat list \<Rightarrow> nat" where "sz_msgs ls = fold (\<lambda>l n. n + sz_msg l) ls 0"

section \<open>Votes and commits\<close>

definition Vote_MarshalToSizedBuffer :: "env \<Rightarrow> Vote \<Rightarrow> bytes option" where
  "Vote_MarshalToSizedBuffer E m =
     (let acc = Some [];
          acc = wr_bytes 0x42 (v_Signature m) acc;
          acc = wr_varint 0x38 (v_ValidatorIndex m) acc;
          acc = wr_bytes 0x32 (v_ValidatorAddress m) acc;
          acc = wr_msg 0x2a (StdTimeMarshal E (v_Timestamp m)) acc;
          acc = wr_msg 0x22 (Some (BlockID_MarshalToSizedBuffer (v_BlockID m))) acc;
          acc = wr_varint 0x18 (v_Round m) acc;
          acc = wr_varint 0x10 (v_Height m) acc;
          acc = wr_varint 0x08 (v_Type m) acc
      in acc)"

definition protoVote_Size :: "env \<Rightarrow> Vote \<Rightarrow> nat" where
  "protoVote_Size E m =
     sz_varint (v_Type m) + sz_varint (v_Height m) + sz_varint (v_Round m) + sz_msg (BlockID_Size (v_BlockID m)) +
     sz_msg (SizeOfStdTime E (v_Timestamp m)) + sz_bytes (v_ValidatorAddress m) + sz_varint (v_ValidatorIndex m) +
     sz_bytes (v_Signature m)"

definition Commit_MarshalToSizedBuffer :: "env \<Rightarrow> protoCommit \<Rightarrow> bytes option" where
  "Commit_MarshalToSizedBuffer E m =
     (let acc = Some [];
          acc = wr_msgs 0x22 (map (CommitSig_MarshalToSizedBuffer E) (pc_Signatures m)) acc;
          acc = wr_msg 0x1a (Some (BlockID_MarshalToSizedBuffer (pc_BlockID m))) acc;
          acc = wr_varint 0x10 (pc_Round m) acc;
          acc = wr_varint 0x08 (pc_Height m) acc
      in acc)"

definition protoCommit_Size :: "env \<Rightarrow> protoCommit \<Rightarrow> nat" where
  "protoCommit_Size E m =
     sz_varint (pc_Height m) + sz_varint (pc_Round m) + sz_msg (BlockID_Size (pc_BlockID m)) +
     sz_msgs (map (CommitSig_Size E) (pc_Signatures m))"

section \<open>Validators\<close>

definition Validator_MarshalToSizedBuffer :: "protoValidator \<Rightarrow> bytes option" where
  "Validator_MarshalToSizedBuffer m =
     (let acc = Some [];
          acc = wr_varint 0x20 (pv_ProposerPriority m) acc;
          acc = wr_varint 0x18 (pv_VotingPower m) acc;
          acc = wr_msg 0x12 (Some (PublicKey_MarshalToSizedBuffer (pv_PubKey m))) acc;
          acc = wr_bytes 0x0a (pv_Address m) acc
      in acc)"

definition protoValidator_Size :: "protoValidator \<Rightarrow> nat" where
  "protoValidator_Size m =
     sz_bytes (pv_Address m) + sz_msg (PublicKey_Size (pv_PubKey m)) + sz_varint (pv_VotingPower m) +
     sz_varint (pv_ProposerPriority m)"

definition ValidatorSet_MarshalToSizedBuffer :: "protoValidatorSet \<Rightarrow> bytes option" where
  "ValidatorSet_MarshalToSizedBuffer m =
     (let acc = Some [];
          acc = wr_varint 0x18 (pvs_TotalVotingPower m) acc;
          acc = wr_ptr 0x12 (map_option Validator_MarshalToSizedBuffer (pvs_Proposer m)) acc;
          acc = wr_msgs 0x0a (map Validator_MarshalToSizedBuffer (pvs_Validators m)) acc
      in acc)"

definition protoValidatorSet_Size :: "protoValidatorSet \<Rightarrow> nat" where
  "protoValidatorSet_Size m =
     sz_msgs (map protoValidator_Size (pvs_Validators m)) + sz_ptr (map_option protoValidator_Size (pvs_Proposer m)) +
     sz_varint (pvs_TotalVotingPower m)"

section \<open>Headers, data and light blocks\<close>

definition Header_MarshalToSizedBuffer :: "env \<Rightarrow> Header \<Rightarrow> bytes option" where
  "Header_MarshalToSizedBuffer E m =
     (let acc = Some [];
          acc = wr_bytes 0x72 (h_ProposerAddress m) acc;
          acc = wr_bytes 0x6a (go_bytes (h_EvidenceHash m)) acc;
          acc = wr_bytes 0x62 (h_LastResultsHash m) acc;
          acc = wr_bytes 0x5a (h_AppHash m) acc;
          acc = wr_bytes 0x52 (h_ConsensusHash m) acc;
          acc = wr_bytes 0x4a (h_NextValidatorsHash m) acc;
          acc = wr_bytes 0x42 (h_ValidatorsHash m) acc;
          acc = wr_bytes 0x3a (go_bytes (h_DataHash m)) acc;
          acc = wr_bytes 0x32 (go_bytes (h_LastCommitHash m)) acc;
          acc = wr_msg 0x2a (Some (BlockID_MarshalToSizedBuffer (h_LastBlockID m))) acc;
          acc = wr_msg 0x22 (StdTimeMarshal E (h_Time m)) acc;
          acc = wr_varint 0x18 (h_Height m) acc;
          acc = wr_bytes 0x12 (h_ChainID m) acc;
          acc = wr_msg 0x0a (Some (Consensus_MarshalToSizedBuffer (h_Version m))) acc
      in acc)"

definition Header_Size :: "env \<Rightarrow> Header \<Rightarrow> nat" where
  "Header_Size E m =
     sz_msg (Consensus_Size (h_Version m)) + sz_bytes (h_ChainID m) + sz_varint (h_Height m) +
     sz_msg (SizeOfStdTime E (h_Time m)) + sz_msg (BlockID_Size (h_LastBlockID m)) +
     sz_bytes (go_bytes (h_LastCommitHash m)) + sz_bytes (go_bytes (h_DataHash m)) + sz_bytes (h_ValidatorsHash m) +
     sz_bytes (h_NextValidatorsHash m) + sz_bytes (h_ConsensusHash m) + sz_bytes (h_AppHash m) +
     sz_bytes (h_LastResultsHash m) + sz_bytes (go_bytes (h_EvidenceHash m)) + sz_bytes (h_ProposerAddress m)"

text \<open>An empty transaction is written, unlike an empty field that is not repeated.\<close>

definition Data_MarshalToSizedBuffer :: "bytes list \<Rightarrow> bytes option" where
  "Data_MarshalToSizedBuffer txs = wr_msgs 0x0a (map Some txs) (Some [])"

definition SignedHeader_MarshalToSizedBuffer :: "env \<Rightarrow> protoSignedHeader \<Rightarrow> bytes option" where
  "SignedHeader_MarshalToSizedBuffer E m =
     (let acc = Some [];
          acc = wr_ptr 0x12 (map_option (Commit_MarshalToSizedBuffer E) (psh_Commit m)) acc;
          acc = wr_ptr 0x0a (map_option (Header_MarshalToSizedBuffer E) (psh_Header m)) acc
      in acc)"

definition SignedHeader_Size :: "env \<Rightarrow> protoSignedHeader \<Rightarrow> nat" where
  "SignedHeader_Size E m =
     sz_ptr (map_option (Header_Size E) (psh_Header m)) + sz_ptr (map_option (protoCommit_Size E) (psh_Commit m))"

definition LightBlock_MarshalToSizedBuffer :: "env \<Rightarrow> protoLightBlock \<Rightarrow> bytes option" where
  "LightBlock_MarshalToSizedBuffer E m =
     (let acc = Some [];
          acc = wr_ptr 0x12 (map_option ValidatorSet_MarshalToSizedBuffer (plb_ValidatorSet m)) acc;
          acc = wr_ptr 0x0a (map_option (SignedHeader_MarshalToSizedBuffer E) (plb_SignedHeader m)) acc
      in acc)"

definition LightBlock_Size :: "env \<Rightarrow> protoLightBlock \<Rightarrow> nat" where
  "LightBlock_Size E m =
     sz_ptr (map_option (SignedHeader_Size E) (plb_SignedHeader m)) +
     sz_ptr (map_option protoValidatorSet_Size (plb_ValidatorSet m))"

section \<open>Sizes\<close>


text \<open>The length of what was written, when nothing failed.\<close>

definition wlen :: "bytes option \<Rightarrow> nat \<Rightarrow> bool" where
  "wlen acc n \<longleftrightarrow> (\<forall>bz. acc = Some bz \<longrightarrow> length bz = n)"

lemma wlen_wr:
  "wlen (Some []) 0"
  "wlen acc n \<Longrightarrow> wlen (wr_bytes t bs acc) (sz_bytes bs + n)"
  "wlen acc n \<Longrightarrow> wlen (wr_varint t v acc) (sz_varint v + n)"
  "wlen sub l \<Longrightarrow> wlen acc n \<Longrightarrow> wlen (wr_msg t sub acc) (sz_msg l + n)"
  by (auto simp: wlen_def wr_bytes_def sz_bytes_def wr_varint_def sz_varint_def wr_msg_def sz_msg_def sov_putUvarint Let_def
      split: option.splits)

lemma wlen_ptr: "(\<And>m. p = Some m \<Longrightarrow> wlen (f m) (g m)) \<Longrightarrow> wlen acc n \<Longrightarrow> wlen (wr_ptr t (map_option f p) acc) (sz_ptr (map_option g p) + n)"
  by (cases p) (auto simp: wr_ptr_def sz_ptr_def intro: wlen_wr)

lemma sz_msgs_Cons: "sz_msgs (l # ls) = sz_msg l + sz_msgs ls" and sz_msgs_Nil: "sz_msgs [] = 0"
proof -
  have "fold (\<lambda>l n. n + sz_msg l) ls a = a + fold (\<lambda>l n. n + sz_msg l) ls 0" for a
  proof (induction ls arbitrary: a)
    case (Cons l ls)
    show ?case using Cons [of "a + sz_msg l"] Cons [of "sz_msg l"] by simp
  qed simp
  from this [of "sz_msg l"] show "sz_msgs (l # ls) = sz_msg l + sz_msgs ls" by (simp add: sz_msgs_def)
qed (simp add: sz_msgs_def)

lemma wlen_msgs: "(\<And>m. m \<in> set ms \<Longrightarrow> wlen (f m) (g m)) \<Longrightarrow> wlen acc n \<Longrightarrow> wlen (wr_msgs t (map f ms) acc) (sz_msgs (map g ms) + n)"
proof (induction ms)
  case (Cons m ms)
  then have "wlen (wr_msgs t (map f ms) acc) (sz_msgs (map g ms) + n)" by simp
  with Cons.prems(1) [of m] have "wlen (wr_msg t (f m) (wr_msgs t (map f ms) acc)) (sz_msg (g m) + (sz_msgs (map g ms) + n))"
    by (intro wlen_wr(4)) simp_all
  then show ?case by (simp add: wr_msgs_def sz_msgs_Cons add.assoc)
qed (simp add: wr_msgs_def sz_msgs_Nil)

lemma wlen_time: "wlen (StdTimeMarshal E t) (SizeOfStdTime E t)"
  by (auto simp: wlen_def SizeOfStdTime_def split: option.splits)

lemma wlen_simple:
  "wlen (Some (BlockID_MarshalToSizedBuffer b)) (BlockID_Size b)"
  "wlen (Some (PublicKey_MarshalToSizedBuffer k)) (PublicKey_Size k)"
  "wlen (Some (Consensus_MarshalToSizedBuffer c)) (Consensus_Size c)"
  "wlen (Some bz) (length bz)"
  by (simp_all add: wlen_def BlockID_Size_exact PublicKey_Size_exact Consensus_MarshalToSizedBuffer_def Consensus_Size_def
      Let_def sov_putUvarint)

lemma wlen_eq: "wlen acc n \<Longrightarrow> n = n' \<Longrightarrow> wlen acc n'" by simp

lemmas wlen_intros = wlen_wr wlen_ptr wlen_msgs wlen_time wlen_simple

lemma CommitSig_wlen: "wlen (CommitSig_MarshalToSizedBuffer E m) (CommitSig_Size E m)"
  by (auto simp: wlen_def CommitSig_MarshalToSizedBuffer_def CommitSig_Size_def Let_def sov_putUvarint SizeOfStdTime_def
      split: option.splits)

lemma Vote_wlen: "wlen (Vote_MarshalToSizedBuffer E m) (protoVote_Size E m)"
  unfolding Vote_MarshalToSizedBuffer_def Let_def
  by (rule wlen_eq, (rule wlen_intros)+) (simp add: protoVote_Size_def)

lemma Commit_wlen: "wlen (Commit_MarshalToSizedBuffer E m) (protoCommit_Size E m)"
  unfolding Commit_MarshalToSizedBuffer_def Let_def
  by (rule wlen_eq, (rule wlen_intros CommitSig_wlen)+) (simp add: protoCommit_Size_def)

lemma Validator_wlen: "wlen (Validator_MarshalToSizedBuffer m) (protoValidator_Size m)"
  unfolding Validator_MarshalToSizedBuffer_def Let_def
  by (rule wlen_eq, (rule wlen_intros)+) (simp add: protoValidator_Size_def)

lemma ValidatorSet_wlen: "wlen (ValidatorSet_MarshalToSizedBuffer m) (protoValidatorSet_Size m)"
  unfolding ValidatorSet_MarshalToSizedBuffer_def Let_def
  by (rule wlen_eq, (rule wlen_intros Validator_wlen)+) (simp add: protoValidatorSet_Size_def)

lemma Header_wlen: "wlen (Header_MarshalToSizedBuffer E m) (Header_Size E m)"
  unfolding Header_MarshalToSizedBuffer_def Let_def
  by (rule wlen_eq, (rule wlen_intros)+) (simp add: Header_Size_def)

lemma protoData_Size_eq: "protoData_Size txs = sz_msgs (map length txs)"
  by (auto simp: protoData_Size_def sz_msgs_def fold_map comp_def sz_msg_def)

lemma Data_wlen: "wlen (Data_MarshalToSizedBuffer txs) (protoData_Size txs)"
  unfolding Data_MarshalToSizedBuffer_def protoData_Size_eq
  by (rule wlen_eq, (rule wlen_intros)+) simp

lemma SignedHeader_wlen: "wlen (SignedHeader_MarshalToSizedBuffer E m) (SignedHeader_Size E m)"
  unfolding SignedHeader_MarshalToSizedBuffer_def Let_def
  by (rule wlen_eq, (rule wlen_intros Header_wlen Commit_wlen)+) (simp add: SignedHeader_Size_def)

lemma LightBlock_wlen: "wlen (LightBlock_MarshalToSizedBuffer E m) (LightBlock_Size E m)"
  unfolding LightBlock_MarshalToSizedBuffer_def Let_def
  by (rule wlen_eq, (rule wlen_intros SignedHeader_wlen ValidatorSet_wlen)+) (simp add: LightBlock_Size_def)

end
