(* ===== verification/Evidence.thy ===== *)
theory Evidence
  imports Messages CommitVerify
begin

text \<open>
  Evidence of misbehaviour (\<open>types/evidence.go\<close>): duplicate votes and attacks on light clients, with their
  protobuf messages (\<open>proto/tendermint/types/evidence.pb.go\<close>).

  The message of a duplicate vote has the fields of the Go struct and is identified with it. The list of byzantine
  validators is an option, since the code tells a nil slice from an empty one, and so are its elements.

  What the theorems show: evidence made from two conflicting votes is well formed and does not depend on the order in
  which the votes were seen; evidence of an attack for which no validator can be blamed is refused once it has been
  through its protobuf message.
\<close>

unbundle bit_operations_syntax

datatype evidence_error =
    ErrMissingVote | ErrMissingValSet | ErrNotInValSet | ErrEmptyDuplicateVote | ErrEmptyVotes
  | ErrInvalidVoteA vote_error | ErrInvalidVoteB vote_error | ErrVoteOrder
  | ErrEvidenceTime time time | ErrValidatorPower int64 int64 | ErrTotalPower int64 int64
  | ErrEvVote vote_error | ErrNilDuplicateVote
  | ErrNoConflictingBlock | ErrNoConflictingHeader | ErrEvTotalNotPositive | ErrCommonHeightNotPositive
  | ErrCommonHeightAhead int64 int64 | ErrConflictingBlock light_error
  | ErrExpectedNilValidators int | ErrByzantineCount int int | ErrByzantineAddress bytes bytes | ErrByzantinePower int64 int64
  | ErrEvLightBlock light_error | ErrEvValidator valset_error | ErrEmptyLightAttack | ErrNilEvidence | ErrUnknownEvidence

record abciEvidence =
  ae_Type :: int
  ae_Address :: bytes
  ae_Power :: int64
  ae_Height :: int64
  ae_Time :: time
  ae_TotalVotingPower :: int64

definition EvidenceType_DUPLICATE_VOTE :: int where "EvidenceType_DUPLICATE_VOTE = 1"
definition EvidenceType_LIGHT_CLIENT_ATTACK :: int where "EvidenceType_LIGHT_CLIENT_ATTACK = 2"

section \<open>Duplicate votes\<close>

record DuplicateVoteEvidence =
  dve_VoteA :: "Vote option"
  dve_VoteB :: "Vote option"
  dve_TotalVotingPower :: int64
  dve_ValidatorPower :: int64
  dve_Timestamp :: time

text \<open>The validator set comes back with its total filled in.\<close>

definition NewDuplicateVoteEvidence :: "Vote option \<Rightarrow> Vote option \<Rightarrow> time \<Rightarrow> ValidatorSet option \<Rightarrow>
    (evidence_error, ValidatorSet \<times> DuplicateVoteEvidence) res" where
  "NewDuplicateVoteEvidence vote1 vote2 blockTime ovals =
     (case (vote1, vote2) of
        (Some v1, Some v2) \<Rightarrow>
          (case ovals of None \<Rightarrow> Err ErrMissingValSet
           | Some valSet \<Rightarrow>
               (case GetByAddress (Validators valSet) (v_ValidatorAddress v1) of
                  (idx, val) \<Rightarrow>
                    if idx = -1 then Err ErrNotInValSet
                    else res_bind (bid_Key (v_BlockID v1)) (\<lambda>k1. res_bind (bid_Key (v_BlockID v2)) (\<lambda>k2.
                      let (voteA, voteB) = (if bytes_Compare k1 k2 = -1 then (v1, v2) else (v2, v1))
                      in res_bind (TotalVotingPower valSet) (\<lambda>(valSet, total).
                        (case val of None \<Rightarrow> Panic ''nil pointer dereference''
                         | Some v \<Rightarrow> Ok (valSet, \<lparr>dve_VoteA = Some voteA, dve_VoteB = Some voteB, dve_TotalVotingPower = total,
                                         dve_ValidatorPower = VotingPower v, dve_Timestamp = blockTime\<rparr>)))))))
      | _ \<Rightarrow> Err ErrMissingVote)"

definition dve_ABCI :: "DuplicateVoteEvidence \<Rightarrow> ('e, abciEvidence list) res" where
  "dve_ABCI dve =
     (case dve_VoteA dve of None \<Rightarrow> Panic ''nil pointer dereference''
      | Some voteA \<Rightarrow> Ok [\<lparr>ae_Type = EvidenceType_DUPLICATE_VOTE, ae_Address = v_ValidatorAddress voteA,
          ae_Power = dve_ValidatorPower dve, ae_Height = v_Height voteA, ae_Time = dve_Timestamp dve,
          ae_TotalVotingPower = dve_TotalVotingPower dve\<rparr>])"

definition dve_Height :: "DuplicateVoteEvidence \<Rightarrow> ('e, int64) res" where
  "dve_Height dve = (case dve_VoteA dve of None \<Rightarrow> Panic ''nil pointer dereference'' | Some v \<Rightarrow> Ok (v_Height v))"

definition dve_Time :: "DuplicateVoteEvidence \<Rightarrow> time" where "dve_Time dve = dve_Timestamp dve"

definition dve_ValidateBasic :: "DuplicateVoteEvidence option \<Rightarrow> (evidence_error, unit) res" where
  "dve_ValidateBasic odve =
     (case odve of None \<Rightarrow> Err ErrEmptyDuplicateVote
      | Some dve \<Rightarrow>
          (case (dve_VoteA dve, dve_VoteB dve) of
             (Some a, Some b) \<Rightarrow>
               (case Vote_ValidateBasic a of Err e \<Rightarrow> Err (ErrInvalidVoteA e) | Panic s \<Rightarrow> Panic s
                | Ok _ \<Rightarrow>
                    (case Vote_ValidateBasic b of Err e \<Rightarrow> Err (ErrInvalidVoteB e) | Panic s \<Rightarrow> Panic s
                     | Ok _ \<Rightarrow>
                         res_bind (bid_Key (v_BlockID a)) (\<lambda>ka. res_bind (bid_Key (v_BlockID b)) (\<lambda>kb.
                           if bytes_Compare ka kb \<ge> 0 then Err ErrVoteOrder else Ok ()))))
           | _ \<Rightarrow> Err ErrEmptyVotes))"

definition dve_ValidateABCI :: "DuplicateVoteEvidence \<Rightarrow> Validator \<Rightarrow> ValidatorSet \<Rightarrow> time \<Rightarrow> (evidence_error, unit) res" where
  "dve_ValidateABCI dve val valSet evidenceTime =
     (if dve_Timestamp dve \<noteq> evidenceTime then Err (ErrEvidenceTime (dve_Timestamp dve) evidenceTime)
      else if VotingPower val \<noteq> dve_ValidatorPower dve then Err (ErrValidatorPower (dve_ValidatorPower dve) (VotingPower val))
      else res_bind (TotalVotingPower valSet) (\<lambda>(valSet, total).
        if total \<noteq> dve_TotalVotingPower dve then Err (ErrTotalPower (dve_TotalVotingPower dve) total) else Ok ()))"

definition dve_GenerateABCI :: "DuplicateVoteEvidence \<Rightarrow> Validator \<Rightarrow> ValidatorSet \<Rightarrow> time \<Rightarrow>
    ('e, ValidatorSet \<times> DuplicateVoteEvidence) res" where
  "dve_GenerateABCI dve val valSet evidenceTime =
     res_bind (TotalVotingPower valSet) (\<lambda>(valSet, total).
       Ok (valSet, dve\<lparr>dve_ValidatorPower := VotingPower val, dve_TotalVotingPower := total, dve_Timestamp := evidenceTime\<rparr>))"

definition dve_ToProto :: "DuplicateVoteEvidence \<Rightarrow> DuplicateVoteEvidence" where
  "dve_ToProto dve =
     (let voteB = Vote_ToProto (dve_VoteB dve); voteA = Vote_ToProto (dve_VoteA dve)
      in \<lparr>dve_VoteA = voteA, dve_VoteB = voteB, dve_TotalVotingPower = dve_TotalVotingPower dve,
          dve_ValidatorPower = dve_ValidatorPower dve, dve_Timestamp = dve_Timestamp dve\<rparr>)"

definition DuplicateVoteEvidenceFromProto :: "DuplicateVoteEvidence option \<Rightarrow> (evidence_error, DuplicateVoteEvidence) res" where
  "DuplicateVoteEvidenceFromProto opb =
     (case opb of None \<Rightarrow> Err ErrNilDuplicateVote
      | Some pb \<Rightarrow>
          (case VoteFromProto (dve_VoteA pb) of Err e \<Rightarrow> Err (ErrEvVote e) | Panic s \<Rightarrow> Panic s
           | Ok vA \<Rightarrow>
               (case VoteFromProto (dve_VoteB pb) of Err e \<Rightarrow> Err (ErrEvVote e) | Panic s \<Rightarrow> Panic s
                | Ok vB \<Rightarrow>
                    (let dve = \<lparr>dve_VoteA = Some vA, dve_VoteB = Some vB, dve_TotalVotingPower = dve_TotalVotingPower pb,
                         dve_ValidatorPower = dve_ValidatorPower pb, dve_Timestamp = dve_Timestamp pb\<rparr>
                     in res_bind (dve_ValidateBasic (Some dve)) (\<lambda>_. Ok dve)))))"

definition DuplicateVoteEvidence_MarshalToSizedBuffer :: "env \<Rightarrow> DuplicateVoteEvidence \<Rightarrow> bytes option" where
  "DuplicateVoteEvidence_MarshalToSizedBuffer E m =
     (let acc = Some [];
          acc = wr_msg 0x2a (StdTimeMarshal E (dve_Timestamp m)) acc;
          acc = wr_varint 0x20 (dve_ValidatorPower m) acc;
          acc = wr_varint 0x18 (dve_TotalVotingPower m) acc;
          acc = wr_ptr 0x12 (map_option (Vote_MarshalToSizedBuffer E) (dve_VoteB m)) acc;
          acc = wr_ptr 0x0a (map_option (Vote_MarshalToSizedBuffer E) (dve_VoteA m)) acc
      in acc)"

definition DuplicateVoteEvidence_Size :: "env \<Rightarrow> DuplicateVoteEvidence \<Rightarrow> nat" where
  "DuplicateVoteEvidence_Size E m =
     sz_ptr (map_option (protoVote_Size E) (dve_VoteA m)) + sz_ptr (map_option (protoVote_Size E) (dve_VoteB m)) +
     sz_varint (dve_TotalVotingPower m) + sz_varint (dve_ValidatorPower m) + sz_msg (SizeOfStdTime E (dve_Timestamp m))"

text \<open>\<open>Marshal\<close> of a message whose encoding may fail, in the callers that panic on the error.\<close>

definition mustMarshal :: "nat \<Rightarrow> bytes option \<Rightarrow> ('e, bytes) res" where
  "mustMarshal sz obz = (case obz of None \<Rightarrow> Panic ''marshaling failed'' | Some acc \<Rightarrow> marshalSized sz acc)"

definition dve_Bytes :: "env \<Rightarrow> DuplicateVoteEvidence \<Rightarrow> ('e, bytes) res" where
  "dve_Bytes E dve =
     (let pbe = dve_ToProto dve
      in mustMarshal (DuplicateVoteEvidence_Size E pbe) (DuplicateVoteEvidence_MarshalToSizedBuffer E pbe))"

definition dve_Hash :: "env \<Rightarrow> DuplicateVoteEvidence \<Rightarrow> ('e, bytes) res" where
  "dve_Hash E dve = res_bind (dve_Bytes E dve) (\<lambda>bz. Ok (Sum256 E bz))"

section \<open>Attacks on light clients\<close>

record LightClientAttackEvidence =
  lca_ConflictingBlock :: "LightBlock option"
  lca_CommonHeight :: int64
  lca_ByzantineValidators :: "Validator option list option"
  lca_TotalVotingPower :: int64
  lca_Timestamp :: time

text \<open>The range over a slice: a nil slice has no elements.\<close>

definition go_slice :: "'a list option \<Rightarrow> 'a list" where "go_slice s = (case s of None \<Rightarrow> [] | Some xs \<Rightarrow> xs)"

definition TM2PB_Validator :: "env \<Rightarrow> Validator option \<Rightarrow> ('e, bytes \<times> int64) res" where
  "TM2PB_Validator E ov =
     (case ov of None \<Rightarrow> Panic ''nil pointer dereference''
      | Some val \<Rightarrow> res_bind (PubKey_Address E (val_PubKey val)) (\<lambda>a. Ok (a, VotingPower val)))"

definition lca_Height :: "LightClientAttackEvidence \<Rightarrow> int64" where "lca_Height l = lca_CommonHeight l"

definition lca_Time :: "LightClientAttackEvidence \<Rightarrow> time" where "lca_Time l = lca_Timestamp l"

definition lca_ABCI :: "env \<Rightarrow> LightClientAttackEvidence \<Rightarrow> ('e, abciEvidence list) res" where
  "lca_ABCI E l =
     res_fold (\<lambda>acc val. res_bind (TM2PB_Validator E val) (\<lambda>(addr, pow).
       Ok (acc @ [\<lparr>ae_Type = EvidenceType_LIGHT_CLIENT_ATTACK, ae_Address = addr, ae_Power = pow, ae_Height = lca_Height l,
          ae_Time = lca_Timestamp l, ae_TotalVotingPower = lca_TotalVotingPower l\<rparr>])))
       [] (go_slice (lca_ByzantineValidators l))"

text \<open>The header and the commit of the conflicting block, through the embedded pointers.\<close>

definition lca_Header :: "LightClientAttackEvidence \<Rightarrow> ('e, Header option) res" where
  "lca_Header l =
     (case lca_ConflictingBlock l of None \<Rightarrow> Panic ''nil pointer dereference''
      | Some lb \<Rightarrow> (case lb_SignedHeader lb of None \<Rightarrow> Panic ''nil pointer dereference'' | Some sh \<Rightarrow> Ok (sh_Header sh)))"

definition lca_Commit :: "LightClientAttackEvidence \<Rightarrow> ('e, Commit) res" where
  "lca_Commit l =
     (case lca_ConflictingBlock l of None \<Rightarrow> Panic ''nil pointer dereference''
      | Some lb \<Rightarrow>
          (case lb_SignedHeader lb of None \<Rightarrow> Panic ''nil pointer dereference''
           | Some sh \<Rightarrow> (case sh_Commit sh of None \<Rightarrow> Panic ''nil pointer dereference'' | Some c \<Rightarrow> Ok c)))"

definition ConflictingHeaderIsInvalid :: "LightClientAttackEvidence \<Rightarrow> Header option \<Rightarrow> ('e, bool) res" where
  "ConflictingHeaderIsInvalid l otrusted =
     res_bind (lca_Header l) (\<lambda>oh.
       case (otrusted, oh) of
         (Some trusted, Some h) \<Rightarrow>
           Ok (h_ValidatorsHash trusted \<noteq> h_ValidatorsHash h \<or> h_NextValidatorsHash trusted \<noteq> h_NextValidatorsHash h \<or>
               h_ConsensusHash trusted \<noteq> h_ConsensusHash h \<or> h_AppHash trusted \<noteq> h_AppHash h \<or>
               h_LastResultsHash trusted \<noteq> h_LastResultsHash h)
       | _ \<Rightarrow> Panic ''nil pointer dereference'')"

text \<open>\<open>sort.Sort\<close> by voting power: comparing a nil validator is a nil dereference, and every element of two or more is compared.\<close>

definition sortPointers :: "Validator option list \<Rightarrow> ('e, Validator option list) res" where
  "sortPointers vs =
     (if length vs < 2 then Ok vs
      else if None \<in> set vs then Panic ''nil pointer dereference''
      else Ok (map Some (sortByVotingPower (map the vs))))"

fun lunaticLoop :: "Validator list \<Rightarrow> CommitSig list \<Rightarrow> Validator option list" where
  "lunaticLoop commonVals [] = []"
| "lunaticLoop commonVals (commitSig # sigs) =
     (if \<not> ForBlock commitSig then lunaticLoop commonVals sigs
      else case snd (GetByAddress commonVals (cs_ValidatorAddress commitSig)) of
             None \<Rightarrow> lunaticLoop commonVals sigs
           | Some val \<Rightarrow> Some val # lunaticLoop commonVals sigs)"

text \<open>\<open>trusted\<close> are the signatures of the trusted commit from the index of the loop on.\<close>

fun equivocationLoop :: "ValidatorSet option \<Rightarrow> CommitSig list \<Rightarrow> CommitSig list \<Rightarrow> ('e, Validator option list) res" where
  "equivocationLoop ovals [] trusted = Ok []"
| "equivocationLoop ovals (sigA # sigs) trusted =
     (if \<not> ForBlock sigA then equivocationLoop ovals sigs (tl trusted)
      else case trusted of [] \<Rightarrow> Panic ''index out of range''
           | sigB # rest \<Rightarrow>
               if \<not> ForBlock sigB then equivocationLoop ovals sigs rest
               else (case ovals of None \<Rightarrow> Panic ''nil pointer dereference''
                     | Some vals \<Rightarrow>
                         res_bind (equivocationLoop ovals sigs rest) (\<lambda>vs.
                           Ok (snd (GetByAddress (Validators vals) (cs_ValidatorAddress sigA)) # vs))))"

text \<open>A slice that nothing was appended to is nil.\<close>

definition nil_slice :: "'a list \<Rightarrow> 'a list option" where "nil_slice xs = (if xs = [] then None else Some xs)"

definition GetByzantineValidators :: "LightClientAttackEvidence \<Rightarrow> ValidatorSet \<Rightarrow> SignedHeader \<Rightarrow>
    ('e, Validator option list option) res" where
  "GetByzantineValidators l commonVals trusted =
     res_bind (ConflictingHeaderIsInvalid l (sh_Header trusted)) (\<lambda>invalid.
     res_bind (lca_Commit l) (\<lambda>commit.
       if invalid
       then res_bind (sortPointers (lunaticLoop (Validators commonVals) (c_Signatures commit))) (\<lambda>vs. Ok (nil_slice vs))
       else case sh_Commit trusted of None \<Rightarrow> Panic ''nil pointer dereference''
         | Some tc \<Rightarrow>
             if c_Round tc = c_Round commit
             then res_bind (equivocationLoop (case lca_ConflictingBlock l of None \<Rightarrow> None | Some lb \<Rightarrow> lb_ValidatorSet lb)
                              (c_Signatures commit) (c_Signatures tc)) (\<lambda>vs.
                    res_bind (sortPointers vs) (\<lambda>vs. Ok (nil_slice vs)))
             else Ok None))"

text \<open>\<open>binary.PutVarint\<close>: zig-zag.\<close>

definition putVarint :: "int64 \<Rightarrow> bytes" where
  "putVarint x =
     (let ux = push_bit 1 (word_of_int x :: 64 word);
          ux = (if x < 0 then NOT ux else ux)
      in putUvarint (unat ux))"

definition lca_Hash :: "env \<Rightarrow> wkt \<Rightarrow> LightClientAttackEvidence \<Rightarrow> ('e, bytes) res" where
  "lca_Hash E W l =
     (let buf = putVarint (lca_CommonHeight l); n = length buf;
          bz = replicate (32 + n) 0
      in res_bind (lca_Header l) (\<lambda>oh. res_bind (Header_Hash E W oh) (\<lambda>hash.
           let bz = go_copy (take 31 bz) (go_bytes hash) @ drop 31 bz;
               bz = take 32 bz @ go_copy (drop 32 bz) buf
           in Ok (Sum256 E bz))))"

definition lca_ValidateBasic :: "env \<Rightarrow> wkt \<Rightarrow> LightClientAttackEvidence \<Rightarrow> (evidence_error, unit) res" where
  "lca_ValidateBasic E W l =
     (case lca_ConflictingBlock l of None \<Rightarrow> Err ErrNoConflictingBlock
      | Some lb \<Rightarrow>
          res_bind (lca_Header l) (\<lambda>oh. case oh of None \<Rightarrow> Err ErrNoConflictingHeader
            | Some h \<Rightarrow>
                if lca_TotalVotingPower l \<le> 0 then Err ErrEvTotalNotPositive
                else if lca_CommonHeight l \<le> 0 then Err ErrCommonHeightNotPositive
                else if lca_CommonHeight l > h_Height h then Err (ErrCommonHeightAhead (lca_CommonHeight l) (h_Height h))
                else (case LightBlock_ValidateBasic E W lb (h_ChainID h) of
                        Err e \<Rightarrow> Err (ErrConflictingBlock e) | Panic s \<Rightarrow> Panic s | Ok _ \<Rightarrow> Ok ())))"

fun checkByzantine :: "Validator option list \<Rightarrow> Validator option list \<Rightarrow> (evidence_error, unit) res" where
  "checkByzantine (val # vals) (ev # evs) =
     (case (ev, val) of
        (Some e, Some v) \<Rightarrow>
          if val_Address e \<noteq> val_Address v then Err (ErrByzantineAddress (val_Address v) (val_Address e))
          else if VotingPower e \<noteq> VotingPower v then Err (ErrByzantinePower (VotingPower v) (VotingPower e))
          else checkByzantine vals evs
      | _ \<Rightarrow> Panic ''nil pointer dereference'')"
| "checkByzantine _ _ = Ok ()"

definition lca_ValidateABCI :: "LightClientAttackEvidence \<Rightarrow> ValidatorSet \<Rightarrow> SignedHeader \<Rightarrow> time \<Rightarrow> (evidence_error, unit) res" where
  "lca_ValidateABCI l commonVals trustedHeader evidenceTime =
     res_bind (TotalVotingPower commonVals) (\<lambda>(commonVals, valsTotal).
       if lca_TotalVotingPower l \<noteq> valsTotal then Err (ErrTotalPower (lca_TotalVotingPower l) valsTotal)
       else if lca_Timestamp l \<noteq> evidenceTime then Err (ErrEvidenceTime (lca_Timestamp l) evidenceTime)
       else res_bind (GetByzantineValidators l commonVals trustedHeader) (\<lambda>validators.
         if validators = None \<and> lca_ByzantineValidators l \<noteq> None
         then Err (ErrExpectedNilValidators (int (length (go_slice (lca_ByzantineValidators l)))))
         else if length (go_slice validators) \<noteq> length (go_slice (lca_ByzantineValidators l))
         then Err (ErrByzantineCount (int (length (go_slice validators))) (int (length (go_slice (lca_ByzantineValidators l)))))
         else checkByzantine (go_slice validators) (go_slice (lca_ByzantineValidators l))))"

definition lca_GenerateABCI :: "LightClientAttackEvidence \<Rightarrow> ValidatorSet \<Rightarrow> SignedHeader \<Rightarrow> time \<Rightarrow>
    ('e, ValidatorSet \<times> LightClientAttackEvidence) res" where
  "lca_GenerateABCI l commonVals trustedHeader evidenceTime =
     (let l = l\<lparr>lca_Timestamp := evidenceTime\<rparr>
      in res_bind (TotalVotingPower commonVals) (\<lambda>(commonVals, total).
           let l = l\<lparr>lca_TotalVotingPower := total\<rparr>
           in res_bind (GetByzantineValidators l commonVals trustedHeader) (\<lambda>vs.
                Ok (commonVals, l\<lparr>lca_ByzantineValidators := vs\<rparr>))))"

record protoLightClientAttackEvidence =
  plca_ConflictingBlock :: "protoLightBlock option"
  plca_CommonHeight :: int64
  plca_ByzantineValidators :: "protoValidator list"
  plca_TotalVotingPower :: int64
  plca_Timestamp :: time

definition lca_ToProto :: "LightClientAttackEvidence \<Rightarrow> (evidence_error, protoLightClientAttackEvidence) res" where
  "lca_ToProto l =
     (case LightBlock_ToProto (lca_ConflictingBlock l) of Err e \<Rightarrow> Err (ErrEvLightBlock e) | Panic s \<Rightarrow> Panic s
      | Ok conflictingBlock \<Rightarrow>
          res_bind (res_fold (\<lambda>acc val. case Validator_ToProto val of
                        Err e \<Rightarrow> Err (ErrEvValidator e) | Panic s \<Rightarrow> Panic s | Ok valpb \<Rightarrow> Ok (acc @ [valpb]))
                      [] (go_slice (lca_ByzantineValidators l))) (\<lambda>byzVals.
            Ok \<lparr>plca_ConflictingBlock = conflictingBlock, plca_CommonHeight = lca_CommonHeight l,
                plca_ByzantineValidators = byzVals, plca_TotalVotingPower = lca_TotalVotingPower l,
                plca_Timestamp = lca_Timestamp l\<rparr>))"

definition LightClientAttackEvidenceFromProto :: "env \<Rightarrow> wkt \<Rightarrow> protoLightClientAttackEvidence option \<Rightarrow>
    (evidence_error, LightClientAttackEvidence) res" where
  "LightClientAttackEvidenceFromProto E W olpb =
     (case olpb of None \<Rightarrow> Err ErrEmptyLightAttack
      | Some lpb \<Rightarrow>
          (case LightBlockFromProto (plca_ConflictingBlock lpb) of Err e \<Rightarrow> Err (ErrEvLightBlock e) | Panic s \<Rightarrow> Panic s
           | Ok conflictingBlock \<Rightarrow>
               res_bind (res_fold (\<lambda>acc valpb. case ValidatorFromProto (Some valpb) of
                             Err e \<Rightarrow> Err (ErrEvValidator e) | Panic s \<Rightarrow> Panic s | Ok val \<Rightarrow> Ok (acc @ [Some val]))
                           [] (plca_ByzantineValidators lpb)) (\<lambda>byzVals.
                 (let l = \<lparr>lca_ConflictingBlock = Some conflictingBlock, lca_CommonHeight = plca_CommonHeight lpb,
                           lca_ByzantineValidators = Some byzVals, lca_TotalVotingPower = plca_TotalVotingPower lpb,
                           lca_Timestamp = plca_Timestamp lpb\<rparr>
                  in res_bind (lca_ValidateBasic E W l) (\<lambda>_. Ok l)))))"

definition LightClientAttackEvidence_MarshalToSizedBuffer :: "env \<Rightarrow> protoLightClientAttackEvidence \<Rightarrow> bytes option" where
  "LightClientAttackEvidence_MarshalToSizedBuffer E m =
     (let acc = Some [];
          acc = wr_msg 0x2a (StdTimeMarshal E (plca_Timestamp m)) acc;
          acc = wr_varint 0x20 (plca_TotalVotingPower m) acc;
          acc = wr_msgs 0x1a (map Validator_MarshalToSizedBuffer (plca_ByzantineValidators m)) acc;
          acc = wr_varint 0x10 (plca_CommonHeight m) acc;
          acc = wr_ptr 0x0a (map_option (LightBlock_MarshalToSizedBuffer E) (plca_ConflictingBlock m)) acc
      in acc)"

definition LightClientAttackEvidence_Size :: "env \<Rightarrow> protoLightClientAttackEvidence \<Rightarrow> nat" where
  "LightClientAttackEvidence_Size E m =
     sz_ptr (map_option (LightBlock_Size E) (plca_ConflictingBlock m)) + sz_varint (plca_CommonHeight m) +
     sz_msgs (map protoValidator_Size (plca_ByzantineValidators m)) + sz_varint (plca_TotalVotingPower m) +
     sz_msg (SizeOfStdTime E (plca_Timestamp m))"

definition lca_Bytes :: "env \<Rightarrow> LightClientAttackEvidence \<Rightarrow> ('e, bytes) res" where
  "lca_Bytes E l =
     (case lca_ToProto l of
        Err e \<Rightarrow> Panic ''converting light client attack evidence to proto''
      | Panic s \<Rightarrow> Panic s
      | Ok pbe \<Rightarrow> mustMarshal (LightClientAttackEvidence_Size E pbe) (LightClientAttackEvidence_MarshalToSizedBuffer E pbe))"

section \<open>The evidence interface\<close>

datatype Evidence = DuplicateVote DuplicateVoteEvidence | LightClientAttack LightClientAttackEvidence

fun ev_ABCI :: "env \<Rightarrow> Evidence \<Rightarrow> ('e, abciEvidence list) res" where
  "ev_ABCI E (DuplicateVote dve) = dve_ABCI dve"
| "ev_ABCI E (LightClientAttack l) = lca_ABCI E l"

fun ev_Bytes :: "env \<Rightarrow> Evidence \<Rightarrow> ('e, bytes) res" where
  "ev_Bytes E (DuplicateVote dve) = dve_Bytes E dve"
| "ev_Bytes E (LightClientAttack l) = lca_Bytes E l"

fun ev_Hash :: "env \<Rightarrow> wkt \<Rightarrow> Evidence \<Rightarrow> ('e, bytes) res" where
  "ev_Hash E W (DuplicateVote dve) = dve_Hash E dve"
| "ev_Hash E W (LightClientAttack l) = lca_Hash E W l"

fun ev_Height :: "Evidence \<Rightarrow> ('e, int64) res" where
  "ev_Height (DuplicateVote dve) = dve_Height dve"
| "ev_Height (LightClientAttack l) = Ok (lca_Height l)"

fun ev_Time :: "Evidence \<Rightarrow> time" where
  "ev_Time (DuplicateVote dve) = dve_Time dve"
| "ev_Time (LightClientAttack l) = lca_Time l"

fun ev_ValidateBasic :: "env \<Rightarrow> wkt \<Rightarrow> Evidence \<Rightarrow> (evidence_error, unit) res" where
  "ev_ValidateBasic E W (DuplicateVote dve) = dve_ValidateBasic (Some dve)"
| "ev_ValidateBasic E W (LightClientAttack l) = lca_ValidateBasic E W l"

definition EvidenceList_Hash :: "env \<Rightarrow> Evidence list \<Rightarrow> ('e, bytes) res" where
  "EvidenceList_Hash E evl =
     res_bind (res_fold (\<lambda>bzs ev. res_bind (ev_Bytes E ev) (\<lambda>b. Ok (bzs @ [b]))) [] evl) (\<lambda>evidenceBzs.
       Ok (HashFromByteSlices (Sum256 E) evidenceBzs))"

fun EvidenceList_Has :: "env \<Rightarrow> wkt \<Rightarrow> Evidence list \<Rightarrow> Evidence \<Rightarrow> ('e, bool) res" where
  "EvidenceList_Has E W [] evidence = Ok False"
| "EvidenceList_Has E W (ev # evl) evidence =
     res_bind (ev_Hash E W evidence) (\<lambda>h1. res_bind (ev_Hash E W ev) (\<lambda>h2.
       if h1 = h2 then Ok True else EvidenceList_Has E W evl evidence))"

datatype protoEvidence =
    Evidence_DuplicateVoteEvidence "DuplicateVoteEvidence option"
  | Evidence_LightClientAttackEvidence "protoLightClientAttackEvidence option"
  | Evidence_NotSet

definition EvidenceToProto :: "Evidence option \<Rightarrow> (evidence_error, protoEvidence) res" where
  "EvidenceToProto oev =
     (case oev of None \<Rightarrow> Err ErrNilEvidence
      | Some (DuplicateVote dve) \<Rightarrow> Ok (Evidence_DuplicateVoteEvidence (Some (dve_ToProto dve)))
      | Some (LightClientAttack l) \<Rightarrow>
          res_bind (lca_ToProto l) (\<lambda>pbev. Ok (Evidence_LightClientAttackEvidence (Some pbev))))"

definition EvidenceFromProto :: "env \<Rightarrow> wkt \<Rightarrow> protoEvidence option \<Rightarrow> (evidence_error, Evidence) res" where
  "EvidenceFromProto E W oev =
     (case oev of None \<Rightarrow> Err ErrNilEvidence
      | Some (Evidence_DuplicateVoteEvidence pb) \<Rightarrow> res_bind (DuplicateVoteEvidenceFromProto pb) (\<lambda>dve. Ok (DuplicateVote dve))
      | Some (Evidence_LightClientAttackEvidence pb) \<Rightarrow>
          res_bind (LightClientAttackEvidenceFromProto E W pb) (\<lambda>l. Ok (LightClientAttack l))
      | Some Evidence_NotSet \<Rightarrow> Err ErrUnknownEvidence)"

fun Evidence_MarshalToSizedBuffer :: "env \<Rightarrow> protoEvidence \<Rightarrow> bytes option" where
  "Evidence_MarshalToSizedBuffer E (Evidence_DuplicateVoteEvidence p) =
     wr_ptr 0x0a (map_option (DuplicateVoteEvidence_MarshalToSizedBuffer E) p) (Some [])"
| "Evidence_MarshalToSizedBuffer E (Evidence_LightClientAttackEvidence p) =
     wr_ptr 0x12 (map_option (LightClientAttackEvidence_MarshalToSizedBuffer E) p) (Some [])"
| "Evidence_MarshalToSizedBuffer E Evidence_NotSet = Some []"

fun protoEvidence_Size :: "env \<Rightarrow> protoEvidence \<Rightarrow> nat" where
  "protoEvidence_Size E (Evidence_DuplicateVoteEvidence p) = sz_ptr (map_option (DuplicateVoteEvidence_Size E) p)"
| "protoEvidence_Size E (Evidence_LightClientAttackEvidence p) = sz_ptr (map_option (LightClientAttackEvidence_Size E) p)"
| "protoEvidence_Size E Evidence_NotSet = 0"

definition EvidenceList_MarshalToSizedBuffer :: "env \<Rightarrow> protoEvidence list \<Rightarrow> bytes option" where
  "EvidenceList_MarshalToSizedBuffer E evs = wr_msgs 0x0a (map (Evidence_MarshalToSizedBuffer E) evs) (Some [])"

definition EvidenceList_Size :: "env \<Rightarrow> protoEvidence list \<Rightarrow> nat" where
  "EvidenceList_Size E evs = sz_msgs (map (protoEvidence_Size E) evs)"

section \<open>Sizes\<close>

lemma DuplicateVoteEvidence_wlen: "wlen (DuplicateVoteEvidence_MarshalToSizedBuffer E m) (DuplicateVoteEvidence_Size E m)"
  unfolding DuplicateVoteEvidence_MarshalToSizedBuffer_def Let_def
  by (rule wlen_eq, (rule wlen_intros Vote_wlen)+) (simp add: DuplicateVoteEvidence_Size_def)

lemma LightClientAttackEvidence_wlen:
  "wlen (LightClientAttackEvidence_MarshalToSizedBuffer E m) (LightClientAttackEvidence_Size E m)"
  unfolding LightClientAttackEvidence_MarshalToSizedBuffer_def Let_def
  by (rule wlen_eq, (rule wlen_intros LightBlock_wlen Validator_wlen)+) (simp add: LightClientAttackEvidence_Size_def)

lemma Evidence_wlen: "wlen (Evidence_MarshalToSizedBuffer E p) (protoEvidence_Size E p)"
  using wlen_ptr [OF DuplicateVoteEvidence_wlen wlen_wr(1)] wlen_ptr [OF LightClientAttackEvidence_wlen wlen_wr(1)] wlen_wr(1)
  by (cases p) simp_all

lemma EvidenceList_wlen: "wlen (EvidenceList_MarshalToSizedBuffer E evs) (EvidenceList_Size E evs)"
  using wlen_msgs [OF Evidence_wlen wlen_wr(1)] by (simp add: EvidenceList_MarshalToSizedBuffer_def EvidenceList_Size_def)

lemma mustMarshal_Ok_iff: "wlen acc n \<Longrightarrow> mustMarshal n acc = Ok bz \<longleftrightarrow> acc = Some bz"
  by (auto simp: mustMarshal_def wlen_def split: option.splits)

section \<open>Evidence of duplicate votes\<close>

lemma getByAddressFrom_index:
  "getByAddressFrom k vs a = (i, Some v) \<Longrightarrow> int k + int (length vs) \<le> MaxInt32 \<Longrightarrow> 0 \<le> i"
proof (induction k vs a rule: getByAddressFrom.induct)
  case (2 idx w ws address)
  have "wrap32 (int idx) = int idx" using "2.prems"(2) by (simp add: wrap32_id is_int32_def int_limits)
  with 2 show ?case by (auto split: if_splits)
qed simp

lemma GetByAddress_member:
  assumes "vals_ok vs" "v \<in> set vs" "int (length vs) \<le> MaxInt32"
  obtains i where "GetByAddress vs (val_Address v) = (i, Some v)" "i \<noteq> -1"
proof -
  have "snd (GetByAddress vs (val_Address v)) = Some v"
    using assms(1,2) lookup_Some [of vs "val_Address v" v] by (simp add: vals_ok_def)
  then obtain i where i: "GetByAddress vs (val_Address v) = (i, Some v)" by (cases "GetByAddress vs (val_Address v)") auto
  with getByAddressFrom_index [of 0 vs "val_Address v" i v] assms(3) that show ?thesis by (simp add: GetByAddress_def)
qed

lemma NewDuplicateVoteEvidence_eq:
  assumes "vals_ok (Validators vals)" "total_ok vals" "v \<in> set (Validators vals)" "int (length (Validators vals)) \<le> MaxInt32"
    "val_Address v = v_ValidatorAddress v1"
    "bid_Key (v_BlockID v1) = (Ok k1 :: (evidence_error, _) res)" "bid_Key (v_BlockID v2) = (Ok k2 :: (evidence_error, _) res)"
  shows "NewDuplicateVoteEvidence (Some v1) (Some v2) t (Some vals) =
    Ok (vals\<lparr>vs_total := powers (Validators vals)\<rparr>,
      \<lparr>dve_VoteA = Some (if k1 < k2 then v1 else v2), dve_VoteB = Some (if k1 < k2 then v2 else v1),
       dve_TotalVotingPower = powers (Validators vals), dve_ValidatorPower = VotingPower v, dve_Timestamp = t\<rparr>)"
proof -
  obtain i where "GetByAddress (Validators vals) (v_ValidatorAddress v1) = (i, Some v)" "i \<noteq> -1"
    using GetByAddress_member [OF assms(1,3,4)] unfolding assms(5) .
  then show ?thesis by (simp add: NewDuplicateVoteEvidence_def assms(6,7) TotalVotingPower_eq [OF assms(1,2)])
qed

lemma Vote_proto_roundtrip: "Vote_ValidateBasic v = Ok () \<Longrightarrow> VoteFromProto (Vote_ToProto (Some v)) = Ok v"
  by (cases v) (auto simp: VoteFromProto_def Vote_ToProto_def bid_proto_id BlockIDFromProto_Ok Let_def Vote_ValidateBasic_def
      split: if_splits res.splits)

lemma dve_proto_roundtrip:
  assumes "dve_ValidateBasic (Some dve) = Ok ()"
  shows "DuplicateVoteEvidenceFromProto (Some (dve_ToProto dve)) = Ok dve"
proof -
  obtain a b where "dve_VoteA dve = Some a" "dve_VoteB dve = Some b" "Vote_ValidateBasic a = Ok ()" "Vote_ValidateBasic b = Ok ()"
    using assms by (auto simp: dve_ValidateBasic_def split: option.splits res.splits)
  then show ?thesis
    using assms Vote_proto_roundtrip [of a] Vote_proto_roundtrip [of b]
    by (cases dve) (simp add: DuplicateVoteEvidenceFromProto_def dve_ToProto_def Let_def)
qed

text \<open>
  C19: Two valid votes of one validator for different blocks always make evidence: it is the same whichever vote was
  seen first, it passes its own validation and the comparison with the validator set, and it survives its protobuf
  round trip.
\<close>

theorem duplicate_vote_evidence_valid:
  assumes "Vote_ValidateBasic v1 = Ok ()" "Vote_ValidateBasic v2 = Ok ()" "v_BlockID v1 \<noteq> v_BlockID v2"
    "val_Address v = v_ValidatorAddress v1" "v_ValidatorAddress v2 = v_ValidatorAddress v1"
    "vals_ok (Validators vals)" "total_ok vals" "v \<in> set (Validators vals)" "int (length (Validators vals)) \<le> MaxInt32"
  shows "\<exists>vals' dve. NewDuplicateVoteEvidence (Some v1) (Some v2) t (Some vals) = Ok (vals', dve) \<and>
    NewDuplicateVoteEvidence (Some v2) (Some v1) t (Some vals) = Ok (vals', dve) \<and>
    dve_ValidateBasic (Some dve) = Ok () \<and> dve_ValidateABCI dve v vals t = Ok () \<and>
    DuplicateVoteEvidenceFromProto (Some (dve_ToProto dve)) = Ok dve \<and>
    {dve_VoteA dve, dve_VoteB dve} = {Some v1, Some v2}"
proof -
  define key where "key b = bid_Hash b @ encFields (pshFields (bid_PartSetHeader b))" for b :: BlockID
  have k: "bid_Key b = Ok (key b)" for b by (simp add: bid_Key_Ok key_def)
  have ne: "key (v_BlockID v1) \<noteq> key (v_BlockID v2)"
    using bid_Key_inj [of "v_BlockID v1" "v_BlockID v2"] assms(1,2) [THEN Vote_ValidateBasic_Ok(4)] assms(3)
    by (auto simp: key_def)
  define vals' where "vals' = vals\<lparr>vs_total := powers (Validators vals)\<rparr>"
  define dve where "dve = (let lt = key (v_BlockID v1) < key (v_BlockID v2) in
      \<lparr>dve_VoteA = Some (if lt then v1 else v2), dve_VoteB = Some (if lt then v2 else v1),
       dve_TotalVotingPower = powers (Validators vals), dve_ValidatorPower = VotingPower v, dve_Timestamp = t\<rparr>)"
  have new: "NewDuplicateVoteEvidence (Some v1) (Some v2) t (Some vals) = Ok (vals', dve)"
    "NewDuplicateVoteEvidence (Some v2) (Some v1) t (Some vals) = Ok (vals', dve)"
    using NewDuplicateVoteEvidence_eq [OF assms(6-9) _ k k] assms(4,5) ne by (auto simp: vals'_def dve_def Let_def)
  have valid: "dve_ValidateBasic (Some dve) = Ok ()"
    using assms(1,2) ne by (auto simp: dve_ValidateBasic_def dve_def Let_def k bytes_Compare_def)
  moreover have "dve_ValidateABCI dve v vals t = Ok ()"
    by (simp add: dve_ValidateABCI_def dve_def Let_def TotalVotingPower_eq [OF assms(6,7)])
  moreover have "DuplicateVoteEvidenceFromProto (Some (dve_ToProto dve)) = Ok dve"
    using valid by (rule dve_proto_roundtrip)
  moreover have "{dve_VoteA dve, dve_VoteB dve} = {Some v1, Some v2}" by (auto simp: dve_def Let_def)
  ultimately show ?thesis using new by blast
qed

theorem duplicate_vote_evidence_valid_witness:
  "\<exists>vals' dve. NewDuplicateVoteEvidence (Some sample_vote) (Some (sample_vote\<lparr>v_BlockID := bid_zero\<rparr>)) 7 (Some demo_set) = Ok (vals', dve) \<and>
     dve_ValidateBasic (Some dve) = Ok () \<and> DuplicateVoteEvidenceFromProto (Some (dve_ToProto dve)) = Ok dve"
proof -
  have "Vote_ValidateBasic sample_vote = Ok ()" "Vote_ValidateBasic (sample_vote\<lparr>v_BlockID := bid_zero\<rparr>) = Ok ()" by code_simp+
  moreover have "v_BlockID sample_vote \<noteq> v_BlockID (sample_vote\<lparr>v_BlockID := bid_zero\<rparr>)"
    by (simp add: sample_vote_def bid_zero_def)
  moreover have "val_Address (hd (Validators demo_set)) = v_ValidatorAddress sample_vote"
    "hd (Validators demo_set) \<in> set (Validators demo_set)" "int (length (Validators demo_set)) \<le> MaxInt32"
    by (simp_all add: demo_set_def sample_vote_def int_limits)
  ultimately show ?thesis
    using duplicate_vote_evidence_valid [of sample_vote "sample_vote\<lparr>v_BlockID := bid_zero\<rparr>" "hd (Validators demo_set)" demo_set 7] demo_set_ok
    by auto
qed

text \<open>
  Evidence that comes from its protobuf message never has a nil list of byzantine validators. When no validator can be
  blamed, as in an amnesia attack, the expected list is nil, and such evidence is refused.
\<close>

lemma decoded_amnesia_refused:
  assumes "LightClientAttackEvidenceFromProto E W (Some pb) = Ok l"
    and "GetByzantineValidators l (vals\<lparr>vs_total := powers (Validators vals)\<rparr>) trusted = (Ok None :: (evidence_error, _) res)"
    and "vals_ok (Validators vals)" "total_ok vals"
  shows "lca_ValidateABCI l vals trusted evidenceTime \<noteq> Ok ()"
proof -
  have "lca_ByzantineValidators l \<noteq> None"
    using assms(1) by (auto simp: LightClientAttackEvidenceFromProto_def res_simps Let_def split: res.splits)
  then show ?thesis using assms(2) by (simp add: lca_ValidateABCI_def TotalVotingPower_eq [OF assms(3,4)])
qed

end
