(* ===== verification/Block.thy ===== *)
theory Block
  imports Evidence
begin

text \<open>
  Blocks (\<open>types/block.go\<close>): evidence data, validation, hash, construction and protobuf conversions, and the
  marshalled form of a block (\<open>proto/tendermint/types/block.pb.go\<close>). The memoized hashes are part of the state; an
  operation that may fill them returns the block.

  What the theorems show: the hash of a valid block determines its header, its transactions, the encodings of its evidence and the
  signatures of its last commit, and no sequence of operations leaves a memoized hash that is not the hash of what it is
  stored with.
\<close>

datatype block_error =
    ErrNilBlock | ErrInvalidHeader header_error | ErrNilLastCommit | ErrWrongLastCommit commit_error
  | ErrWrongLastCommitHash bytes bytes | ErrWrongDataHash bytes bytes | ErrInvalidEvidence nat evidence_error
  | ErrWrongEvidenceHash bytes bytes | ErrBlockHeader header_error | ErrBlockData header_error
  | ErrBlockEvidence evidence_error | ErrBlockCommit commit_error | ErrNilEvidenceData

definition MaxHeaderBytes :: int64 where "MaxHeaderBytes = 626"
definition MaxOverheadForBlock :: int64 where "MaxOverheadForBlock = 11"

section \<open>Evidence data\<close>

record EvidenceData =
  ed_Evidence :: "Evidence list"
  ed_hash :: "bytes option"
  ed_byteSize :: int64

definition EvidenceData_Hash :: "env \<Rightarrow> EvidenceData \<Rightarrow> ('e, EvidenceData \<times> bytes) res" where
  "EvidenceData_Hash E data =
     (case ed_hash data of Some h \<Rightarrow> Ok (data, h)
      | None \<Rightarrow> res_bind (EvidenceList_Hash E (ed_Evidence data)) (\<lambda>h. Ok (data\<lparr>ed_hash := Some h\<rparr>, h)))"

definition EvidenceData_ToProto :: "EvidenceData option \<Rightarrow> (block_error, protoEvidence list) res" where
  "EvidenceData_ToProto od =
     (case od of None \<Rightarrow> Err ErrNilEvidenceData
      | Some data \<Rightarrow>
          res_fold (\<lambda>evis ev. case EvidenceToProto (Some ev) of
              Err e \<Rightarrow> Err (ErrBlockEvidence e) | Panic s \<Rightarrow> Panic s | Ok p \<Rightarrow> Ok (evis @ [p])) [] (ed_Evidence data))"

definition EvidenceData_ByteSize :: "env \<Rightarrow> EvidenceData \<Rightarrow> ('e, EvidenceData \<times> int64) res" where
  "EvidenceData_ByteSize E data =
     (if ed_byteSize data = 0 \<and> length (ed_Evidence data) \<noteq> 0
      then (case EvidenceData_ToProto (Some data) of
              Err e \<Rightarrow> Panic ''evidence to proto''
            | Panic s \<Rightarrow> Panic s
            | Ok pb \<Rightarrow> (let n = int (EvidenceList_Size E pb) in Ok (data\<lparr>ed_byteSize := n\<rparr>, n)))
      else Ok (data, ed_byteSize data))"

definition EvidenceData_FromProto :: "env \<Rightarrow> wkt \<Rightarrow> EvidenceData \<Rightarrow> protoEvidence list option \<Rightarrow> (block_error, EvidenceData) res" where
  "EvidenceData_FromProto E W data oeviData =
     (case oeviData of None \<Rightarrow> Err ErrNilEvidenceData
      | Some eviData \<Rightarrow>
          res_bind (res_fold (\<lambda>evis p. case EvidenceFromProto E W (Some p) of
              Err e \<Rightarrow> Err (ErrBlockEvidence e) | Panic s \<Rightarrow> Panic s | Ok ev \<Rightarrow> Ok (evis @ [ev])) [] eviData) (\<lambda>eviBzs.
            Ok (data\<lparr>ed_Evidence := eviBzs, ed_byteSize := int (EvidenceList_Size E eviData)\<rparr>)))"

section \<open>Blocks\<close>

record Block =
  b_Header :: Header
  b_Data :: Data
  b_Evidence :: EvidenceData
  b_LastCommit :: "Commit option"

fun validateEvidence :: "env \<Rightarrow> wkt \<Rightarrow> nat \<Rightarrow> Evidence list \<Rightarrow> (block_error, unit) res" where
  "validateEvidence E W i [] = Ok ()"
| "validateEvidence E W i (ev # evs) =
     (case ev_ValidateBasic E W ev of
        Err e \<Rightarrow> Err (ErrInvalidEvidence i e) | Panic s \<Rightarrow> Panic s | Ok _ \<Rightarrow> validateEvidence E W (Suc i) evs)"

text \<open>A check that returned nil is followed by the next one.\<close>

definition and_then :: "'s \<times> ('e, unit) res \<Rightarrow> ('s \<Rightarrow> 's \<times> ('e, unit) res) \<Rightarrow> 's \<times> ('e, unit) res" where
  "and_then sr f = (case snd sr of Ok _ \<Rightarrow> f (fst sr) | _ \<Rightarrow> sr)"

definition checkHeader :: "Block \<Rightarrow> Block \<times> (block_error, unit) res" where
  "checkHeader b =
     (b, case Header_ValidateBasic (b_Header b) of Err e \<Rightarrow> Err (ErrInvalidHeader e) | Panic s \<Rightarrow> Panic s | Ok _ \<Rightarrow> Ok ())"

definition checkLastCommit :: "env \<Rightarrow> Block \<Rightarrow> Block \<times> (block_error, unit) res" where
  "checkLastCommit E b =
     (case b_LastCommit b of None \<Rightarrow> (b, Err ErrNilLastCommit)
      | Some lc \<Rightarrow>
          (case Commit_ValidateBasic lc of Err e \<Rightarrow> (b, Err (ErrWrongLastCommit e)) | Panic s \<Rightarrow> (b, Panic s)
           | Ok _ \<Rightarrow>
               (case Commit_Hash E (b_LastCommit b) of Err e \<Rightarrow> (b, Err e) | Panic s \<Rightarrow> (b, Panic s)
                | Ok (lc, w) \<Rightarrow>
                    (let g = h_LastCommitHash (b_Header b)
                     in (b\<lparr>b_LastCommit := lc\<rparr>,
                         if go_bytes w \<noteq> go_bytes g then Err (ErrWrongLastCommitHash (go_bytes w) (go_bytes g)) else Ok ())))))"

definition checkDataHash :: "env \<Rightarrow> Block \<Rightarrow> Block \<times> (block_error, unit) res" where
  "checkDataHash E b =
     (case Data_Hash E (Some (b_Data b)) of
        (d, w) \<Rightarrow>
          (let g = h_DataHash (b_Header b)
           in (b\<lparr>b_Data := case_option (b_Data b) id d\<rparr>,
               if w \<noteq> go_bytes g then Err (ErrWrongDataHash w (go_bytes g)) else Ok ())))"

definition checkEvidenceHash :: "env \<Rightarrow> Block \<Rightarrow> Block \<times> (block_error, unit) res" where
  "checkEvidenceHash E b =
     (case EvidenceData_Hash E (b_Evidence b) of Err e \<Rightarrow> (b, Err e) | Panic s \<Rightarrow> (b, Panic s)
      | Ok (ed, w) \<Rightarrow>
          (let g = h_EvidenceHash (b_Header b)
           in (b\<lparr>b_Evidence := ed\<rparr>,
               if w \<noteq> go_bytes g then Err (ErrWrongEvidenceHash w (go_bytes g)) else Ok ())))"

definition Block_ValidateBasic :: "env \<Rightarrow> wkt \<Rightarrow> Block option \<Rightarrow> Block option \<times> (block_error, unit) res" where
  "Block_ValidateBasic E W ob =
     (case ob of None \<Rightarrow> (None, Err ErrNilBlock)
      | Some b \<Rightarrow>
          map_prod Some id
            (and_then (checkHeader b) (\<lambda>b.
             and_then (checkLastCommit E b) (\<lambda>b.
             and_then (checkDataHash E b) (\<lambda>b.
             and_then (b, validateEvidence E W 0 (ed_Evidence (b_Evidence b))) (\<lambda>b.
             checkEvidenceHash E b))))))"

text \<open>The three hashes that \<open>fillHeader\<close> fills in.\<close>

definition fillLastCommitHash :: "env \<Rightarrow> Block \<Rightarrow> ('e, Block) res" where
  "fillLastCommitHash E b =
     (if h_LastCommitHash (b_Header b) = None
      then res_bind (Commit_Hash E (b_LastCommit b)) (\<lambda>(lc, w).
             Ok (b\<lparr>b_LastCommit := lc, b_Header := (b_Header b)\<lparr>h_LastCommitHash := w\<rparr>\<rparr>))
      else Ok b)"

definition fillDataHash :: "env \<Rightarrow> Block \<Rightarrow> Block" where
  "fillDataHash E b =
     (if h_DataHash (b_Header b) = None
      then let (d, w) = Data_Hash E (Some (b_Data b))
           in b\<lparr>b_Data := case_option (b_Data b) id d, b_Header := (b_Header b)\<lparr>h_DataHash := Some w\<rparr>\<rparr>
      else b)"

definition fillEvidenceHash :: "env \<Rightarrow> Block \<Rightarrow> ('e, Block) res" where
  "fillEvidenceHash E b =
     (if h_EvidenceHash (b_Header b) = None
      then res_bind (EvidenceData_Hash E (b_Evidence b)) (\<lambda>(ed, w).
             Ok (b\<lparr>b_Evidence := ed, b_Header := (b_Header b)\<lparr>h_EvidenceHash := Some w\<rparr>\<rparr>))
      else Ok b)"

definition fillHeader :: "env \<Rightarrow> Block \<Rightarrow> ('e, Block) res" where
  "fillHeader E b = res_bind (fillLastCommitHash E b) (\<lambda>b. fillEvidenceHash E (fillDataHash E b))"

definition Block_Hash :: "env \<Rightarrow> wkt \<Rightarrow> Block option \<Rightarrow> ('e, Block option \<times> bytes option) res" where
  "Block_Hash E W ob =
     (case ob of None \<Rightarrow> Ok (None, None)
      | Some b \<Rightarrow>
          if b_LastCommit b = None then Ok (Some b, None)
          else res_bind (fillHeader E b) (\<lambda>b. res_bind (Header_Hash E W (Some (b_Header b))) (\<lambda>h. Ok (Some b, h))))"

definition Block_HashesTo :: "env \<Rightarrow> wkt \<Rightarrow> Block option \<Rightarrow> bytes \<Rightarrow> ('e, Block option \<times> bool) res" where
  "Block_HashesTo E W ob hash =
     (if length hash = 0 then Ok (ob, False)
      else case ob of None \<Rightarrow> Ok (None, False)
           | Some b \<Rightarrow> res_bind (Block_Hash E W (Some b)) (\<lambda>(ob, h). Ok (ob, go_bytes h = hash)))"

record protoBlock =
  pb_Header :: Header
  pb_Data :: "bytes list"
  pb_Evidence :: "protoEvidence list"
  pb_LastCommit :: "protoCommit option"

definition Block_ToProto :: "Block option \<Rightarrow> (block_error, protoBlock) res" where
  "Block_ToProto ob =
     (case ob of None \<Rightarrow> Err ErrNilBlock
      | Some b \<Rightarrow>
          (case Header_ToProto (Some (b_Header b)) of None \<Rightarrow> Panic ''nil pointer dereference''
           | Some h \<Rightarrow>
               res_bind (EvidenceData_ToProto (Some (b_Evidence b))) (\<lambda>protoEvidence.
                 Ok \<lparr>pb_Header = h, pb_Data = Data_ToProto (b_Data b), pb_Evidence = protoEvidence,
                     pb_LastCommit = Commit_ToProto (b_LastCommit b)\<rparr>)))"

text \<open>The zero value of the struct, and what \<open>BlockFromProto\<close> builds from it.\<close>

definition ed_zero :: EvidenceData where "ed_zero = \<lparr>ed_Evidence = [], ed_hash = None, ed_byteSize = 0\<rparr>"

definition BlockFromProto :: "env \<Rightarrow> wkt \<Rightarrow> protoBlock option \<Rightarrow> (block_error, Block) res" where
  "BlockFromProto E W obp =
     (case obp of None \<Rightarrow> Err ErrNilBlock
      | Some bp \<Rightarrow>
          (case HeaderFromProto (Some (pb_Header bp)) of Err e \<Rightarrow> Err (ErrBlockHeader e) | Panic s \<Rightarrow> Panic s
           | Ok h \<Rightarrow>
               (case DataFromProto (Some (pb_Data bp)) of Err e \<Rightarrow> Err (ErrBlockData e) | Panic s \<Rightarrow> Panic s
                | Ok data \<Rightarrow>
                    res_bind (EvidenceData_FromProto E W ed_zero (Some (pb_Evidence bp))) (\<lambda>evd.
                    res_bind (case pb_LastCommit bp of None \<Rightarrow> Ok None
                              | Some pc \<Rightarrow> (case CommitFromProto (Some pc) of
                                  Err e \<Rightarrow> Err (ErrBlockCommit e) | Panic s \<Rightarrow> Panic s | Ok lc \<Rightarrow> Ok (Some lc))) (\<lambda>lc.
                    let b = \<lparr>b_Header = h, b_Data = data, b_Evidence = evd, b_LastCommit = lc\<rparr>
                    in case Block_ValidateBasic E W (Some b) of
                         (ob, r) \<Rightarrow> res_bind r (\<lambda>_. Ok (case_option b id ob)))))))"

definition protoBlock_MarshalToSizedBuffer :: "env \<Rightarrow> protoBlock \<Rightarrow> bytes option" where
  "protoBlock_MarshalToSizedBuffer E m =
     (let acc = Some [];
          acc = wr_ptr 0x22 (map_option (Commit_MarshalToSizedBuffer E) (pb_LastCommit m)) acc;
          acc = wr_msg 0x1a (EvidenceList_MarshalToSizedBuffer E (pb_Evidence m)) acc;
          acc = wr_msg 0x12 (Data_MarshalToSizedBuffer (pb_Data m)) acc;
          acc = wr_msg 0x0a (Header_MarshalToSizedBuffer E (pb_Header m)) acc
      in acc)"

definition protoBlock_Size :: "env \<Rightarrow> protoBlock \<Rightarrow> nat" where
  "protoBlock_Size E m =
     sz_msg (Header_Size E (pb_Header m)) + sz_msg (protoData_Size (pb_Data m)) +
     sz_msg (EvidenceList_Size E (pb_Evidence m)) + sz_ptr (map_option (protoCommit_Size E) (pb_LastCommit m))"

definition Block_Size :: "env \<Rightarrow> Block option \<Rightarrow> (block_error, int) res" where
  "Block_Size E ob = (case Block_ToProto ob of Ok pbb \<Rightarrow> Ok (int (protoBlock_Size E pbb)) | Err e \<Rightarrow> Ok 0 | Panic s \<Rightarrow> Panic s)"

definition MaxDataBytes :: "int64 \<Rightarrow> int64 \<Rightarrow> int \<Rightarrow> ('e, int64) res" where
  "MaxDataBytes maxBytes evidenceBytes valsCount =
     (let maxDataBytes = wrap64 (wrap64 (wrap64 (wrap64 (maxBytes - MaxOverheadForBlock) - MaxHeaderBytes) -
                                   MaxCommitBytes valsCount) - evidenceBytes)
      in if maxDataBytes < 0 then Panic ''Negative MaxDataBytes'' else Ok maxDataBytes)"

definition MaxDataBytesNoEvidence :: "int64 \<Rightarrow> int \<Rightarrow> ('e, int64) res" where
  "MaxDataBytesNoEvidence maxBytes valsCount =
     (let maxDataBytes = wrap64 (wrap64 (wrap64 (maxBytes - MaxOverheadForBlock) - MaxHeaderBytes) - MaxCommitBytes valsCount)
      in if maxDataBytes < 0 then Panic ''Negative MaxDataBytesUnknownEvidence'' else Ok maxDataBytes)"

definition header_zero :: Header where
  "header_zero = \<lparr>h_Version = \<lparr>ver_Block = 0, ver_App = 0\<rparr>, h_ChainID = [], h_Height = 0, h_Time = zero_time,
     h_LastBlockID = bid_zero, h_LastCommitHash = None, h_DataHash = None, h_ValidatorsHash = [], h_NextValidatorsHash = [],
     h_ConsensusHash = [], h_AppHash = [], h_LastResultsHash = [], h_EvidenceHash = None, h_ProposerAddress = []\<rparr>"

definition MakeBlock :: "env \<Rightarrow> int64 \<Rightarrow> bytes list \<Rightarrow> Commit option \<Rightarrow> Evidence list \<Rightarrow> ('e, Block) res" where
  "MakeBlock E height txs lastCommit evidence =
     fillHeader E \<lparr>b_Header = header_zero\<lparr>h_Version := \<lparr>ver_Block = BlockProtocol, ver_App = 0\<rparr>, h_Height := height\<rparr>,
       b_Data = \<lparr>d_Txs = txs, d_hash = None\<rparr>,
       b_Evidence = \<lparr>ed_Evidence = evidence, ed_hash = None, ed_byteSize = 0\<rparr>, b_LastCommit = lastCommit\<rparr>"

lemma protoBlock_wlen: "wlen (protoBlock_MarshalToSizedBuffer E m) (protoBlock_Size E m)"
  unfolding protoBlock_MarshalToSizedBuffer_def Let_def
  by (rule wlen_eq, (rule wlen_intros Header_wlen Data_wlen EvidenceList_wlen Commit_wlen)+) (simp add: protoBlock_Size_def)

section \<open>Memoized hashes\<close>

lemma res_fold_collect_Ok:
  "res_fold (\<lambda>acc x. res_bind (f x) (\<lambda>y. Ok (acc @ [y]))) acc xs = Ok ys \<longleftrightarrow>
    (\<exists>zs. ys = acc @ zs \<and> list_all2 (\<lambda>x z. f x = Ok z) xs zs)"
proof (induction xs arbitrary: acc)
  case (Cons x xs)
  then show ?case by (cases "f x") (auto simp: list_all2_Cons1)
qed auto

lemma list_all2_those: "list_all2 (\<lambda>x z. f x = Some z) xs zs \<longleftrightarrow> those (map f xs) = Some zs"
proof (induction xs arbitrary: zs)
  case (Cons x xs)
  then show ?case by (auto simp: list_all2_Cons1 split: option.splits)
qed auto

lemma those_eq_Some: "those xs = Some zs \<longleftrightarrow> xs = map Some zs"
proof (induction xs arbitrary: zs)
  case (Cons x xs)
  then show ?case by (cases zs) (auto split: option.splits)
qed auto

definition commitLeaves :: "env \<Rightarrow> Commit \<Rightarrow> bytes list option" where
  "commitLeaves E c = those (map (\<lambda>cs. CommitSig_MarshalToSizedBuffer E (CommitSig_ToProto cs)) (c_Signatures c))"

lemma CommitSig_Marshal_Ok: "CommitSig_Marshal E m = Ok z \<longleftrightarrow> CommitSig_MarshalToSizedBuffer E m = Some z"
  using CommitSig_wlen [of E m] by (auto simp: CommitSig_Marshal_def wlen_def split: option.splits)

definition evBytes :: "env \<Rightarrow> Evidence \<Rightarrow> bytes option" where
  "evBytes E ev = (case (ev_Bytes E ev :: (unit, bytes) res) of Ok b \<Rightarrow> Some b | _ \<Rightarrow> None)"

lemma ev_Bytes_Ok: "ev_Bytes E ev = Ok b \<longleftrightarrow> evBytes E ev = Some b"
  by (cases ev) (auto simp: evBytes_def dve_Bytes_def lca_Bytes_def Let_def mustMarshal_def marshalSized_def
      split: option.splits res.splits if_splits)

definition evLeaves :: "env \<Rightarrow> Evidence list \<Rightarrow> bytes list option" where
  "evLeaves E evs = those (map (evBytes E) evs)"

lemma EvidenceList_Hash_Ok:
  "EvidenceList_Hash E evs = Ok h \<longleftrightarrow> (\<exists>ls. evLeaves E evs = Some ls \<and> h = HashFromByteSlices (Sum256 E) ls)"
  by (auto simp: EvidenceList_Hash_def res_simps res_fold_collect_Ok ev_Bytes_Ok evLeaves_def list_all2_those)

text \<open>A memoized hash is the hash of what it is stored with.\<close>

definition commit_memo :: "env \<Rightarrow> Commit \<Rightarrow> bool" where
  "commit_memo E c \<longleftrightarrow> (\<forall>h. c_hash c = Some h \<longrightarrow> (\<exists>ls. commitLeaves E c = Some ls \<and> h = HashFromByteSlices (Sum256 E) ls))"

definition memo_ok :: "env \<Rightarrow> Block \<Rightarrow> bool" where
  "memo_ok E b \<longleftrightarrow>
     (\<forall>c. b_LastCommit b = Some c \<longrightarrow> commit_memo E c) \<and>
     (\<forall>h. d_hash (b_Data b) = Some h \<longrightarrow> h = Txs_Hash E (d_Txs (b_Data b))) \<and>
     (\<forall>h. ed_hash (b_Evidence b) = Some h \<longrightarrow>
        (\<exists>ls. evLeaves E (ed_Evidence (b_Evidence b)) = Some ls \<and> h = HashFromByteSlices (Sum256 E) ls))"

lemma Commit_Hash_Ok:
  assumes "commit_memo E c" "Commit_Hash E (Some c) = Ok (oc, oh)"
  shows "\<exists>ls h. commitLeaves E c = Some ls \<and> h = HashFromByteSlices (Sum256 E) ls \<and> oh = Some h \<and> oc = Some (c\<lparr>c_hash := Some h\<rparr>)"
  using assms
  by (auto simp: Commit_Hash_def commit_memo_def res_simps res_fold_collect_Ok CommitSig_Marshal_Ok list_all2_those commitLeaves_def Let_def
      split: option.splits)

lemma EvidenceData_Hash_Ok:
  assumes "\<forall>h. ed_hash d = Some h \<longrightarrow> (\<exists>ls. evLeaves E (ed_Evidence d) = Some ls \<and> h = HashFromByteSlices (Sum256 E) ls)"
    "EvidenceData_Hash E d = Ok (d', h)"
  shows "\<exists>ls. evLeaves E (ed_Evidence d) = Some ls \<and> h = HashFromByteSlices (Sum256 E) ls \<and> d' = d\<lparr>ed_hash := Some h\<rparr>"
  using assms by (auto simp: EvidenceData_Hash_def res_simps EvidenceList_Hash_Ok split: option.splits)

lemma Data_Hash_eq:
  "\<forall>h. d_hash d = Some h \<longrightarrow> h = Txs_Hash E (d_Txs d) \<Longrightarrow>
    Data_Hash E (Some d) = (Some (d\<lparr>d_hash := Some (Txs_Hash E (d_Txs d))\<rparr>), Txs_Hash E (d_Txs d))"
  by (auto simp: Data_Hash_def Let_def split: option.split)

text \<open>What a valid block satisfies.\<close>

lemma and_then_Ok: "snd (and_then sr f) = Ok () \<longleftrightarrow> snd sr = Ok () \<and> snd (f (fst sr)) = Ok ()"
  by (auto simp: and_then_def split: res.splits)

lemma checkLastCommit_Ok:
  assumes "snd (checkLastCommit E b) = Ok ()" "memo_ok E b"
  shows "\<exists>c ls. b_LastCommit b = Some c \<and> commitLeaves E c = Some ls \<and> Commit_ValidateBasic c = Ok () \<and>
    go_bytes (h_LastCommitHash (b_Header b)) = HashFromByteSlices (Sum256 E) ls"
proof -
  obtain c where c: "b_LastCommit b = Some c" "Commit_ValidateBasic c = Ok ()"
    using assms(1) by (auto simp: checkLastCommit_def split: option.splits res.splits)
  obtain oc oh where h: "Commit_Hash E (Some c) = (Ok (oc, oh) :: (block_error, _) res)" "go_bytes oh = go_bytes (h_LastCommitHash (b_Header b))"
    using assms(1) c by (auto simp: checkLastCommit_def Let_def split: res.splits if_splits)
  have "commit_memo E c" using assms(2) c(1) by (simp add: memo_ok_def)
  from Commit_Hash_Ok [OF this h(1)] c h(2) show ?thesis by (auto simp: go_bytes_def)
qed

lemma checkEvidenceHash_Ok:
  assumes "snd (checkEvidenceHash E b) = Ok ()"
    "\<forall>h. ed_hash (b_Evidence b) = Some h \<longrightarrow>
        (\<exists>ls. evLeaves E (ed_Evidence (b_Evidence b)) = Some ls \<and> h = HashFromByteSlices (Sum256 E) ls)"
  shows "\<exists>es. evLeaves E (ed_Evidence (b_Evidence b)) = Some es \<and>
    go_bytes (h_EvidenceHash (b_Header b)) = HashFromByteSlices (Sum256 E) es"
proof -
  obtain ed w where h: "EvidenceData_Hash E (b_Evidence b) = (Ok (ed, w) :: (block_error, _) res)" "w = go_bytes (h_EvidenceHash (b_Header b))"
    using assms(1) by (auto simp: checkEvidenceHash_def Let_def split: res.splits if_splits)
  from EvidenceData_Hash_Ok [OF assms(2) h(1)] h(2) show ?thesis by auto
qed

lemma fst_checks [simp]:
  "b_Header (fst (checkLastCommit E b)) = b_Header b" "b_Data (fst (checkLastCommit E b)) = b_Data b"
  "b_Evidence (fst (checkLastCommit E b)) = b_Evidence b" "fst (checkHeader b) = b"
  "b_Header (fst (checkDataHash E b)) = b_Header b" "b_Evidence (fst (checkDataHash E b)) = b_Evidence b"
  by (simp_all add: checkLastCommit_def checkDataHash_def checkHeader_def Let_def split_def split: option.split res.split)

lemma Block_ValidateBasic_Ok:
  assumes "snd (Block_ValidateBasic E W (Some b)) = Ok ()" "memo_ok E b"
  shows "\<exists>c ls es. b_LastCommit b = Some c \<and> commitLeaves E c = Some ls \<and> evLeaves E (ed_Evidence (b_Evidence b)) = Some es \<and>
    Header_ValidateBasic (b_Header b) = Ok () \<and> Commit_ValidateBasic c = Ok () \<and>
    validateEvidence E W 0 (ed_Evidence (b_Evidence b)) = Ok () \<and>
    go_bytes (h_LastCommitHash (b_Header b)) = HashFromByteSlices (Sum256 E) ls \<and>
    go_bytes (h_DataHash (b_Header b)) = Txs_Hash E (d_Txs (b_Data b)) \<and>
    go_bytes (h_EvidenceHash (b_Header b)) = HashFromByteSlices (Sum256 E) es"
proof -
  let ?b1 = "fst (checkLastCommit E b)" and ?b2 = "fst (checkDataHash E (fst (checkLastCommit E b)))"
  have ok: "snd (checkHeader b) = Ok ()" "snd (checkLastCommit E b) = Ok ()" "snd (checkDataHash E ?b1) = Ok ()"
    "validateEvidence E W 0 (ed_Evidence (b_Evidence b)) = Ok ()" "snd (checkEvidenceHash E ?b2) = Ok ()"
    using assms(1) by (simp_all add: Block_ValidateBasic_def and_then_Ok)
  have m: "\<forall>h. d_hash (b_Data b) = Some h \<longrightarrow> h = Txs_Hash E (d_Txs (b_Data b))"
    "\<forall>h. ed_hash (b_Evidence ?b2) = Some h \<longrightarrow>
        (\<exists>ls. evLeaves E (ed_Evidence (b_Evidence ?b2)) = Some ls \<and> h = HashFromByteSlices (Sum256 E) ls)"
    using assms(2) by (simp_all add: memo_ok_def)
  have "Header_ValidateBasic (b_Header b) = Ok ()" using ok(1) by (auto simp: checkHeader_def split: res.splits)
  moreover have "go_bytes (h_DataHash (b_Header b)) = Txs_Hash E (d_Txs (b_Data b))"
    using ok(3) by (simp add: checkDataHash_def Data_Hash_eq [OF m(1)] Let_def split: if_splits)
  ultimately show ?thesis
    using checkLastCommit_Ok [OF ok(2) assms(2)] checkEvidenceHash_Ok [OF ok(5) m(2)] ok(4) by auto
qed

section \<open>The block hash\<close>

definition csFields :: "protoCommitSig \<Rightarrow> bytes \<Rightarrow> wire_field list" where
  "csFields m t = opt_varint 0x08 (to_uint64 (pcs_BlockIdFlag m)) @ opt_bytes 0x12 (pcs_ValidatorAddress m) @
     [(0x1a, Delimited t)] @ opt_bytes 0x22 (pcs_Signature m)"

lemma CommitSig_Marshal_fields:
  "is_int64 (pcs_BlockIdFlag m) \<Longrightarrow> CommitSig_MarshalToSizedBuffer E m = Some z \<Longrightarrow>
    \<exists>t. StdTimeMarshal E (pcs_Timestamp m) = Some t \<and> z = encFields (csFields m t)"
  by (auto simp: CommitSig_MarshalToSizedBuffer_def csFields_def opt_defs Let_def to_uint64_zero_iff split: option.splits)

lemma CommitSig_Marshal_inj:
  assumes "CommitSig_MarshalToSizedBuffer E (CommitSig_ToProto a) = Some z" "CommitSig_MarshalToSizedBuffer E (CommitSig_ToProto b) = Some z"
    "time_inj E"
  shows "a = b"
proof -
  let ?a = "CommitSig_ToProto a" and ?b = "CommitSig_ToProto b"
  have r: "is_int64 (pcs_BlockIdFlag (CommitSig_ToProto c))" for c
  proof -
    have "pcs_BlockIdFlag (CommitSig_ToProto c) = uint (cs_BlockIDFlag c)" "uint (cs_BlockIDFlag c) < 256"
      using uint_lt2p [of "cs_BlockIDFlag c"] by (simp_all add: CommitSig_ToProto_def)
    then show ?thesis using uint_ge_0 [of "cs_BlockIDFlag c"] unfolding is_int64_def int_limits by linarith
  qed
  from CommitSig_Marshal_fields [OF r assms(1)] CommitSig_Marshal_fields [OF r assms(2)]
  obtain t t' where t: "StdTimeMarshal E (pcs_Timestamp ?a) = Some t" "StdTimeMarshal E (pcs_Timestamp ?b) = Some t'"
    "encFields (csFields ?a t) = encFields (csFields ?b t')" by auto
  then have "csFields ?a t = csFields ?b t'" by (subst (asm) encFields_inj) (simp_all add: csFields_def)
  then have "map_of (csFields ?a t) k = map_of (csFields ?b t') k" for k by simp
  note eq = this [unfolded csFields_def map_of_append_case]
  have "pcs_BlockIdFlag ?a = pcs_BlockIdFlag ?b" using eq [of "0x08"] r [of a] r [of b] by (simp add: int64_inj split: if_splits option.splits)
  moreover have "pcs_ValidatorAddress ?a = pcs_ValidatorAddress ?b" using eq [of "0x12"] by (simp split: if_splits option.splits)
  moreover have "t = t'" using eq [of "0x1a"] by (simp split: option.splits)
  moreover have "pcs_Signature ?a = pcs_Signature ?b" using eq [of "0x22"] by (simp split: if_splits option.splits)
  moreover have "pcs_Timestamp ?a = pcs_Timestamp ?b" using t(1,2) \<open>t = t'\<close> assms(3) by (auto simp: time_inj_def)
  ultimately show ?thesis by (cases a; cases b) (simp add: CommitSig_ToProto_def word_uint_eq_iff)
qed

lemma commitLeaves_inj:
  assumes "commitLeaves E a = Some ls" "commitLeaves E b = Some ls" "time_inj E"
  shows "c_Signatures a = c_Signatures b"
proof -
  have "list_all2 (\<lambda>x z. CommitSig_MarshalToSizedBuffer E (CommitSig_ToProto x) = Some z) (c_Signatures a) ls"
    "list_all2 (\<lambda>x z. CommitSig_MarshalToSizedBuffer E (CommitSig_ToProto x) = Some z) (c_Signatures b) ls"
    using assms(1,2) by (simp_all add: commitLeaves_def list_all2_those)
  then show ?thesis
    by (auto simp: list_eq_iff_nth_eq list_all2_conv_all_nth intro: CommitSig_Marshal_inj [OF _ _ assms(3)])
qed

text \<open>The byte strings hashed for a block.\<close>

definition blockInputs :: "env \<Rightarrow> wkt \<Rightarrow> Block \<Rightarrow> bytes list" where
  "blockInputs E W b =
     headerInputs E W (b_Header b) @ dataInputs E (d_Txs (b_Data b)) @
     treeInputs (Sum256 E) (case_option [] id (evLeaves E (ed_Evidence (b_Evidence b)))) @
     treeInputs (Sum256 E) (case b_LastCommit b of None \<Rightarrow> [] | Some c \<Rightarrow> case_option [] id (commitLeaves E c))"

text \<open>Once its hashes are set the header stays as it is.\<close>

lemma Block_Hash_filled:
  assumes "b_LastCommit b \<noteq> None" "h_LastCommitHash (b_Header b) \<noteq> None" "h_DataHash (b_Header b) \<noteq> None" "h_EvidenceHash (b_Header b) \<noteq> None"
  shows "Block_Hash E W (Some b) = res_bind (Header_Hash E W (Some (b_Header b))) (\<lambda>h. Ok (Some b, h))"
  using assms by (auto simp: Block_Hash_def fillHeader_def fillLastCommitHash_def fillDataHash_def fillEvidenceHash_def)

lemma valid_block_filled:
  assumes "snd (Block_ValidateBasic E W (Some b)) = Ok ()" "memo_ok E b" "hash32 (Sum256 E)"
  shows "h_LastCommitHash (b_Header b) \<noteq> None" "h_DataHash (b_Header b) \<noteq> None" "h_EvidenceHash (b_Header b) \<noteq> None" "b_LastCommit b \<noteq> None"
proof -
  have "HashFromByteSlices (Sum256 E) ls \<noteq> []" for ls
    using computed_length [OF assms(3), of ls] by (auto simp: HashFromByteSlices_def)
  then have n: "go_bytes None \<noteq> HashFromByteSlices (Sum256 E) ls" for ls by (simp add: go_bytes_def eq_commute [of "[]"])
  with Block_ValidateBasic_Ok [OF assms(1,2)] show "h_LastCommitHash (b_Header b) \<noteq> None" "h_DataHash (b_Header b) \<noteq> None"
      "h_EvidenceHash (b_Header b) \<noteq> None" "b_LastCommit b \<noteq> None"
    by (metis Txs_Hash_def option.distinct(1))+
qed

text \<open>
  C12: The hash of a valid block determines the block: two valid blocks with the same hash have the same header, the
  same transactions in the same order, evidence with the same encodings and the same signatures in their last commits, unless the
  hash function collides on the bytes that the two blocks feed it.
\<close>

theorem block_hash_binds_content:
  assumes valid: "snd (Block_ValidateBasic E W (Some b)) = Ok ()" "snd (Block_ValidateBasic E W (Some b')) = Ok ()"
    and memo: "memo_ok E b" "memo_ok E b'"
    and hash: "Block_Hash E W (Some b) = (Ok (c, Some x) :: (block_error, _) res)" "Block_Hash E W (Some b') = (Ok (c', Some x) :: (block_error, _) res)"
    and E: "hash32 (Sum256 E)" "time_inj E" "wkt_documented W"
    and range: "is_int64 (h_Height (b_Header b))" "is_int64 (h_Height (b_Header b'))"
    and inj: "inj_on (Sum256 E) (set (blockInputs E W b) \<union> set (blockInputs E W b'))"
  shows "b_Header b = b_Header b' \<and> d_Txs (b_Data b) = d_Txs (b_Data b') \<and>
    map (evBytes E) (ed_Evidence (b_Evidence b)) = map (evBytes E) (ed_Evidence (b_Evidence b')) \<and>
    map_option c_Signatures (b_LastCommit b) = map_option c_Signatures (b_LastCommit b')"
proof -
  note filled = valid_block_filled [OF valid(1) memo(1) E(1)] valid_block_filled [OF valid(2) memo(2) E(1)]
  have "Header_Hash E W (Some (b_Header b)) = (Ok (Some x) :: (block_error, _) res)" "Header_Hash E W (Some (b_Header b')) = (Ok (Some x) :: (block_error, _) res)"
    using hash filled by (simp_all add: Block_Hash_filled res_simps)
  from Header_Hash_inj [OF this E(3,2,1) range inj_on_subset [OF inj]]
  have "header_norm (b_Header b) = header_norm (b_Header b')" by (simp add: blockInputs_def) blast
  then have hd: "go_bytes (h_LastCommitHash (b_Header b)) = go_bytes (h_LastCommitHash (b_Header b'))"
    "go_bytes (h_DataHash (b_Header b)) = go_bytes (h_DataHash (b_Header b'))"
    "go_bytes (h_EvidenceHash (b_Header b)) = go_bytes (h_EvidenceHash (b_Header b'))" and heq: "b_Header b = b_Header b'"
    using filled by (cases "b_Header b"; cases "b_Header b'"; auto simp: header_norm_def nil_norm_eq go_bytes_def)+
  from Block_ValidateBasic_Ok [OF valid(1) memo(1)] obtain lc ls es where
    b: "b_LastCommit b = Some lc" "commitLeaves E lc = Some ls" "evLeaves E (ed_Evidence (b_Evidence b)) = Some es"
      "go_bytes (h_LastCommitHash (b_Header b)) = HashFromByteSlices (Sum256 E) ls"
      "go_bytes (h_DataHash (b_Header b)) = Txs_Hash E (d_Txs (b_Data b))"
      "go_bytes (h_EvidenceHash (b_Header b)) = HashFromByteSlices (Sum256 E) es" by auto
  from Block_ValidateBasic_Ok [OF valid(2) memo(2)] obtain lc' ls' es' where
    b': "b_LastCommit b' = Some lc'" "commitLeaves E lc' = Some ls'" "evLeaves E (ed_Evidence (b_Evidence b')) = Some es'"
      "go_bytes (h_LastCommitHash (b_Header b')) = HashFromByteSlices (Sum256 E) ls'"
      "go_bytes (h_DataHash (b_Header b')) = Txs_Hash E (d_Txs (b_Data b'))"
      "go_bytes (h_EvidenceHash (b_Header b')) = HashFromByteSlices (Sum256 E) es'" by auto
  have "ls = ls'" by (rule HashFromByteSlices_inj [OF _ E(1) inj_on_subset [OF inj]]) (use b b' hd in \<open>auto simp: blockInputs_def\<close>)
  moreover have "es = es'" by (rule HashFromByteSlices_inj [OF _ E(1) inj_on_subset [OF inj]]) (use b b' hd in \<open>auto simp: blockInputs_def\<close>)
  moreover have "d_Txs (b_Data b) = d_Txs (b_Data b')"
    by (rule Txs_Hash_inj [OF _ E(1) inj_on_subset [OF inj]]) (use b b' hd in \<open>auto simp: blockInputs_def\<close>)
  ultimately show ?thesis
    using heq b(1-3) b'(1-3) commitLeaves_inj [OF _ _ E(2), of lc ls lc'] by (simp add: evLeaves_def those_eq_Some)
qed

text \<open>A small block and a hash that does not collide on it.\<close>

definition nz32 :: hash_fn where
  "nz32 x = take 32 (word_of_nat (length x) # filter (\<lambda>b. b \<noteq> 0) x @ replicate 32 0)"

definition block_env :: env where "block_env = sample_env\<lparr>Sum256 := nz32\<rparr>"

definition sample_wkt :: wkt where
  "sample_wkt = \<lparr>StringValue_Marshal = Some, Int64Value_Marshal = (\<lambda>i. StdTimeMarshal sample_env i), BytesValue_Marshal = Some\<rparr>"

lemma hash32_nz32: "hash32 nz32"
  by (auto simp: hash32_def nz32_def min_def)

lemma block_env_ok: "hash32 (Sum256 block_env)" "time_inj block_env"
  using sample_env_time_inj by (simp_all add: block_env_def hash32_nz32 time_inj_def)

lemma sample_wkt_documented: "wkt_documented sample_wkt"
proof -
  have "inj (StdTimeMarshal sample_env)"
    using sample_env_time_inj by (auto simp: inj_def time_inj_def sample_env_def split: if_splits)
  then show ?thesis by (auto simp: wkt_documented_def sample_wkt_def intro: inj_on_subset) (simp add: sample_env_def)
qed

definition small_block :: Block where
  "small_block = \<lparr>b_Header = header_zero\<lparr>h_Version := \<lparr>ver_Block = BlockProtocol, ver_App = 0\<rparr>, h_Height := 1, h_ChainID := [65], h_Time := 9,
       h_ValidatorsHash := replicate 32 0, h_ProposerAddress := replicate 20 0,
       h_LastCommitHash := Some (nz32 []), h_DataHash := Some (Txs_Hash block_env [[7]]), h_EvidenceHash := Some (nz32 [])\<rparr>,
     b_Data = \<lparr>d_Txs = [[7]], d_hash = None\<rparr>, b_Evidence = ed_zero, b_LastCommit = Some (NewCommit 0 0 bid_zero [])\<rparr>"

definition small_block_checked :: Block where
  "small_block_checked = small_block\<lparr>b_Data := \<lparr>d_Txs = [[7]], d_hash = Some (Txs_Hash block_env [[7]])\<rparr>,
     b_Evidence := ed_zero\<lparr>ed_hash := Some (nz32 [])\<rparr>\<rparr>"

lemma small_block_valid: "snd (Block_ValidateBasic block_env sample_wkt (Some small_block)) = Ok ()"
  by code_simp

lemma small_block_inputs: "distinct (map nz32 (remdups (blockInputs block_env sample_wkt small_block)))"
  by code_simp

lemma small_block_memo: "memo_ok block_env small_block" "memo_ok block_env small_block_checked"
  by (simp_all add: memo_ok_def small_block_def small_block_checked_def commit_memo_def NewCommit_def ed_zero_def evLeaves_def
      block_env_def HashFromByteSlices_def emptyHash_def)

theorem block_hash_binds_content_witness:
  "b_Header small_block = b_Header small_block_checked \<and> d_Txs (b_Data small_block) = d_Txs (b_Data small_block_checked) \<and>
   small_block \<noteq> small_block_checked"
proof -
  have "snd (Block_ValidateBasic block_env sample_wkt (Some small_block_checked)) = Ok ()" by code_simp
  note valid = small_block_valid this
  have eq: "blockInputs block_env sample_wkt small_block_checked = blockInputs block_env sample_wkt small_block"
    by (simp add: blockInputs_def small_block_def small_block_checked_def ed_zero_def)
  have "inj_on nz32 (set (remdups (blockInputs block_env sample_wkt small_block)))"
    using small_block_inputs by (simp only: distinct_map)
  then have inj: "inj_on (Sum256 block_env) (set (blockInputs block_env sample_wkt small_block) \<union> set (blockInputs block_env sample_wkt small_block_checked))"
    unfolding eq by (simp add: block_env_def)
  have hd: "b_Header small_block_checked = b_Header small_block" by (simp add: small_block_checked_def)
  obtain x where x: "Header_Hash block_env sample_wkt (Some (b_Header small_block)) = (Ok (Some x) :: (block_error, _) res)"
    by (simp add: Header_Hash_eq small_block_def block_env_def sample_env_def header_zero_def)
  have h: "Block_Hash block_env sample_wkt (Some b) = (Ok (Some b, Some x) :: (block_error, _) res)"
    if "b \<in> {small_block, small_block_checked}" for b
    using that x hd by (auto simp: Block_Hash_filled small_block_def small_block_checked_def)
  have "is_int64 (h_Height (b_Header small_block))" by (simp add: small_block_def is_int64_def int_limits)
  from block_hash_binds_content [OF valid small_block_memo h h block_env_ok sample_wkt_documented this this [folded hd] inj]
  show ?thesis by (auto simp: small_block_def small_block_checked_def ed_zero_def)
qed

section \<open>Operations keep the memoized hashes coherent\<close>

text \<open>What a block holds apart from its memoized hashes and the hashes that \<open>fillHeader\<close> adds.\<close>

definition block_content :: "Block \<Rightarrow> bytes list \<times> Evidence list \<times> CommitSig list option" where
  "block_content b = (d_Txs (b_Data b), ed_Evidence (b_Evidence b), map_option c_Signatures (b_LastCommit b))"

lemma Commit_Hash_keeps:
  assumes "Commit_Hash E oc = Ok (oc', w)" "\<forall>c. oc = Some c \<longrightarrow> commit_memo E c"
  shows "(\<forall>c. oc' = Some c \<longrightarrow> commit_memo E c) \<and> map_option c_Signatures oc' = map_option c_Signatures oc"
proof (cases oc)
  case None
  then show ?thesis using assms(1) by (simp add: Commit_Hash_def)
next
  case (Some c)
  with assms(2) have "commit_memo E c" by simp
  from Commit_Hash_Ok [OF this assms(1) [unfolded Some]] show ?thesis by (auto simp: commit_memo_def commitLeaves_def Some)
qed

lemma EvidenceData_Hash_keeps:
  assumes "EvidenceData_Hash E d = Ok (d', w)"
    "\<forall>h. ed_hash d = Some h \<longrightarrow> (\<exists>ls. evLeaves E (ed_Evidence d) = Some ls \<and> h = HashFromByteSlices (Sum256 E) ls)"
  shows "(\<forall>h. ed_hash d' = Some h \<longrightarrow> (\<exists>ls. evLeaves E (ed_Evidence d') = Some ls \<and> h = HashFromByteSlices (Sum256 E) ls)) \<and>
    ed_Evidence d' = ed_Evidence d"
  using EvidenceData_Hash_Ok [OF assms(2,1)] by auto

lemma Data_Hash_keeps:
  assumes "Data_Hash E (Some d) = (od, w)" "\<forall>h. d_hash d = Some h \<longrightarrow> h = Txs_Hash E (d_Txs d)"
  shows "\<exists>d'. od = Some d' \<and> d_hash d' = Some (Txs_Hash E (d_Txs d')) \<and> d_Txs d' = d_Txs d"
  using assms(1) by (simp add: Data_Hash_eq [OF assms(2)]) auto

definition block_inv :: "env \<Rightarrow> (bytes list \<times> Evidence list \<times> CommitSig list option) \<Rightarrow> Block \<Rightarrow> bool" where
  "block_inv E content b \<longleftrightarrow> memo_ok E b \<and> block_content b = content"

lemma block_inv_parts:
  "block_inv E content b \<Longrightarrow> \<forall>c. b_LastCommit b = Some c \<longrightarrow> commit_memo E c"
  "block_inv E content b \<Longrightarrow> \<forall>h. d_hash (b_Data b) = Some h \<longrightarrow> h = Txs_Hash E (d_Txs (b_Data b))"
  "block_inv E content b \<Longrightarrow> \<forall>h. ed_hash (b_Evidence b) = Some h \<longrightarrow>
        (\<exists>ls. evLeaves E (ed_Evidence (b_Evidence b)) = Some ls \<and> h = HashFromByteSlices (Sum256 E) ls)"
  by (simp_all add: block_inv_def memo_ok_def)

lemma block_inv_commit:
  assumes "block_inv E content b" "Commit_Hash E (b_LastCommit b) = Ok (oc, w)"
  shows "block_inv E content (b\<lparr>b_LastCommit := oc\<rparr>)"
  using Commit_Hash_keeps [OF assms(2) block_inv_parts(1) [OF assms(1)]] assms(1)
  by (auto simp: block_inv_def memo_ok_def block_content_def)

lemma block_inv_data:
  assumes "block_inv E content b" "Data_Hash E (Some (b_Data b)) = (od, w)"
  shows "block_inv E content (b\<lparr>b_Data := case_option (b_Data b) id od\<rparr>)"
  using Data_Hash_keeps [OF assms(2) block_inv_parts(2) [OF assms(1)]] assms(1)
  by (auto simp: block_inv_def memo_ok_def block_content_def)

lemma block_inv_evidence:
  assumes "block_inv E content b" "EvidenceData_Hash E (b_Evidence b) = Ok (ed, w)"
  shows "block_inv E content (b\<lparr>b_Evidence := ed\<rparr>)"
  using EvidenceData_Hash_keeps [OF assms(2) block_inv_parts(3) [OF assms(1)]] assms(1)
  by (auto simp: block_inv_def memo_ok_def block_content_def)

lemma block_inv_header [simp]: "block_inv E content (b\<lparr>b_Header := h\<rparr>) \<longleftrightarrow> block_inv E content b"
  by (simp add: block_inv_def memo_ok_def block_content_def)

lemma fillHeader_inv:
  assumes "block_inv E content b" "fillHeader E b = Ok b'"
  shows "block_inv E content b'"
proof -
  have "block_inv E content b1" if "fillLastCommitHash E b = Ok b1" for b1
    using assms(1) that by (auto simp: fillLastCommitHash_def res_simps split: if_splits dest: block_inv_commit)
  moreover have "block_inv E content (fillDataHash E b1)" if "block_inv E content b1" for b1
    using that block_inv_data [OF that] by (auto simp: fillDataHash_def Let_def split: prod.split)
  moreover have "block_inv E content b3" if "block_inv E content b2" "fillEvidenceHash E b2 = (Ok b3 :: ('a, _) res)" for b2 b3
    using that by (auto simp: fillEvidenceHash_def res_simps split: if_splits dest: block_inv_evidence)
  ultimately show ?thesis using assms(2) by (auto simp: fillHeader_def res_simps)
qed

lemma Block_Hash_inv: "block_inv E content b \<Longrightarrow> Block_Hash E W (Some b) = Ok (ob, h) \<Longrightarrow> block_inv E content (case_option b id ob)"
  by (auto simp: Block_Hash_def res_simps split: if_splits dest: fillHeader_inv)

lemma and_then_inv: "P (fst sr) \<Longrightarrow> (\<And>s. P s \<Longrightarrow> P (fst (f s))) \<Longrightarrow> P (fst (and_then sr f))"
  by (auto simp: and_then_def split: res.split)

lemma checkLastCommit_inv: "block_inv E content b \<Longrightarrow> block_inv E content (fst (checkLastCommit E b))"
  by (auto simp: checkLastCommit_def Let_def split: option.split res.split intro: block_inv_commit)

lemma checkDataHash_inv: "block_inv E content b \<Longrightarrow> block_inv E content (fst (checkDataHash E b))"
  using block_inv_data [of E content b] by (cases "Data_Hash E (Some (b_Data b))") (simp add: checkDataHash_def Let_def)

lemma checkEvidenceHash_inv: "block_inv E content b \<Longrightarrow> block_inv E content (fst (checkEvidenceHash E b))"
  by (auto simp: checkEvidenceHash_def Let_def split: res.split intro: block_inv_evidence)

lemmas checks_inv = checkLastCommit_inv checkDataHash_inv checkEvidenceHash_inv

lemma Block_ValidateBasic_inv:
  assumes "block_inv E content b"
  shows "block_inv E content (case_option b id (fst (Block_ValidateBasic E W (Some b))))"
proof -
  have "block_inv E content (fst (and_then (checkHeader b) (\<lambda>b. and_then (checkLastCommit E b) (\<lambda>b. and_then (checkDataHash E b) (\<lambda>b.
      and_then (b, validateEvidence E W 0 (ed_Evidence (b_Evidence b))) (\<lambda>b. checkEvidenceHash E b))))))"
    by (intro and_then_inv [where P = "block_inv E content"] checks_inv) (simp_all add: assms)
  then show ?thesis by (simp add: Block_ValidateBasic_def)
qed

text \<open>
  The operations on a block that fill memos. \<open>EvidenceData.FromProto\<close> is not among them: it replaces the evidence and keeps the
  memoized hash, so that it is coherent on fresh evidence data only, which is how \<open>BlockFromProto\<close> calls it.
\<close>

datatype block_op = OpHash | OpHashesTo bytes | OpValidateBasic | OpByteSize

fun block_step :: "env \<Rightarrow> wkt \<Rightarrow> Block \<Rightarrow> block_op \<Rightarrow> (block_error, Block) res" where
  "block_step E W b OpHash = res_bind (Block_Hash E W (Some b)) (\<lambda>(ob, _). Ok (case_option b id ob))"
| "block_step E W b (OpHashesTo h) = res_bind (Block_HashesTo E W (Some b) h) (\<lambda>(ob, _). Ok (case_option b id ob))"
| "block_step E W b OpValidateBasic = Ok (case_option b id (fst (Block_ValidateBasic E W (Some b))))"
| "block_step E W b OpByteSize =
     res_bind (EvidenceData_ByteSize E (b_Evidence b)) (\<lambda>(ed, _). Ok (b\<lparr>b_Evidence := ed\<rparr>))"

lemma block_inv_size: "block_inv E content b \<Longrightarrow> EvidenceData_ByteSize E (b_Evidence b) = Ok (ed, n) \<Longrightarrow> block_inv E content (b\<lparr>b_Evidence := ed\<rparr>)"
  by (auto simp: EvidenceData_ByteSize_def block_inv_def memo_ok_def block_content_def Let_def split: if_splits res.splits)

lemma block_step_inv: "block_inv E content b \<Longrightarrow> block_step E W b op = Ok b' \<Longrightarrow> block_inv E content b'"
  by (cases op) (auto simp: res_simps Block_HashesTo_def split: if_splits dest: Block_Hash_inv block_inv_size intro: Block_ValidateBasic_inv)

interpretation blk: machine "block_step E W" "block_inv E content"
  by unfold_locales (rule block_step_inv)

lemma FromProto_no_memo:
  "CommitFromProto opc = Ok c \<Longrightarrow> c_hash c = None"
  "DataFromProto odp = Ok d \<Longrightarrow> d_hash d = None"
  "EvidenceData_FromProto E W d0 oed = Ok ed \<Longrightarrow> ed_hash ed = ed_hash d0"
  by (auto simp: CommitFromProto_def DataFromProto_def EvidenceData_FromProto_def res_simps Let_def split: option.splits res.splits)

lemma BlockFromProto_Ok:
  assumes "BlockFromProto E W (Some pb) = Ok b"
  obtains b0 ob where "memo_ok E b0" "Block_ValidateBasic E W (Some b0) = (ob, Ok ())" "b = case_option b0 id ob"
proof -
  from assms obtain h data where h: "HeaderFromProto (Some (pb_Header pb)) = Ok h" "DataFromProto (Some (pb_Data pb)) = Ok data"
    by (auto simp: BlockFromProto_def split: res.splits)
  with assms obtain evd lc where e: "EvidenceData_FromProto E W ed_zero (Some (pb_Evidence pb)) = Ok evd"
    "(case pb_LastCommit pb of None \<Rightarrow> Ok None
      | Some pc \<Rightarrow> (case CommitFromProto (Some pc) of
          Err e \<Rightarrow> Err (ErrBlockCommit e) | Panic s \<Rightarrow> Panic s | Ok lc \<Rightarrow> Ok (Some lc))) = Ok lc"
    by (auto simp: BlockFromProto_def res_simps)
  let ?b = "\<lparr>b_Header = h, b_Data = data, b_Evidence = evd, b_LastCommit = lc\<rparr>"
  have "(case Block_ValidateBasic E W (Some ?b) of (ob, r) \<Rightarrow> res_bind r (\<lambda>_. Ok (case_option ?b id ob))) = Ok b"
    using assms h e by (simp add: BlockFromProto_def Let_def)
  moreover have "memo_ok E ?b"
    using FromProto_no_memo(2) [OF h(2)] FromProto_no_memo(3) [OF e(1)] e(2)
    by (auto simp: memo_ok_def commit_memo_def ed_zero_def dest: FromProto_no_memo(1) split: option.splits res.splits)
  ultimately show thesis using that [of ?b] by (auto simp: res_simps split: prod.splits)
qed

text \<open>
  C20: However often a block is hashed, compared with a hash, validated or measured, and in whatever order, every memoized
  hash stays the hash of what it is stored with, and the transactions, the evidence and the commit signatures stay
  the same; a block just made by \<open>MakeBlock\<close> or read by \<open>BlockFromProto\<close> starts that way.
\<close>

theorem block_memo_coherent:
  assumes "MakeBlock E height txs (Some c) evs = (Ok b :: (block_error, _) res) \<and> commit_memo E c \<or> BlockFromProto E W (Some pb) = Ok b"
    "res_fold (block_step E W) b ops = Ok b'"
  shows "memo_ok E b' \<and> block_content b' = block_content b"
proof -
  have "memo_ok E b"
  proof (rule disjE [OF assms(1)], elim conjE)
    assume "MakeBlock E height txs (Some c) evs = (Ok b :: (block_error, _) res)" "commit_memo E c"
    from fillHeader_inv [OF _ this(1) [unfolded MakeBlock_def]] this(2) show ?thesis
      by (simp add: block_inv_def memo_ok_def)
  next
    assume "BlockFromProto E W (Some pb) = Ok b"
    then obtain b0 ob where b0: "memo_ok E b0" "Block_ValidateBasic E W (Some b0) = (ob, Ok ())" "b = case_option b0 id ob"
      by (rule BlockFromProto_Ok)
    then show ?thesis using Block_ValidateBasic_inv [of E "block_content b0" b0 W] by (simp add: block_inv_def)
  qed
  then have "block_inv E (block_content b) b" by (simp add: block_inv_def)
  from blk.run_inv [OF this assms(2)] show ?thesis by (simp add: block_inv_def)
qed

lemma made_block_run:
  "case MakeBlock block_env 1 [[7]] (Some (NewCommit 0 0 bid_zero [])) [] :: (block_error, Block) res of
     Ok b \<Rightarrow> (case res_fold (block_step block_env sample_wkt) b [OpHash, OpValidateBasic, OpByteSize] of Ok _ \<Rightarrow> True | _ \<Rightarrow> False)
   | _ \<Rightarrow> False"
  by code_simp

theorem block_memo_coherent_witness:
  "\<exists>b b'. MakeBlock block_env 1 [[7]] (Some (NewCommit 0 0 bid_zero [])) [] = (Ok b :: (block_error, Block) res) \<and>
     res_fold (block_step block_env sample_wkt) b [OpHash, OpValidateBasic, OpByteSize] = Ok b' \<and>
     memo_ok block_env b' \<and> block_content b' = block_content b"
proof -
  obtain b b' where b: "MakeBlock block_env 1 [[7]] (Some (NewCommit 0 0 bid_zero [])) [] = (Ok b :: (block_error, Block) res)"
    "res_fold (block_step block_env sample_wkt) b [OpHash, OpValidateBasic, OpByteSize] = Ok b'"
    using made_block_run by (auto split: res.splits)
  have "commit_memo block_env (NewCommit 0 0 bid_zero [])" by (simp add: commit_memo_def NewCommit_def)
  with block_memo_coherent [OF disjI1 [OF conjI [OF b(1)]] b(2)] b show ?thesis by blast
qed

end
