(* ===== verification/Spec2Isabelle.thy ===== *)
theory Spec2Isabelle
  imports Fairness HeightVoteSet PrivVal Block
begin

text \<open>
  A verification development of the data structures and checks that the safety of Tendermint rests on: what validators
  sign, when votes make a majority, which commits are accepted, how proposers take turns, and what a block hash stands
  for.

  \<^bold>\<open>The program.\<close> Validators propose blocks and vote on them in rounds. A vote is signed by the file signer
  (\<open>privval/file.go\<close>) and collected in vote sets (\<open>types/vote_set.go\<close>), one for each round and type, which a height vote set
  (\<open>internal/consensus/types/height_vote_set.go\<close>) keeps. A majority of precommits becomes a commit (\<open>types/block.go\<close>) that any
  node checks against a validator set (\<open>types/validation.go\<close>, \<open>types/validator_set.go\<close>). Blocks, headers and
  evidence (\<open>types/block.go\<close>, \<open>types/light.go\<close>, \<open>types/evidence.go\<close>) are identified by Merkle roots (\<open>crypto/merkle\<close>) of
  their protobuf encodings (\<open>proto/tendermint\<close>).

  \<^bold>\<open>Conventions\<close> (theory \<open>Prelude\<close>). A call returns a value, an error or a panic (\<open>res\<close>), and \<open>res_bind\<close> passes
  errors and panics on. An \<open>int64\<close> or \<open>int32\<close> is an \<open>int\<close>, with \<open>wrap64\<close> and \<open>wrap32\<close> written out where the code may overflow;
  bytes and the unsigned integers that are compared or encoded are machine words. A pointer or slice that the code
  tests against nil is an option, a pointer into a slice is an index, and an operation on a struct with caches returns
  the struct. The locales \<open>machine\<close> and \<open>safe_machine\<close> state invariants over runs of operations; they are interpreted on
  vote sets (\<open>vset\<close>), height vote sets (\<open>hvs\<close>) and blocks (\<open>blk\<close>). The locale \<open>bit_vector\<close> is the contract of bit arrays
  towards commits and vote sets, interpreted on the words of \<open>libs/bits\<close> (\<open>ba\<close>).

  \<^bold>\<open>The theories.\<close>

  \<^item> \<open>SafeMath\<close>: \<open>libs/math\<close> and the saturating helpers of \<open>types/validator_set.go\<close>; sums are exact or
    clamped, fractions survive printing and parsing.
  \<^item> \<open>BitArray\<close>: \<open>libs/bits/bit_array.go\<close> on 64-bit words; reads after writes, the bit-wise operations with the bits that
    \<open>Or\<close> drops and the bits past the size that take part, the JSON round trip.
  \<^item> \<open>Merkle\<close>: \<open>crypto/merkle\<close> trees and proofs; the iterative root equals the recursive one, built proofs
    verify, and an accepted proof is of an item of the tree.
  \<^item> \<open>Wire\<close>, \<open>ProtoIO\<close>: varints, fields, sizes and delimited messages as the generated code and
    \<open>internal/libs/protoio\<close> write and read them; encodings of tagged fields are injective.
  \<^item> \<open>Crypto\<close>: keys, addresses, signature checks and batch verifiers of \<open>crypto\<close>.
  \<^item> \<open>BlockId\<close>, \<open>Votes\<close>: block identifiers, canonical messages, votes and proposals; sign bytes determine what is signed.
  \<^item> \<open>ValidatorSet\<close>, \<open>Proposer\<close>, \<open>Fairness\<close>, \<open>ValUpdate\<close>: \<open>types/validator.go\<close> and \<open>types/validator_set.go\<close>; \<open>Proposer\<close> shows
    that an increment keeps the set well formed, \<open>Fairness\<close> that validators are chosen in proportion to their power, over the
    rounds of one call and, while no call has to rescale, over repeated calls, and \<open>ValUpdate\<close> that change sets refine their
    specification.
  \<^item> \<open>Commits\<close>, \<open>CommitVerify\<close>: commits and their verification; accepted commits carry the claimed voting power, and the
    batch path agrees with the single path for keys of one type and refuses what mixes them.
  \<^item> \<open>VoteSet\<close>, \<open>HeightVoteSet\<close>: collecting votes; no message sequence makes them panic, a reported majority is signed and
    final, two majorities expose double signers, the commit of a block majority verifies, and peers cannot open more than two rounds each.
  \<^item> \<open>PrivVal\<close>: the file signer with its files, crashes and restarts; it never releases two conflicting signatures.
  \<^item> \<open>BlockHeader\<close>: transactions, block data, headers, signed headers and light blocks; roots, data hashes and header hashes
    determine what they hash.
  \<^item> \<open>Messages\<close>: the marshalled forms of votes, commits, validators and headers; sizes are the bytes written.
  \<^item> \<open>Evidence\<close>: duplicate votes and light client attacks; two conflicting votes always make valid evidence.
  \<^item> \<open>Block\<close>: blocks; the hash of a valid block determines its header, its transactions, its commit signatures and the
    encodings of its evidence, and memoized hashes stay coherent.

  \<^bold>\<open>Parameters and hypotheses.\<close> What is outside the repository is a parameter, and so are two generated decoders. The record \<open>env\<close> holds the hashes, the
  curve operations, the batch verifiers and the encoding of timestamps; \<open>wkt\<close> the wrapper messages of the protobuf
  library; \<open>pv_env\<close> says which files can be written, and holds the decoders of canonical votes and proposals that the signer
  calls. These two are generated code of the repository (\<open>proto/tendermint/types/canonical.pb.go\<close>) that is not modelled;
  \<open>no_double_signing\<close> assumes that they invert the modelled encoders on the messages it is asked to sign. What theorems ask
  of the other parameters is named:
  \<open>hash32\<close> (digests have 32 bytes), \<open>batch_documented\<close> (the contract of \<open>crypto.BatchVerifier\<close>), \<open>time_inj\<close> and
  \<open>wkt_documented\<close> (encodings are injective), and injectivity of the hash on the finitely many byte strings that the
  computations at hand feed it. Each such theorem has a witness in which the parameters are concrete functions
  (\<open>sample_env\<close>, \<open>block_env\<close>, \<open>sample_wkt\<close>).

  \<^bold>\<open>Loops.\<close> There is no fuel. Loops are structural or have a measure; two are \<open>partial_function (option)\<close>, where not returning
  is \<open>None\<close>: the walk along parent pointers in \<open>Merkle\<close>, which is shown to return on the nodes that the code builds, and the
  loop of \<open>SetRound\<close>, which is shown to return except at the largest \<open>int32\<close>.

  \<^bold>\<open>Not modelled.\<close> The routines that are driven by timers, channels, sockets, databases or the application: the consensus
  state machine and its gossip and log, block execution, mempool, evidence pool, block and state sync, the network,
  remote signers, ABCI, RPC, indexing, node and commands. Of what is close to the modelled parts: splitting blocks into
  parts (\<open>types/part_set.go\<close>), the header checks of the light client (\<open>light/verifier.go\<close>), the chained proof operators of
  \<open>crypto/merkle\<close>, consensus parameters and genesis, and the generated \<open>Unmarshal\<close> functions, whose callers are
  modelled on the decoded structs. Mutexes are left out: operations are atomic steps, and the theorems about runs are about
  sequences of them. They say nothing about calls that interleave. Printing for logs is left out.
\<close>

end
